(* ===== verification/Prelude.thy ===== *)
theory Prelude
  imports Main "HOL-Library.Word" "HOL-Library.Monad_Syntax"
begin

text \<open>
  Shared vocabulary of the development: the machine integers of the C++ code as words, byte
  strings, and the facts about words, lists and options that several components use.

  The collection \<open>dword_simps\<close> holds the rewriting rules that move word
  arithmetic to natural numbers.  \<open>reader_simps\<close> and \<open>codec_simps\<close>
  hold the equations of the stream readers and of the serializers built on them.
\<close>

unbundle bit_operations_syntax

named_theorems dword_simps
named_theorems reader_simps
named_theorems codec_simps

type_synonym u8 = "8 word"
type_synonym u16 = "16 word"
type_synonym u32 = "32 word"
type_synonym u64 = "64 word"

type_synonym bytes = "u8 list"

section \<open>Words\<close>

lemma unat_push_bit_eq:
  "unat (push_bit n (w :: 'a::len word)) = unat w * 2 ^ n mod 2 ^ LENGTH('a)"
proof -
  have "push_bit n w = of_nat (unat w * 2 ^ n)"
    by (simp add: push_bit_eq_mult)
  then show ?thesis by (simp only: unat_of_nat)
qed

lemma unat_drop_bit_div: "unat (drop_bit n (w :: 'a::len word)) = unat w div 2 ^ n"
  unfolding unat_drop_bit_eq by (simp only: drop_bit_eq_div)

lemma unat_lt_u64 [simp]: "unat (x :: u64) < 2 ^ 64"
  using unsigned_less [of x, where ?'a = nat] by simp

lemma unat_lt_u64_numeral [simp]: "unat (x :: u64) < 18446744073709551616"
  using unsigned_less [of x, where ?'a = nat] by simp

lemma unat_of_nat_u64: "n < 2 ^ 64 \<Longrightarrow> unat (of_nat n :: u64) = n"
  by (simp add: unat_of_nat)

lemma unat_ucast_up:
  assumes "LENGTH('a::len) \<le> LENGTH('b::len)"
  shows "unat (ucast (x :: 'a word) :: 'b word) = unat x"
proof -
  have "unat x < 2 ^ LENGTH('b)"
    using unsigned_less [of x, where ?'a = nat] power_increasing [OF assms, of "2 :: nat"]
    by linarith
  then show ?thesis by (simp add: unsigned_ucast_eq take_bit_nat_eq_self)
qed

lemma take_bit_word_self:
  assumes "unat (w :: 'a::len word) < 2 ^ n"
  shows "take_bit n w = w"
  using assms by (simp add: word_unat_eq_iff unsigned_take_bit_eq take_bit_nat_eq_self)

text \<open>Two digit numbers compare as their digits do.\<close>

lemma two_digits_less_iff:
  fixes h l h' l' B :: nat
  assumes "l < B" "l' < B"
  shows "h < h' \<or> h = h' \<and> l < l' \<longleftrightarrow> h * B + l < h' * B + l'"
proof (cases h h' rule: linorder_cases)
  case less
  then have "(h + 1) * B \<le> h' * B" by (intro mult_le_mono1) simp
  then show ?thesis using less assms by simp
next
  case greater
  then have "(h' + 1) * B \<le> h * B" by (intro mult_le_mono1) simp
  then show ?thesis using greater assms by simp
qed simp

text \<open>The carry of an addition is visible in the wrapped sum.\<close>

lemma unat_add_carry:
  "unat (x + y) + of_bool (x + y < x) * 2 ^ LENGTH('a) = unat x + unat (y :: 'a::len word)"
proof -
  have lt: "unat x < 2 ^ LENGTH('a)" "unat y < 2 ^ LENGTH('a)"
    by (rule unsigned_less)+
  show ?thesis
  proof (cases "unat x + unat y < 2 ^ LENGTH('a)")
    case True
    then show ?thesis by (simp add: word_less_nat_alt unat_word_ariths)
  next
    case False
    then have "unat x + unat y - 2 ^ LENGTH('a) < 2 ^ LENGTH('a)"
      using lt by linarith
    with False have "unat (x + y) = unat x + unat y - 2 ^ LENGTH('a)"
      by (simp add: unat_word_ariths le_mod_geq)
    moreover from this False lt have "x + y < x"
      unfolding word_less_nat_alt by linarith
    ultimately show ?thesis using False by simp
  qed
qed

lemma add_overflow_iff: "r + p < r \<longleftrightarrow> 2 ^ LENGTH('a) \<le> unat r + unat (p :: 'a::len word)"
proof (cases "r + p < r")
  case False
  then have "unat (r + p) = unat r + unat p" using unat_add_carry [of r p] by simp
  then show ?thesis using False unsigned_less [of "r + p", where ?'a = nat] by linarith
qed (use unat_add_carry [of r p] in simp)

lemma unat_add_no_overflow:
  "unat r + unat p < 2 ^ LENGTH('a) \<Longrightarrow> unat (r + p :: 'a::len word) = unat r + unat p"
  by (simp add: unat_word_ariths)

lemma unat_of_nat_sum4:
  assumes "unat a + unat b + unat c + unat d < 2 ^ LENGTH('a)"
  shows "unat (a + b + c + d :: 'a::len word) = unat a + unat b + unat c + unat d"
proof -
  have "a + b + c + d = of_nat (unat a + unat b + unat c + unat d)" by simp
  with assms show ?thesis by (simp only: unat_of_nat mod_less)
qed

text \<open>A left and a right shift by complementary amounts are a rotation.\<close>

lemma push_drop_eq_rotl:
  fixes x :: "'a::len word"
  assumes "m < LENGTH('a)"
  shows "push_bit m x OR drop_bit ((LENGTH('a) - m) mod LENGTH('a)) x = word_rotl m x"
proof (rule bit_word_eqI)
  fix n assume n: "n < LENGTH('a)"
  show "bit (push_bit m x OR drop_bit ((LENGTH('a) - m) mod LENGTH('a)) x) n = bit (word_rotl m x) n"
  proof (cases "m = 0")
    case True
    then show ?thesis using n by (simp add: bit_simps)
  next
    case False
    then have k: "(LENGTH('a) - m) mod LENGTH('a) = LENGTH('a) - m" by simp
    show ?thesis
    proof (cases "m \<le> n")
      case True
      then have "n + (LENGTH('a) - m) = n - m + LENGTH('a)" using assms by simp
      then have "(n + (LENGTH('a) - m)) mod LENGTH('a) = n - m"
        using n by (simp only: mod_add_self2 mod_less less_imp_diff_less)
      then show ?thesis using True n assms
        by (auto simp: k bit_simps bit_word_rotl_iff dest: bit_imp_le_length)
    next
      case False
      then show ?thesis using n assms
        by (simp add: k bit_simps bit_word_rotl_iff add.commute)
    qed
  qed
qed

lemma nat_neg_mod: "0 < L \<Longrightarrow> nat (- r mod int L) = (L - nat (r mod int L)) mod L"
proof -
  assume L: "0 < L"
  define k where "k = nat (r mod int L)"
  have "k < L" "r mod int L = int k" using L by (simp_all add: k_def nat_less_iff)
  then show ?thesis by (auto simp: zmod_zminus1_eq_if k_def [symmetric] simp flip: of_nat_diff)
qed

section \<open>Lists\<close>

lemma find_append: "find P (xs @ ys) = (case find P xs of None \<Rightarrow> find P ys | Some x \<Rightarrow> Some x)"
  by (induction xs) simp_all

end
