(* ===== verification/Int_Util.thy ===== *)
theory Int_Util
  imports Prelude
begin

text \<open>
  The integer helpers of \<^verbatim>\<open>src/common/int_util.h\<close>: 64 by 64 bit multiplication
  into a 128 bit product, long division of a 128 bit dividend by a 32 bit divisor, rotations
  and byte swaps.  The functions that return a second value through a pointer return a pair;
  division by zero, which traps, is \<open>None\<close>.  The target is little endian, so
  \<open>swap64be\<close> is \<open>swap64\<close> and \<open>swap64le\<close> is the identity.
\<close>

section \<open>Multiplication and division on 128 bits\<close>

definition hi_dword :: "u64 \<Rightarrow> u64" where
  "hi_dword val = drop_bit 32 val"

definition lo_dword :: "u64 \<Rightarrow> u64" where
  "lo_dword val = val AND 0xFFFFFFFF"

text \<open>The pair is \<open>(*product_hi, product_lo)\<close>.\<close>

definition mul128 :: "u64 \<Rightarrow> u64 \<Rightarrow> u64 \<times> u64" where
  "mul128 multiplier multiplicand =
     (let a = hi_dword multiplier; b = lo_dword multiplier;
          c = hi_dword multiplicand; d = lo_dword multiplicand;
          ac = a * c; ad = a * d; bc = b * c; bd = b * d;
          adbc = ad + bc;
          adbc_carry = (if adbc < ad then 1 else 0);
          product_lo = bd + push_bit 32 adbc;
          product_lo_carry = (if product_lo < bd then 1 else 0);
          product_hi = ac + drop_bit 32 adbc + push_bit 32 adbc_carry + product_lo_carry
      in (product_hi, product_lo))"

text \<open>The quotient and the new value of \<open>*remainder\<close>.\<close>

definition div_with_reminder :: "u64 \<Rightarrow> u32 \<Rightarrow> u32 \<Rightarrow> (u64 \<times> u32) option" where
  "div_with_reminder dividend divisor remainder =
     (let dividend' = dividend OR push_bit 32 (ucast remainder)
      in if divisor = 0 then None
         else Some (dividend' div ucast divisor, ucast (dividend' mod ucast divisor)))"

text \<open>\<open>(*quotient_hi, *quotient_lo, remainder)\<close>.\<close>

definition div128_32 :: "u64 \<Rightarrow> u64 \<Rightarrow> u32 \<Rightarrow> (u64 \<times> u64 \<times> u32) option" where
  "div128_32 dividend_hi dividend_lo divisor =
     do {
       (q3, remainder) \<leftarrow> div_with_reminder (hi_dword dividend_hi) divisor 0;
       (q2, remainder) \<leftarrow> div_with_reminder (lo_dword dividend_hi) divisor remainder;
       (q1, remainder) \<leftarrow> div_with_reminder (hi_dword dividend_lo) divisor remainder;
       (q0, remainder) \<leftarrow> div_with_reminder (lo_dword dividend_lo) divisor remainder;
       Some (push_bit 32 q3 OR q2, push_bit 32 q1 OR q0, remainder)
     }"

section \<open>Rotations and byte swaps\<close>

definition rol32 :: "u32 \<Rightarrow> int \<Rightarrow> u32" where
  "rol32 x r = push_bit (nat (r AND 31)) x OR drop_bit (nat (- r AND 31)) x"

definition rol64 :: "u64 \<Rightarrow> int \<Rightarrow> u64" where
  "rol64 x r = push_bit (nat (r AND 63)) x OR drop_bit (nat (- r AND 63)) x"

definition SWAP64 :: "u64 \<Rightarrow> u64" where
  "SWAP64 x =
     push_bit 56 (x AND 0x00000000000000ff) OR
     push_bit 40 (x AND 0x000000000000ff00) OR
     push_bit 24 (x AND 0x0000000000ff0000) OR
     push_bit 8 (x AND 0x00000000ff000000) OR
     drop_bit 8 (x AND 0x000000ff00000000) OR
     drop_bit 24 (x AND 0x0000ff0000000000) OR
     drop_bit 40 (x AND 0x00ff000000000000) OR
     drop_bit 56 (x AND 0xff00000000000000)"

definition swap32 :: "u32 \<Rightarrow> u32" where
  "swap32 x =
     (let x = push_bit 8 (x AND 0x00ff00ff) OR drop_bit 8 (x AND 0xff00ff00)
      in push_bit 16 x OR drop_bit 16 x)"

definition swap64 :: "u64 \<Rightarrow> u64" where
  "swap64 x =
     (let x = push_bit 8 (x AND 0x00ff00ff00ff00ff) OR drop_bit 8 (x AND 0xff00ff00ff00ff00);
          x = push_bit 16 (x AND 0x0000ffff0000ffff) OR drop_bit 16 (x AND 0xffff0000ffff0000)
      in push_bit 32 x OR drop_bit 32 x)"

text \<open>
  The loops over memory.  Memory is the list of the words it holds; a counter past its end is
  undefined behaviour, the value \<open>None\<close>.
\<close>

function mem_swap_loop :: "('w \<Rightarrow> 'w) \<Rightarrow> nat \<Rightarrow> nat \<Rightarrow> 'w list \<Rightarrow> 'w list \<Rightarrow> 'w list option" where
  "mem_swap_loop swap i n dst src =
     (if i < n
      then if i < length dst \<and> i < length src
           then mem_swap_loop swap (i + 1) n (dst[i := swap (src ! i)]) src
           else None
      else Some dst)"
  by pat_completeness auto
termination
  by (relation "measure (\<lambda>(swap, i, n, dst, src). n - i)") auto

declare mem_swap_loop.simps [simp del]

definition memcpy_swap32 :: "u32 list \<Rightarrow> u32 list \<Rightarrow> nat \<Rightarrow> u32 list option" where
  "memcpy_swap32 dst src n = mem_swap_loop swap32 0 n dst src"

definition memcpy_swap64 :: "u64 list \<Rightarrow> u64 list \<Rightarrow> nat \<Rightarrow> u64 list option" where
  "memcpy_swap64 dst src n = mem_swap_loop swap64 0 n dst src"

function mem_inplace_loop :: "('w \<Rightarrow> 'w) \<Rightarrow> nat \<Rightarrow> nat \<Rightarrow> 'w list \<Rightarrow> 'w list option" where
  "mem_inplace_loop swap i n mem =
     (if i < n
      then if i < length mem
           then mem_inplace_loop swap (i + 1) n (mem[i := swap (mem ! i)])
           else None
      else Some mem)"
  by pat_completeness auto
termination
  by (relation "measure (\<lambda>(swap, i, n, mem). n - i)") auto

declare mem_inplace_loop.simps [simp del]

definition mem_inplace_swap32 :: "u32 list \<Rightarrow> nat \<Rightarrow> u32 list option" where
  "mem_inplace_swap32 mem n = mem_inplace_loop swap32 0 n mem"

definition mem_inplace_swap64 :: "u64 list \<Rightarrow> nat \<Rightarrow> u64 list option" where
  "mem_inplace_swap64 mem n = mem_inplace_loop swap64 0 n mem"

section \<open>The two halves of a word\<close>

lemma unat_hi_dword [dword_simps]: "unat (hi_dword x) = unat x div 2 ^ 32"
  unfolding hi_dword_def by (rule unat_drop_bit_div)

lemma lo_dword_take_bit: "lo_dword x = take_bit 32 x"
  by (simp add: lo_dword_def take_bit_eq_mask mask_numeral)

lemma unat_lo_dword [dword_simps]: "unat (lo_dword x) = unat x mod 2 ^ 32"
  by (simp add: lo_dword_take_bit take_bit_eq_mod unat_mod)

lemma dword_bounds [simp]: "unat (hi_dword x) < 2 ^ 32" "unat (lo_dword x) < 2 ^ 32"
  using unat_lt_u64 [of x]
  by (simp_all add: dword_simps div_less_iff_less_mult del: unat_lt_u64)

lemma dword_split: "unat x = unat (hi_dword x) * 2 ^ 32 + unat (lo_dword x)"
  by (simp add: dword_simps)

lemma mult_dwords_lt: "a < 2 ^ 32 \<Longrightarrow> b < 2 ^ 32 \<Longrightarrow> a * b < (2::nat) ^ 64"
  using mult_strict_mono [of a "2 ^ 32" b "2 ^ 32"] by simp

lemma unat_dword_mult:
  assumes "unat (a :: u64) < 2 ^ 32" "unat (b :: u64) < 2 ^ 32"
  shows "unat (a * b) = unat a * unat b"
  using mult_dwords_lt [OF assms] by (simp add: unat_word_ariths)

lemma unat_or_push_dword:
  assumes "unat (l :: u64) < 2 ^ 32" "unat h < 2 ^ 32"
  shows "unat (push_bit 32 h OR l) = unat h * 2 ^ 32 + unat l"
proof -
  have l: "take_bit 32 l = l"
    using assms(1) by (rule take_bit_word_self)
  have "push_bit 32 h AND l = 0"
    by (subst l [symmetric]) (rule bit_eqI, simp add: bit_simps)
  then have "push_bit 32 h OR l = push_bit 32 h + l"
    by (simp add: disjunctive_add_eq_or)
  moreover have "unat (push_bit 32 h) = unat h * 2 ^ 32"
    using assms(2) by (simp add: unat_push_bit_eq)
  ultimately show ?thesis using assms by (simp add: unat_word_ariths)
qed

section \<open>The product is exact\<close>

text \<open>
  The schoolbook sum over the four partial products: with \<open>k1\<close> and \<open>k2\<close>
  the carries out of the two additions, \<open>S\<close> is the high word as a number.
\<close>

lemma mul128_exact:
  "unat (fst (mul128 x y)) * 2 ^ 64 + unat (snd (mul128 x y)) = unat x * unat y"
proof -
  define a b c d where "a = hi_dword x" "b = lo_dword x" "c = hi_dword y" "d = lo_dword y"
  note abcd = this
  define adbc where "adbc = a * d + b * c"
  define k1 where "k1 = (of_bool (adbc < a * d) :: nat)"
  define lo where "lo = b * d + push_bit 32 adbc"
  define k2 where "k2 = (of_bool (lo < b * d) :: nat)"
  define w1 where "w1 = (push_bit 32 (if adbc < a * d then 1 else 0) :: u64)"
  define w2 where "w2 = ((if lo < b * d then 1 else 0) :: u64)"
  have m: "unat (a * c) = unat a * unat c" "unat (a * d) = unat a * unat d"
    "unat (b * c) = unat b * unat c" "unat (b * d) = unat b * unat d"
    by (simp_all only: abcd unat_dword_mult dword_bounds)
  have e1: "unat adbc + k1 * 2 ^ 64 = unat a * unat d + unat b * unat c"
    using unat_add_carry [of "a * d" "b * c"] by (simp add: m k1_def adbc_def)
  have e2: "unat lo + k2 * 2 ^ 64 = unat b * unat d + unat adbc mod 2 ^ 32 * 2 ^ 32"
    using unat_add_carry [of "b * d" "push_bit 32 adbc"]
    by (simp add: m k2_def lo_def unat_push_bit_eq mult_mod_left)
  have ws: "unat w1 = k1 * 2 ^ 32" "unat w2 = k2"
    by (simp_all add: w1_def w2_def k1_def k2_def)
  define S where "S = unat (a * c) + unat (drop_bit 32 adbc) + unat w1 + unat w2"
  have S: "S = unat a * unat c + unat adbc div 2 ^ 32 + k1 * 2 ^ 32 + k2"
    unfolding S_def m ws unat_drop_bit_div ..
  have xy: "unat x * unat y = (unat a * 2 ^ 32 + unat b) * (unat c * 2 ^ 32 + unat d)"
    unfolding abcd by (simp only: dword_split [symmetric])
  define q r where "q = unat adbc div 2 ^ 32" and "r = unat adbc mod 2 ^ 32"
  have qr: "unat adbc = q * 2 ^ 32 + r"
    unfolding q_def r_def by (simp only: div_mult_mod_eq)
  have *: "S * 2 ^ 64 + unat lo = unat x * unat y"
  proof -
    have "S * 2 ^ 64 + unat lo =
      unat a * unat c * 2 ^ 64 + (q * 2 ^ 32 + k1 * 2 ^ 64) * 2 ^ 32 + (unat lo + k2 * 2 ^ 64)"
      unfolding S q_def [symmetric] by (simp add: algebra_simps)
    also have "\<dots> = unat a * unat c * 2 ^ 64 + (unat adbc + k1 * 2 ^ 64) * 2 ^ 32 + unat b * unat d"
      unfolding e2 [folded r_def] qr by (simp add: algebra_simps)
    also have "\<dots> = unat x * unat y"
      unfolding e1 xy by (simp add: algebra_simps)
    finally show ?thesis .
  qed
  have "unat x * unat y < 2 ^ 64 * 2 ^ 64"
    by (rule mult_strict_mono) (use unat_lt_u64 in simp_all)
  with * have "S * 2 ^ 64 < 2 ^ 64 * 2 ^ 64" by linarith
  then have "S < 2 ^ 64" by simp
  then have "unat (a * c + drop_bit 32 adbc + w1 + w2) = S"
    unfolding S_def by (subst unat_of_nat_sum4) simp_all
  then have "mul128 x y = (a * c + drop_bit 32 adbc + w1 + w2, lo)
     \<and> unat (a * c + drop_bit 32 adbc + w1 + w2) = S"
    by (simp add: mul128_def Let_def abcd adbc_def lo_def w1_def w2_def)
  then show ?thesis using * by simp
qed

lemma mul128_hi_lo:
  "unat (fst (mul128 x y)) = unat x * unat y div 2 ^ 64"
  "unat (snd (mul128 x y)) = unat x * unat y mod 2 ^ 64"
  using unat_lt_u64 [of "snd (mul128 x y)"]
  by (simp_all del: unat_lt_u64 flip: mul128_exact)

lemma mul128_no_overflow:
  "fst (mul128 x y) = 0 \<longleftrightarrow> unat x * unat y < 2 ^ 64"
  "unat x * unat y < 2 ^ 64 \<Longrightarrow> unat (snd (mul128 x y)) = unat x * unat y"
  by (simp_all add: mul128_hi_lo word_unat_eq_iff div_eq_0_iff)

text \<open>Comparing the two words of the products compares the products.\<close>

lemma mul128_less_iff:
  "fst (mul128 a b) < fst (mul128 c d) \<or>
   fst (mul128 a b) = fst (mul128 c d) \<and> snd (mul128 a b) < snd (mul128 c d)
   \<longleftrightarrow> unat a * unat b < unat c * unat d"
proof -
  note two_digits_less_iff [OF unat_lt_u64 unat_lt_u64,
    of "unat (fst (mul128 a b))" "unat (fst (mul128 c d))" "snd (mul128 a b)" "snd (mul128 c d)"]
  then show ?thesis by (simp only: mul128_exact word_less_nat_alt word_unat_eq_iff)
qed

lemma mul128_eq_iff:
  "fst (mul128 a b) = fst (mul128 c d) \<and> snd (mul128 a b) = snd (mul128 c d)
   \<longleftrightarrow> unat a * unat b = unat c * unat d"
proof
  assume "unat a * unat b = unat c * unat d"
  then show "fst (mul128 a b) = fst (mul128 c d) \<and> snd (mul128 a b) = snd (mul128 c d)"
    by (simp add: word_unat_eq_iff mul128_hi_lo)
qed (metis mul128_exact)

section \<open>The long division\<close>

lemma div_with_reminder_Some:
  assumes "divisor \<noteq> 0" "unat dividend < 2 ^ 32" "unat remainder < unat divisor"
  shows "\<exists>q r. div_with_reminder dividend divisor remainder = Some (q, r)
    \<and> unat remainder * 2 ^ 32 + unat dividend = unat q * unat divisor + unat r
    \<and> unat r < unat divisor \<and> unat q < 2 ^ 32"
proof -
  define D where "D = dividend OR push_bit 32 (ucast remainder)"
  have r: "unat (ucast remainder :: u64) = unat remainder"
    and d: "unat (ucast divisor :: u64) = unat divisor"
    by (simp_all add: unat_ucast_up)
  have r32: "unat remainder < 2 ^ 32"
    using unsigned_less [of remainder, where ?'a = nat] by simp
  have D: "unat D = unat remainder * 2 ^ 32 + unat dividend"
    unfolding D_def or.commute [of dividend]
    using unat_or_push_dword [OF assms(2), of "ucast remainder"] r r32 by (simp only:)
  define Q R where "Q = D div ucast divisor" and "R = D mod ucast divisor"
  have Q: "unat Q = unat D div unat divisor" and R: "unat R = unat D mod unat divisor"
    unfolding Q_def R_def unat_div unat_mod d by simp_all
  have pos: "0 < unat divisor" using assms(1) by (simp add: unat_gt_0)
  have "unat D < unat divisor * 2 ^ 32"
    unfolding D using assms(2) mult_le_mono1 [OF Suc_leI [OF assms(3)], of "2 ^ 32"]
    unfolding mult_Suc by linarith
  then have "unat Q < 2 ^ 32" unfolding Q by (simp add: div_less_iff_less_mult pos mult.commute)
  moreover have "unat (ucast R :: u32) = unat R"
    using R pos unsigned_less [of divisor, where ?'a = nat] mod_less_divisor [OF pos, of "unat D"]
    by (simp add: unsigned_ucast_eq take_bit_nat_eq_self)
  moreover have "div_with_reminder dividend divisor remainder = Some (Q, ucast R)"
    using assms(1) by (simp add: div_with_reminder_def D_def Q_def R_def Let_def)
  moreover have "unat D = unat Q * unat divisor + unat R"
    unfolding Q R by (simp only: div_mult_mod_eq)
  moreover have "unat R < unat divisor" unfolding R using pos by simp
  ultimately show ?thesis using D
    by (intro exI [of _ Q] exI [of _ "ucast R"] conjI) (simp_all only:)
qed

lemma div128_32_exact:
  assumes "divisor \<noteq> 0"
  shows "\<exists>qh ql r. div128_32 dividend_hi dividend_lo divisor = Some (qh, ql, r) \<and>
    unat qh * 2 ^ 64 + unat ql = (unat dividend_hi * 2 ^ 64 + unat dividend_lo) div unat divisor \<and>
    unat r = (unat dividend_hi * 2 ^ 64 + unat dividend_lo) mod unat divisor"
proof -
  let ?h = dividend_hi and ?l = dividend_lo and ?d = divisor
  have pos: "0 < unat ?d" using assms by (simp add: unat_gt_0)
  have z: "unat (0 :: u32) < unat ?d" using pos by simp
  obtain q3 r3 where 3: "div_with_reminder (hi_dword ?h) ?d 0 = Some (q3, r3)"
    "unat (hi_dword ?h) = unat q3 * unat ?d + unat r3" "unat r3 < unat ?d" "unat q3 < 2 ^ 32"
    using div_with_reminder_Some [OF assms dword_bounds(1) z] by (metis add_0 mult_0 unsigned_0)
  obtain q2 r2 where 2: "div_with_reminder (lo_dword ?h) ?d r3 = Some (q2, r2)"
    "unat r3 * 2 ^ 32 + unat (lo_dword ?h) = unat q2 * unat ?d + unat r2"
    "unat r2 < unat ?d" "unat q2 < 2 ^ 32"
    using div_with_reminder_Some [OF assms dword_bounds(2) 3(3)] by metis
  obtain q1 r1 where 1: "div_with_reminder (hi_dword ?l) ?d r2 = Some (q1, r1)"
    "unat r2 * 2 ^ 32 + unat (hi_dword ?l) = unat q1 * unat ?d + unat r1"
    "unat r1 < unat ?d" "unat q1 < 2 ^ 32"
    using div_with_reminder_Some [OF assms dword_bounds(1) 2(3)] by metis
  obtain q0 r0 where 0: "div_with_reminder (lo_dword ?l) ?d r1 = Some (q0, r0)"
    "unat r1 * 2 ^ 32 + unat (lo_dword ?l) = unat q0 * unat ?d + unat r0"
    "unat r0 < unat ?d" "unat q0 < 2 ^ 32"
    using div_with_reminder_Some [OF assms dword_bounds(2) 1(3)] by metis
  let ?n = "unat ?h * 2 ^ 64 + unat ?l"
  let ?qh = "push_bit 32 q3 OR q2" and ?ql = "push_bit 32 q1 OR q0"
  have q: "unat ?qh * 2 ^ 64 + unat ?ql =
      ((unat q3 * 2 ^ 32 + unat q2) * 2 ^ 32 + unat q1) * 2 ^ 32 + unat q0"
    using 0(4) 1(4) 2(4) 3(4) by (simp add: unat_or_push_dword)
  have "?n = (unat ?qh * 2 ^ 64 + unat ?ql) * unat ?d + unat r0"
    unfolding q dword_split [of ?h] dword_split [of ?l] using 0(2) 1(2) 2(2) 3(2)
    by algebra
  then have "?n div unat ?d = unat ?qh * 2 ^ 64 + unat ?ql" "?n mod unat ?d = unat r0"
    using 0(3) by simp_all
  then show ?thesis using 0(1) 1(1) 2(1) 3(1) by (simp add: div128_32_def)
qed

section \<open>Rotations and swaps move bits\<close>

lemma and_31_63_mod: "(r :: int) AND 31 = r mod 32" "r AND 63 = r mod 64"
  using take_bit_eq_mask [of 5 r] take_bit_eq_mask [of 6 r]
  by (simp_all add: take_bit_eq_mod mask_numeral)

lemma rol32_rotl: "rol32 x r = word_rotl (nat (r mod 32)) x"
proof -
  have "nat (r mod 32) < 32" by (simp add: nat_less_iff)
  then show ?thesis using push_drop_eq_rotl [of "nat (r mod 32)" x] nat_neg_mod [of 32 r]
    by (simp add: rol32_def and_31_63_mod)
qed

lemma rol64_rotl: "rol64 x r = word_rotl (nat (r mod 64)) x"
proof -
  have "nat (r mod 64) < 64" by (simp add: nat_less_iff)
  then show ?thesis using push_drop_eq_rotl [of "nat (r mod 64)" x] nat_neg_mod [of 64 r]
    by (simp add: rol64_def and_31_63_mod)
qed

text \<open>The position a bit of a \<open>k + 1\<close> byte word has once its bytes are reversed.\<close>

definition byte_mirror :: "nat \<Rightarrow> nat \<Rightarrow> nat" where
  "byte_mirror k n = 8 * (k - n div 8) + n mod 8"

lemma byte_mirror_involutive: "n < 8 * Suc k \<Longrightarrow> byte_mirror k (byte_mirror k n) = n"
proof -
  assume "n < 8 * Suc k"
  then have "n div 8 \<le> k" by (simp add: less_mult_imp_div_less flip: less_Suc_eq_le)
  moreover have "byte_mirror k n div 8 = k - n div 8" "byte_mirror k n mod 8 = n mod 8"
    by (simp_all add: byte_mirror_def)
  ultimately show ?thesis by (simp add: byte_mirror_def)
qed

lemma byte_mirror_less: "byte_mirror k n < 8 * Suc k"
  by (simp add: byte_mirror_def)

lemma bit_swap32:
  assumes "n < 32" shows "bit (swap32 x) n = bit x (byte_mirror 3 n)"
proof -
  have "n \<in> set [0..<32]" using assms by simp
  then show ?thesis
    unfolding byte_mirror_def swap32_def Let_def
    by (simp add: upt_rec bit_simps) (elim disjE; simp; simp add: numeral_eq_Suc)
qed

lemma bit_swap64:
  assumes "n < 64" shows "bit (swap64 x) n = bit x (byte_mirror 7 n)"
proof -
  have "n \<in> set [0..<64]" using assms by simp
  then show ?thesis
    unfolding byte_mirror_def swap64_def Let_def
    by (simp add: upt_rec bit_simps) (elim disjE; simp; simp add: numeral_eq_Suc)
qed

lemma bit_SWAP64:
  assumes "n < 64" shows "bit (SWAP64 x) n = bit x (byte_mirror 7 n)"
proof -
  have "n \<in> set [0..<64]" using assms by simp
  then show ?thesis
    unfolding byte_mirror_def SWAP64_def
    by (simp add: upt_rec bit_simps) (elim disjE; simp; simp add: numeral_eq_Suc)
qed

lemma swap32_swap32 [simp]: "swap32 (swap32 x) = x"
  using byte_mirror_involutive [of _ 3] byte_mirror_less [of 3]
  by (intro bit_word_eqI) (simp add: bit_swap32)

lemma swap64_swap64 [simp]: "swap64 (swap64 x) = x"
  using byte_mirror_involutive [of _ 7] byte_mirror_less [of 7]
  by (intro bit_word_eqI) (simp add: bit_swap64)

lemma SWAP64_eq_swap64: "SWAP64 x = swap64 x"
  by (rule bit_word_eqI) (simp add: bit_swap64 bit_SWAP64)

lemma mem_swap_loop_eq:
  "i \<le> n \<Longrightarrow> n \<le> length dst \<Longrightarrow> n \<le> length src \<Longrightarrow>
   mem_swap_loop swap i n dst src =
     Some (take i dst @ map swap (drop i (take n src)) @ drop n dst)"
proof (induction swap i n dst src rule: mem_swap_loop.induct)
  case (1 swap i n dst src)
  show ?case
  proof (cases "i < n")
    case True
    then have "drop i (take n src) = src ! i # drop (Suc i) (take n src)"
      using 1 by (simp add: Cons_nth_drop_Suc [symmetric])
    with True 1 show ?thesis
      by (subst mem_swap_loop.simps) (simp add: take_Suc_conv_app_nth)
  next
    case False
    with 1 show ?thesis by (subst mem_swap_loop.simps) simp
  qed
qed

lemma memcpy_swap32_spec:
  "n \<le> length dst \<Longrightarrow> n \<le> length src \<Longrightarrow>
   memcpy_swap32 dst src n = Some (map swap32 (take n src) @ drop n dst)"
  by (simp add: memcpy_swap32_def mem_swap_loop_eq)

lemma mem_inplace_loop_eq:
  "i \<le> n \<Longrightarrow> n \<le> length mem \<Longrightarrow>
   mem_inplace_loop swap i n mem = Some (take i mem @ map swap (drop i (take n mem)) @ drop n mem)"
proof (induction swap i n mem rule: mem_inplace_loop.induct)
  case (1 swap i n mem)
  show ?case
  proof (cases "i < n")
    case True
    then have "drop i (take n mem) = mem ! i # drop (Suc i) (take n mem)"
      using 1 by (simp add: Cons_nth_drop_Suc [symmetric])
    moreover have "take (Suc i) (mem[i := swap (mem ! i)]) = take i mem @ [swap (mem ! i)]"
      using True 1 by (simp add: take_Suc_conv_app_nth list_update_append)
    moreover have "drop (Suc i) (take n (mem[i := swap (mem ! i)])) = drop (Suc i) (take n mem)"
      by (simp add: take_update_swap)
    ultimately show ?thesis using True 1
      by (subst mem_inplace_loop.simps) simp
  next
    case False
    with 1 show ?thesis by (subst mem_inplace_loop.simps) simp
  qed
qed

text \<open>Swapping a buffer twice in place restores it.\<close>

lemma mem_inplace_swap64_involutive:
  "n \<le> length mem \<Longrightarrow>
   Option.bind (mem_inplace_swap64 mem n) (\<lambda>m. mem_inplace_swap64 m n) = Some mem"
  by (simp add: mem_inplace_swap64_def mem_inplace_loop_eq comp_def)

lemma mem_inplace_swap32_involutive:
  "n \<le> length mem \<Longrightarrow>
   Option.bind (mem_inplace_swap32 mem n) (\<lambda>m. mem_inplace_swap32 m n) = Some mem"
  by (simp add: mem_inplace_swap32_def mem_inplace_loop_eq comp_def)

lemma memcpy_swap64_spec:
  "n \<le> length dst \<Longrightarrow> n \<le> length src \<Longrightarrow>
   memcpy_swap64 dst src n = Some (map swap64 (take n src) @ drop n dst)"
  by (simp add: memcpy_swap64_def mem_swap_loop_eq)

end
