(* ===== verification/Streams.thy ===== *)
theory Streams
  imports Prelude
begin

text \<open>
  Byte streams and the binary serializers on them: \<^verbatim>\<open>src/common/stream_tools.cpp\<close>,
  \<^verbatim>\<open>src/common/memory_input_stream.cpp\<close> and the two serializers of
  \<^verbatim>\<open>src/serialization\<close>.

  An input stream is the list of the bytes not read yet.  A read returns its value and the
  rest of the stream, or the exception it throws.  A write is the list of the bytes that it
  appends.  \<open>codec\<close> is the contract of a writer and a reader that fit together;
  \<open>canonical_codec\<close> adds that a value has only one encoding the reader accepts.
\<close>

unbundle bit_operations_syntax

datatype ser_error =
    ReadFailed               \<comment> \<open>Failed to read from IInputStream\<close>
  | VarintOverflow           \<comment> \<open>readVarint, value overflow\<close>
  | VarintRepresentation     \<comment> \<open>readVarint, invalid value representation\<close>
  | InvalidBlobSize          \<comment> \<open>Invalid blob size given!\<close>
  | UnknownVariantTag        \<comment> \<open>Unknown variant tag\<close>
  | WrongTransactionVersion  \<comment> \<open>Wrong transaction version\<close>
  | SignaturesSize           \<comment> \<open>Serialization error: unexpected signatures size\<close>
  | SignaturesNotExpected    \<comment> \<open>Serialization error: signatures are not expected\<close>
  | WrongMajorVersion        \<comment> \<open>Wrong major version\<close>
  | TransactionHashError     \<comment> \<open>Get transaction hash error\<close>
  | WrongTransactionsNumber  \<comment> \<open>Wrong transactions number\<close>
  | WrongBranchSize          \<comment> \<open>Wrong miner transaction branch size\<close>
  | NoMergeMiningTag         \<comment> \<open>Can't get extra merge mining tag\<close>
  | WrongTagDepth            \<comment> \<open>Wrong merge mining tag depth\<close>
  | BlockchainBranchSize     \<comment> \<open>Blockchain branch size must be equal to merge mining tag depth\<close>
  | UnpackFailed             \<comment> \<open>failed to unpack type\<close>

type_synonym 'a reader = "bytes \<Rightarrow> ser_error + ('a \<times> bytes)"

definition return_r :: "'a \<Rightarrow> 'a reader" where
  "return_r x bs = Inr (x, bs)"

definition fail_r :: "ser_error \<Rightarrow> 'a reader" where
  "fail_r e bs = Inl e"

definition bind_r :: "'a reader \<Rightarrow> ('a \<Rightarrow> 'b reader) \<Rightarrow> 'b reader" where
  "bind_r m f bs = (case m bs of Inl e \<Rightarrow> Inl e | Inr (x, rest) \<Rightarrow> f x rest)"

section \<open>Reading and writing raw bytes\<close>

text \<open>\<open>MemoryInputStream::readSome\<close>: the bytes copied and the stream after them.\<close>

definition readSome :: "nat \<Rightarrow> bytes \<Rightarrow> bytes \<times> bytes" where
  "readSome sz bs = (let readSize = min sz (length bs) in (take readSize bs, drop readSize bs))"

definition endOfStream :: "bytes \<Rightarrow> bool" where
  "endOfStream bs \<longleftrightarrow> bs = []"

function read_bytes :: "nat \<Rightarrow> bytes reader" where
  "read_bytes sz bs =
     (if 0 < sz
      then let (data, bs') = readSome sz bs
           in if data = [] then Inl ReadFailed
              else case read_bytes (sz - length data) bs' of
                     Inl e \<Rightarrow> Inl e
                   | Inr (more, rest) \<Rightarrow> Inr (data @ more, rest)
      else Inr ([], bs))"
  by pat_completeness auto
termination
  by (relation "measure fst") (auto simp: readSome_def Let_def)

declare read_bytes.simps [simp del]

text \<open>The bytes of a \<open>n\<close> byte integer in memory on the little endian target.\<close>

fun le_bytes :: "nat \<Rightarrow> 'w::len word \<Rightarrow> bytes" where
  "le_bytes 0 w = []"
| "le_bytes (Suc n) w = ucast w # le_bytes n (drop_bit 8 w)"

fun of_le_bytes :: "bytes \<Rightarrow> 'w::len word" where
  "of_le_bytes [] = 0"
| "of_le_bytes (b # bs) = ucast b OR push_bit 8 (of_le_bytes bs)"

text \<open>\<open>read(IInputStream&, T&)\<close> and \<open>write(IOutputStream&, T)\<close> of an integer type.\<close>

definition read_int :: "'w::len word reader" where
  "read_int = bind_r (read_bytes (LENGTH('w) div 8)) (\<lambda>bs. return_r (of_le_bytes bs))"

definition write_int :: "'w::len word \<Rightarrow> bytes" where
  "write_int w = le_bytes (LENGTH('w) div 8) w"

section \<open>Variable length integers\<close>

text \<open>
  The four overloads of \<open>readVarint\<close> differ only in the width of the value; they
  are one definition at the types \<open>u8\<close>, \<open>u16\<close>, \<open>u32\<close> and \<open>u64\<close>.
\<close>

fun readVarint_loop :: "nat \<Rightarrow> 'w::len word \<Rightarrow> 'w word reader" where
  "readVarint_loop shift temp [] = Inl ReadFailed"
| "readVarint_loop shift temp (piece # bs) =
     (if LENGTH('w) - 7 \<le> shift \<and> 2 ^ (LENGTH('w) - shift) \<le> unat piece
      then Inl VarintOverflow
      else let temp = temp OR push_bit shift (ucast (piece AND 0x7f))
           in if piece AND 0x80 = 0
              then if piece = 0 \<and> shift \<noteq> 0 then Inl VarintRepresentation
                   else Inr (temp, bs)
              else readVarint_loop (shift + 7) temp bs)"

definition readVarint :: "'w::len word reader" where
  "readVarint = readVarint_loop 0 0"

function writeVarint :: "u64 \<Rightarrow> bytes" where
  "writeVarint v =
     (if 0x80 \<le> v then ucast (v OR 0x80) # writeVarint (drop_bit 7 v) else [ucast v])"
  by pat_completeness auto
termination
proof (relation "measure unat")
  fix v :: u64
  assume "0x80 \<le> v"
  then have "0 < unat v" by (simp add: word_le_nat_alt)
  then show "(drop_bit 7 v, v) \<in> measure unat"
    by (simp only: in_measure unat_drop_bit_div) simp
qed simp

declare writeVarint.simps [simp del]

section \<open>The binary serializers\<close>

definition read_bool :: "bool reader" where
  "read_bool = bind_r read_int (\<lambda>b :: u8. return_r (b \<noteq> 0))"

definition write_bool :: "bool \<Rightarrow> bytes" where
  "write_bool v = write_int (if v then 1 else 0 :: u8)"

definition MAX_EXTRA_SIZE :: nat where
  "MAX_EXTRA_SIZE = 2200"

definition read_string :: "string \<Rightarrow> bytes reader" where
  "read_string name =
     bind_r readVarint (\<lambda>sz :: u64.
       if MAX_EXTRA_SIZE < unat sz \<and> name = ''mm_tag''
       then bind_r (read_bytes (unat sz)) (\<lambda>_. return_r [])
       else if 0 < sz then read_bytes (unat sz)
       else return_r [])"

definition write_string :: "bytes \<Rightarrow> bytes" where
  "write_string value = writeVarint (of_nat (length value)) @ value"

text \<open>
  \<open>serializeAsBinary\<close>: a vector of plain data of \<open>sz\<close> bytes each is
  the string of their bytes.
\<close>

definition pod_chunks :: "nat \<Rightarrow> bytes \<Rightarrow> bytes list" where
  "pod_chunks sz blob = map (\<lambda>i. take sz (drop (i * sz) blob)) [0..<length blob div sz]"

definition readAsBinary :: "nat \<Rightarrow> (bytes \<Rightarrow> 'a) \<Rightarrow> string \<Rightarrow> 'a list reader" where
  "readAsBinary sz of_pod name =
     bind_r (read_string name) (\<lambda>blob.
       if length blob mod sz \<noteq> 0 then fail_r InvalidBlobSize
       else return_r (map of_pod (pod_chunks sz blob)))"

definition writeAsBinary :: "('a \<Rightarrow> bytes) \<Rightarrow> 'a list \<Rightarrow> bytes" where
  "writeAsBinary pod xs = write_string (concat (map pod xs))"

fun read_many :: "'a reader \<Rightarrow> nat \<Rightarrow> 'a list reader" where
  "read_many dec 0 = return_r []"
| "read_many dec (Suc n) = bind_r dec (\<lambda>x. bind_r (read_many dec n) (\<lambda>xs. return_r (x # xs)))"

text \<open>\<open>serializeContainer\<close> in its two directions.\<close>

definition readContainer :: "'a reader \<Rightarrow> 'a list reader" where
  "readContainer dec = bind_r readVarint (\<lambda>sz :: u64. read_many dec (unat sz))"

definition writeContainer :: "('a \<Rightarrow> bytes) \<Rightarrow> 'a list \<Rightarrow> bytes" where
  "writeContainer enc xs = writeVarint (of_nat (length xs)) @ concat (map enc xs)"

section \<open>Readers\<close>

lemma return_r_eq [reader_simps]: "return_r x bs = Inr (x, bs)"
  by (simp add: return_r_def)

lemma fail_r_eq [reader_simps]: "fail_r e bs = Inl e"
  by (simp add: fail_r_def)

lemma bind_r_Inr_iff:
  "bind_r m f bs = Inr (y, rest) \<longleftrightarrow> (\<exists>x mid. m bs = Inr (x, mid) \<and> f x mid = Inr (y, rest))"
  by (auto simp: bind_r_def split: sum.splits)

lemma bind_r_Inr [reader_simps]: "m bs = Inr (x, mid) \<Longrightarrow> bind_r m f bs = f x mid"
  by (simp add: bind_r_def)

lemma bind_r_Inl: "m bs = Inl e \<Longrightarrow> bind_r m f bs = Inl e"
  by (simp add: bind_r_def)

lemma bind_r_assoc: "bind_r (bind_r m f) g = bind_r m (\<lambda>x. bind_r (f x) g)"
  by (rule ext) (simp add: bind_r_def split: sum.splits prod.splits)

lemma bind_r_return: "bind_r m return_r = m"
  by (rule ext) (simp add: bind_r_def return_r_def split: sum.splits)

text \<open>The loop in \<open>read\<close> ends with all bytes or with the exception.\<close>

lemma read_bytes_eq [reader_simps]:
  "read_bytes n bs = (if n \<le> length bs then Inr (take n bs, drop n bs) else Inl ReadFailed)"
proof (cases "n = 0")
  case True
  then show ?thesis by (subst read_bytes.simps) simp
next
  case n: False
  show ?thesis
  proof (cases "n \<le> length bs")
    case True
    moreover have "read_bytes 0 (drop n bs) = Inr ([], drop n bs)"
      by (subst read_bytes.simps) simp
    moreover have "bs \<noteq> []" using n True by auto
    ultimately show ?thesis using n
      by (subst read_bytes.simps) (simp add: readSome_def min_absorb1)
  next
    case False
    then have "read_bytes (n - length bs) [] = Inl ReadFailed"
      by (subst read_bytes.simps) (simp add: readSome_def)
    with False n show ?thesis
      by (subst read_bytes.simps) (auto simp: readSome_def min_absorb2)
  qed
qed

lemma read_many_append_one:
  "read_many dec n bs = Inr (xs, rest) \<Longrightarrow> length xs = n"
  by (induction n arbitrary: bs xs) (auto simp: bind_r_Inr_iff return_r_def)

section \<open>Fixed width integers\<close>

lemma length_le_bytes [simp]: "length (le_bytes n w) = n"
  by (induction n w rule: le_bytes.induct) simp_all

lemma of_le_bytes_le_bytes: "of_le_bytes (le_bytes n w) = take_bit (8 * n) (w :: 'w::len word)"
proof (induction n arbitrary: w)
  case (Suc n)
  have "ucast (ucast w :: u8) OR push_bit 8 (take_bit (8 * n) (drop_bit 8 w)) = take_bit (8 * Suc n) w"
    by (rule bit_word_eqI) (auto simp: bit_simps not_le)
  with Suc show ?case by simp
qed simp

lemma le_bytes_of_le_bytes:
  "8 * length bs \<le> LENGTH('w) \<Longrightarrow> le_bytes (length bs) (of_le_bytes bs :: 'w::len word) = bs"
proof (induction bs)
  case (Cons b bs)
  let ?r = "of_le_bytes bs :: 'w word"
  have "ucast (ucast b OR push_bit 8 ?r) = b"
    using Cons.prems by (intro bit_word_eqI) (auto simp: bit_simps)
  moreover have hi: "take_bit (8 * length bs) ?r = ?r"
    using Cons by (metis Cons_eq_appendI add_leD2 length_Cons mult_Suc_right of_le_bytes_le_bytes)
  have "drop_bit 8 (ucast b OR push_bit 8 ?r) = ?r"
  proof (rule bit_word_eqI)
    fix n assume "n < LENGTH('w)"
    have "bit ?r n \<Longrightarrow> n < 8 * length bs"
      by (subst (asm) hi [symmetric]) (simp add: bit_simps)
    then show "bit (drop_bit 8 (ucast b OR push_bit 8 ?r)) n = bit ?r n"
      using Cons.prems by (auto simp: bit_simps dest: bit_imp_le_length)
  qed
  ultimately show ?case using Cons by simp
qed simp

section \<open>Variable length integers\<close>

lemma u8_low_iff: "piece AND 0x80 = 0 \<longleftrightarrow> unat (piece :: u8) < 128"
proof -
  have "piece AND 0x80 = 0 \<longleftrightarrow> take_bit 7 piece = piece"
  proof
    assume a: "piece AND 0x80 = 0"
    have "\<not> bit piece 7" using and_exp_eq_0_iff_not_bit [of piece 7] a by simp
    then show "take_bit 7 piece = piece"
      by (intro bit_word_eqI) (auto simp: bit_simps less_Suc_eq numeral_eq_Suc)
  next
    assume t: "take_bit 7 piece = piece"
    have "\<not> bit piece 7" by (subst t [symmetric]) (simp add: bit_simps)
    then show "piece AND 0x80 = 0" using and_exp_eq_0_iff_not_bit [of piece 7] by simp
  qed
  also have "\<dots> \<longleftrightarrow> unat piece < 128"
    by (simp add: word_unat_eq_iff unsigned_take_bit_eq take_bit_nat_eq_self_iff)
  finally show ?thesis .
qed

lemma u8_and_7f: "piece AND 0x7f = take_bit 7 (piece :: u8)"
  by (simp add: take_bit_eq_mask mask_numeral)

lemma or_80: "v OR 0x80 = set_bit 7 (v :: u64)"
  by (simp add: set_bit_eq_or)

lemma piece_cont:
  "(ucast (v OR 0x80) :: u8) AND 0x80 \<noteq> 0"
  "(ucast ((v :: u64) OR 0x80) :: u8) AND 0x7f = take_bit 7 (ucast v)"
proof -
  show "(ucast (v OR 0x80) :: u8) AND 0x80 \<noteq> 0"
    using and_exp_eq_0_iff_not_bit [of "ucast (v OR 0x80) :: u8" 7]
    unfolding or_80 by (simp add: bit_simps)
  show "(ucast (v OR 0x80) :: u8) AND 0x7f = take_bit 7 (ucast v)"
    unfolding u8_and_7f or_80 by (rule bit_word_eqI) (auto simp: bit_simps)
qed

lemma push_seven_bits:
  "push_bit s (ucast (take_bit 7 (ucast v :: u8))) OR push_bit (s + 7) (ucast (drop_bit 7 v)) =
   (push_bit s (ucast (v :: u64)) :: 'w::len word)"
proof (rule bit_word_eqI)
  fix n assume "n < LENGTH('w)"
  show "bit (push_bit s (ucast (take_bit 7 (ucast v :: u8))) OR
      push_bit (s + 7) (ucast (drop_bit 7 v)) :: 'w word) n = bit (push_bit s (ucast v) :: 'w word) n"
  proof (cases "s + 7 \<le> n")
    case True
    then have "7 + (n - (s + 7)) = n - s" by simp
    then show ?thesis using True by (auto simp: bit_simps)
  qed (auto simp: bit_simps)
qed

text \<open>
  The loop of the reader over the output of the writer: every iteration takes seven bits of
  \<open>v\<close>, and no iteration throws when the value fits in what is left of the word.
\<close>

lemma readVarint_loop_writeVarint:
  fixes temp :: "'w::len word"
  assumes "8 \<le> LENGTH('w)" "shift < LENGTH('w)" "unat v < 2 ^ (LENGTH('w) - shift)"
    "shift = 0 \<or> v \<noteq> 0"
  shows "readVarint_loop shift temp (writeVarint v @ rest) =
    Inr (temp OR push_bit shift (ucast v), rest)"
  using assms(2-)
proof (induction v arbitrary: shift temp rule: writeVarint.induct)
  case (1 v)
  show ?case
  proof (cases "0x80 \<le> v")
    case True
    then have v: "128 \<le> unat v" by (simp add: word_le_nat_alt)
    have s: "7 < LENGTH('w) - shift"
    proof (rule ccontr)
      assume "\<not> 7 < LENGTH('w) - shift"
      then have "(2::nat) ^ (LENGTH('w) - shift) \<le> 2 ^ 7" by (intro power_increasing) auto
      with 1(3) v show False by simp
    qed
    have lt: "unat (drop_bit 7 v) < 2 ^ (LENGTH('w) - (shift + 7))"
    proof -
      have "LENGTH('w) - shift = (LENGTH('w) - (shift + 7)) + 7" using s by simp
      with 1(3) have "unat v < 2 ^ (LENGTH('w) - (shift + 7)) * 2 ^ 7" by (simp only: power_add)
      then show ?thesis by (simp only: unat_drop_bit_div less_mult_imp_div_less)
    qed
    have nz: "drop_bit 7 v \<noteq> 0"
      using v by (simp only: word_unat_eq_iff unat_drop_bit_div) (simp add: div_eq_0_iff)
    have "\<not> LENGTH('w) - 7 \<le> shift" "shift + 7 < LENGTH('w)" using s by arith+
    then show ?thesis
      using 1(1) [OF True _ lt, of "temp OR push_bit shift (ucast (take_bit 7 (ucast v :: u8)))"]
        nz True
      by (subst writeVarint.simps) (simp add: or.assoc push_seven_bits piece_cont)
  next
    case False
    then have v: "unat v < 128" by (simp add: word_le_nat_alt)
    then have u: "unat (ucast v :: u8) = unat v"
      by (simp add: unsigned_ucast_eq take_bit_nat_eq_self)
    have "ucast v AND 0x80 = (0 :: u8)" using u v by (simp add: u8_low_iff)
    moreover have "ucast (ucast v AND 0x7f :: u8) = (ucast v :: 'w word)"
    proof -
      have "take_bit 7 v = v" using v by (intro take_bit_word_self) simp
      then have "ucast v = (ucast (take_bit 7 v) :: 'w word)" by simp
      also have "\<dots> = ucast (ucast v AND 0x7f :: u8)"
        unfolding u8_and_7f by (rule bit_word_eqI) (auto simp: bit_simps)
      finally show ?thesis ..
    qed
    moreover have "(ucast v :: u8) = 0 \<longleftrightarrow> v = 0"
      by (simp add: word_unat_eq_iff u)
    ultimately show ?thesis using 1(3,4) False u
      by (subst writeVarint.simps) auto
  qed
qed

lemma writeVarint_small: "unat w < 128 \<Longrightarrow> writeVarint w = [ucast w]"
  by (subst writeVarint.simps) (simp add: word_le_nat_alt)

lemma ucast_ucast_u8 [simp]: "ucast (ucast (piece :: u8) :: u64) = (ucast piece :: 'w::len word)"
  by (rule bit_word_eqI) (auto simp: bit_simps dest: bit_imp_le_length)

text \<open>The word whose seven low bits come from \<open>piece\<close> and the others from \<open>v\<close>.\<close>

lemma join_seven_bits:
  fixes piece :: u8 and v :: u64
  assumes "\<not> piece AND 0x80 = 0" "unat v < 2 ^ n" "n + 7 \<le> 64"
  defines "w \<equiv> push_bit 7 v OR ucast (take_bit 7 piece)"
  shows "drop_bit 7 w = v" "ucast (w OR 0x80) = piece" "take_bit 7 (ucast w) = take_bit 7 piece"
    "unat w < 2 ^ (n + 7)" "v \<noteq> 0 \<Longrightarrow> 0x80 \<le> w"
proof -
  have v: "take_bit n v = v" using assms(2) by (rule take_bit_word_self)
  have vn: "m < n" if "bit v m" for m using that by (subst (asm) v [symmetric]) (simp add: bit_simps)
  have p7: "bit piece 7"
    using assms(1) and_exp_eq_0_iff_not_bit [of piece 7] by simp
  show 1: "drop_bit 7 w = v"
    unfolding w_def using vn assms(3)
    by (intro bit_word_eqI) (fastforce simp: bit_simps)
  show "ucast (w OR 0x80) = piece"
  proof (rule bit_word_eqI)
    fix m assume "m < LENGTH(8)"
    then have "m = 7 \<or> m < 7" by auto
    then show "bit (ucast (w OR 0x80) :: u8) m = bit piece m"
      unfolding w_def or_80 using p7 by (auto simp: bit_simps)
  qed
  show "take_bit 7 (ucast w) = take_bit 7 piece"
    unfolding w_def by (rule bit_word_eqI) (auto simp: bit_simps)
  have "take_bit (n + 7) w = w"
    unfolding w_def using vn by (intro bit_word_eqI) (fastforce simp: bit_simps)
  then show "unat w < 2 ^ (n + 7)"
    by (metis take_bit_nat_less_exp unsigned_take_bit_eq)
  assume "v \<noteq> 0"
  then have "0 < unat v" by (simp add: unat_gt_0)
  with 1 have "0 < unat w div 2 ^ 7" by (simp only: flip: unat_drop_bit_div)
  then show "0x80 \<le> w" by (simp add: word_le_nat_alt div_greater_zero_iff)
qed

lemma readVarint_loop_canonical:
  fixes temp :: "'w::len word"
  assumes "8 \<le> LENGTH('w)" "LENGTH('w) \<le> 64" "shift < LENGTH('w)"
    "readVarint_loop shift temp bs = Inr (x, rest)"
  shows "\<exists>v. bs = writeVarint v @ rest \<and> x = temp OR push_bit shift (ucast v) \<and>
    unat v < 2 ^ (LENGTH('w) - shift) \<and> (shift = 0 \<or> v \<noteq> 0)"
  using assms(3-)
proof (induction bs arbitrary: shift temp)
  case (Cons piece bs)
  let ?v = "ucast piece :: u64"
  have u: "unat ?v = unat piece" by (simp add: unat_ucast_up)
  have fits: "shift < LENGTH('w) - 7 \<or> unat piece < 2 ^ (LENGTH('w) - shift)"
    using Cons.prems(2) by (auto simp: not_le split: if_splits)
  show ?case
  proof (cases "piece AND 0x80 = 0")
    case True
    then have lt: "unat piece < 128" by (simp add: u8_low_iff)
    have "unat piece < 2 ^ (LENGTH('w) - shift)"
    proof (cases "shift < LENGTH('w) - 7")
      case True
      then have "(2::nat) ^ 7 \<le> 2 ^ (LENGTH('w) - shift)" by (intro power_increasing) auto
      with lt show ?thesis by simp
    qed (use fits in blast)
    moreover have "x = temp OR push_bit shift (ucast ?v) \<and> bs = rest \<and> (shift = 0 \<or> piece \<noteq> 0)"
      using Cons.prems True
      by (auto simp: u8_and_7f Let_def take_bit_word_self lt split: if_splits)
    moreover have "writeVarint ?v = [piece]"
      using lt u by (subst writeVarint.simps) (simp add: word_le_nat_alt)
    ultimately show ?thesis using u by (intro exI [of _ ?v]) (auto simp: word_unat_eq_iff)
  next
    case False
    then have ge: "128 \<le> unat piece" by (simp add: u8_low_iff)
    have s: "shift + 7 < LENGTH('w)"
    proof (rule ccontr)
      assume "\<not> shift + 7 < LENGTH('w)"
      then have "(2::nat) ^ (LENGTH('w) - shift) \<le> 2 ^ 7" by (intro power_increasing) auto
      with fits ge \<open>\<not> shift + 7 < LENGTH('w)\<close> show False by simp
    qed
    then have "readVarint_loop (shift + 7) (temp OR push_bit shift (ucast (piece AND 0x7f))) bs
        = Inr (x, rest)"
      using Cons.prems(2) False by (auto simp: Let_def split: if_splits)
    from Cons.IH [OF s this] obtain v where v: "bs = writeVarint v @ rest"
      "x = (temp OR push_bit shift (ucast (piece AND 0x7f))) OR push_bit (shift + 7) (ucast v)"
      "unat v < 2 ^ (LENGTH('w) - (shift + 7))" "v \<noteq> 0"
      by auto
    let ?w = "push_bit 7 v OR ucast (take_bit 7 piece)"
    have "LENGTH('w) - (shift + 7) + 7 = LENGTH('w) - shift" using s by simp
    note w = join_seven_bits [OF False v(3), unfolded this]
    have w64: "LENGTH('w) - shift \<le> 64" using assms(2) by simp
    have "0x80 \<le> ?w" using w(5) [OF w64 v(4)] .
    then have "piece # bs = writeVarint ?w @ rest"
      using v(1) w(1,2) [OF w64] by (subst writeVarint.simps) simp
    moreover have "x = temp OR push_bit shift (ucast ?w)"
      using push_seven_bits [of shift ?w, where ?'w = 'w, unfolded w(1,3) [OF w64]] v(2)
      by (simp only: u8_and_7f or.assoc)
    moreover have "?w \<noteq> 0" using \<open>0x80 \<le> ?w\<close> by auto
    ultimately show ?thesis using w(4) [OF w64] by blast
  qed
qed simp

section \<open>The contract of a writer and a reader\<close>

locale codec =
  fixes enc :: "'a \<Rightarrow> bytes"
    and dec :: "'a reader"
    and valid :: "'a \<Rightarrow> bool"
  assumes roundtrip: "valid x \<Longrightarrow> dec (enc x @ rest) = Inr (x, rest)"
begin

lemma roundtrip_end: "valid x \<Longrightarrow> dec (enc x) = Inr (x, [])"
  using roundtrip [of x "[]"] by simp

lemma enc_prefix_free:
  "valid x \<Longrightarrow> valid y \<Longrightarrow> enc x @ r = enc y @ r' \<Longrightarrow> x = y \<and> r = r'"
proof -
  assume "valid x" "valid y" "enc x @ r = enc y @ r'"
  then have "Inr (x, r) = (Inr (y, r') :: ser_error + _)"
    using roundtrip [of x r] roundtrip [of y r'] by (simp only:)
  then show ?thesis by simp
qed

lemma bind_enc: "valid x \<Longrightarrow> bind_r dec f (enc x @ rest) = f x rest"
  by (simp add: bind_r_def roundtrip)

lemma read_many_roundtrip:
  "\<forall>x \<in> set xs. valid x \<Longrightarrow> read_many dec (length xs) (concat (map enc xs) @ rest) = Inr (xs, rest)"
  by (induction xs) (simp_all add: bind_enc reader_simps)

end

locale canonical_codec = codec +
  assumes canonical: "dec bs = Inr (x, rest) \<Longrightarrow> valid x \<and> bs = enc x @ rest"
begin

lemma dec_iff: "dec bs = Inr (x, rest) \<longleftrightarrow> valid x \<and> bs = enc x @ rest"
  using roundtrip canonical by blast

lemma one_encoding: "dec bs = Inr (x, []) \<Longrightarrow> dec bs' = Inr (x, []) \<Longrightarrow> bs = bs'"
  using canonical [of bs x "[]"] canonical [of bs' x "[]"] by simp

lemma read_many_canonical:
  "read_many dec n bs = Inr (xs, rest) \<Longrightarrow>
   length xs = n \<and> (\<forall>x \<in> set xs. valid x) \<and> bs = concat (map enc xs) @ rest"
proof (induction n arbitrary: bs xs)
  case (Suc n)
  then obtain x mid ys where "dec bs = Inr (x, mid)" "read_many dec n mid = Inr (ys, rest)" "xs = x # ys"
    by (auto simp: bind_r_Inr_iff reader_simps)
  with Suc.IH [of mid ys] canonical [of bs x mid] show ?case by simp
qed (simp add: reader_simps)

end

section \<open>The codecs of the base types\<close>

lemma readVarint_writeVarint:
  assumes "8 \<le> LENGTH('w)" "LENGTH('w) \<le> 64"
  shows "readVarint (writeVarint (ucast (x :: 'w::len word)) @ rest) = Inr (x, rest)"
proof -
  have u: "unat (ucast x :: u64) = unat x" using assms(2) by (simp add: unat_ucast_up)
  then have "(ucast (ucast x :: u64) :: 'w word) = x"
    by (simp add: word_unat_eq_iff unsigned_ucast_eq [of "ucast x :: u64"] take_bit_nat_eq_self
        unsigned_less)
  then show ?thesis
    using readVarint_loop_writeVarint [OF assms(1), of 0 "ucast x" 0 rest] u unsigned_less [of x]
    by (simp add: readVarint_def)
qed

lemma readVarint_canonical:
  assumes "8 \<le> LENGTH('w)" "LENGTH('w) \<le> 64"
    and "readVarint bs = Inr (x :: 'w::len word, rest)"
  shows "bs = writeVarint (ucast x) @ rest"
proof -
  obtain v where v: "bs = writeVarint v @ rest" "x = ucast v" "unat v < 2 ^ LENGTH('w)"
    using readVarint_loop_canonical [OF assms(1,2), of 0 0 bs x rest] assms(3)
    by (auto simp: readVarint_def)
  then have "unat (ucast x :: u64) = unat v"
    using assms(2) by (simp add: unat_ucast_up unsigned_ucast_eq take_bit_word_self)
  then have "ucast x = v" by (simp add: word_unat_eq_iff)
  then show ?thesis using v(1) by simp
qed

interpretation varint64: canonical_codec "writeVarint" "readVarint" "\<lambda>x :: u64. True"
  using readVarint_writeVarint [where ?'w = 64] readVarint_canonical [where ?'w = 64]
  by unfold_locales simp_all

interpretation varint32: canonical_codec "\<lambda>x :: u32. writeVarint (ucast x)" "readVarint" "\<lambda>x. True"
  using readVarint_writeVarint [where ?'w = 32] readVarint_canonical [where ?'w = 32]
  by unfold_locales simp_all

interpretation varint16: canonical_codec "\<lambda>x :: u16. writeVarint (ucast x)" "readVarint" "\<lambda>x. True"
  using readVarint_writeVarint [where ?'w = 16] readVarint_canonical [where ?'w = 16]
  by unfold_locales simp_all

interpretation varint8: canonical_codec "\<lambda>x :: u8. writeVarint (ucast x)" "readVarint" "\<lambda>x. True"
  using readVarint_writeVarint [where ?'w = 8] readVarint_canonical [where ?'w = 8]
  by unfold_locales simp_all

interpretation fixed_bytes: canonical_codec "\<lambda>x. x" "read_bytes n" "\<lambda>x. length x = n" for n
  by unfold_locales (auto simp: read_bytes_eq split: if_splits)

lemma read_int_write_int:
  assumes "8 dvd LENGTH('w)"
  shows "read_int (write_int x @ rest) = Inr (x :: 'w::len word, rest)"
  using assms by (simp add: read_int_def write_int_def reader_simps of_le_bytes_le_bytes)

lemma read_int_canonical:
  assumes "8 dvd LENGTH('w)" "read_int bs = Inr (x :: 'w::len word, rest)"
  shows "bs = write_int x @ rest"
proof -
  define ys where "ys = take (LENGTH('w) div 8) bs"
  have "length ys = LENGTH('w) div 8 \<and> bs = ys @ rest \<and> x = of_le_bytes ys"
    using assms(2) by (auto simp: ys_def read_int_def bind_r_Inr_iff reader_simps split: if_splits)
  then show ?thesis
    using assms(1) le_bytes_of_le_bytes [of ys, where ?'w = 'w] by (simp add: write_int_def)
qed

interpretation int8: canonical_codec "write_int" "read_int" "\<lambda>x :: u8. True"
  using read_int_write_int [where ?'w = 8] read_int_canonical [where ?'w = 8] by unfold_locales simp_all

interpretation int32: canonical_codec "write_int" "read_int" "\<lambda>x :: u32. True"
  using read_int_write_int [where ?'w = 32] read_int_canonical [where ?'w = 32] by unfold_locales simp_all

interpretation bool_codec: codec write_bool read_bool "\<lambda>x. True"
  by unfold_locales (simp add: write_bool_def read_bool_def int8.bind_enc reader_simps)

interpretation string_codec: codec write_string "read_string name"
  "\<lambda>x. length x < 2 ^ 64 \<and> (name = ''mm_tag'' \<longrightarrow> length x \<le> MAX_EXTRA_SIZE)" for name
proof unfold_locales
  fix x rest :: bytes
  assume v: "length x < 2 ^ 64 \<and> (name = ''mm_tag'' \<longrightarrow> length x \<le> MAX_EXTRA_SIZE)"
  then have "unat (of_nat (length x) :: u64) = length x" by (simp only: unat_of_nat_u64)
  with v show "read_string name (write_string x @ rest) = Inr (x, rest)"
    by (auto simp: write_string_def read_string_def varint64.bind_enc reader_simps word_less_nat_alt)
qed

lemma read_string_canonical:
  assumes "name \<noteq> ''mm_tag''" "read_string name bs = Inr (x, rest)"
  shows "length x < 2 ^ 64 \<and> bs = write_string x @ rest"
proof -
  have "read_string name = bind_r readVarint (\<lambda>sz :: u64. read_bytes (unat sz))"
    using assms(1) by (intro ext) (auto simp: read_string_def bind_r_def read_bytes_eq word_gt_0
        return_r_def split: sum.splits)
  then obtain n :: u64 and mid where n: "bs = writeVarint n @ mid" "read_bytes (unat n) mid = Inr (x, rest)"
    using assms(2) by (auto simp: bind_r_Inr_iff varint64.dec_iff)
  then have "length x = unat n" "mid = x @ rest" by (auto simp: fixed_bytes.dec_iff)
  then show ?thesis using n(1) by (simp add: write_string_def)
qed

lemma pod_chunks_concat:
  assumes "0 < sz" "\<And>x. length (pod x) = sz"
  shows "pod_chunks sz (concat (map pod xs)) = map pod xs"
proof (induction xs)
  case (Cons x xs)
  have "length (concat (map pod xs)) = sz * length xs" for xs
    using assms(2) by (induction xs) simp_all
  then have d: "length (concat (map pod xs)) div sz = length xs" for xs using assms(1) by simp
  show ?case using Cons assms
    unfolding pod_chunks_def d by (simp add: upt_conv_Cons map_Suc_upt [symmetric] comp_def del: upt_Suc)
qed (simp add: pod_chunks_def)

lemma readAsBinary_roundtrip:
  assumes "0 < sz" "\<And>x. length (pod x) = sz" "\<And>x. of_pod (pod x) = x" "sz * length xs < 2 ^ 64"
    "name \<noteq> ''mm_tag''"
  shows "readAsBinary sz of_pod name (writeAsBinary pod xs @ rest) = Inr (xs, rest)"
proof -
  have "length (concat (map pod xs)) = sz * length xs"
    using assms(2) by (induction xs) simp_all
  then show ?thesis using assms
    by (simp add: readAsBinary_def writeAsBinary_def string_codec.bind_enc reader_simps
        pod_chunks_concat comp_def)
qed

text \<open>A container of values with a codec is read back as written, and only from what is written.\<close>

context codec
begin

lemma container_roundtrip:
  assumes "length xs < 2 ^ 64" "\<forall>x \<in> set xs. valid x"
  shows "readContainer dec (writeContainer enc xs @ rest) = Inr (xs, rest)"
  using assms read_many_roundtrip
  by (simp add: readContainer_def writeContainer_def varint64.bind_enc unat_of_nat)

lemma container_bind:
  assumes "length xs < 2 ^ 64" "\<forall>x \<in> set xs. valid x"
  shows "bind_r (readContainer dec) f (writeContainer enc xs @ rest) = f xs rest"
  using container_roundtrip [OF assms] by (simp add: bind_r_def)

end

context canonical_codec
begin

lemma container_canonical:
  assumes "readContainer dec bs = Inr (xs, rest)"
  shows "length xs < 2 ^ 64 \<and> (\<forall>x \<in> set xs. valid x) \<and> bs = writeContainer enc xs @ rest"
proof -
  obtain n :: u64 and mid where n: "bs = writeVarint n @ mid" "read_many dec (unat n) mid = Inr (xs, rest)"
    using assms unfolding readContainer_def bind_r_Inr_iff varint64.dec_iff by blast
  with read_many_canonical [of "unat n" mid xs rest] have "length xs = unat n"
    "\<forall>x \<in> set xs. valid x" "mid = concat (map enc xs) @ rest" by auto
  with n(1) show ?thesis by (simp add: writeContainer_def)
qed

end

end
