(* ===== verification/Base58.thy ===== *)
theory Base58
  imports Int_Util Streams
begin

text \<open>
  The variable length integers of \<^verbatim>\<open>src/common/varint.h\<close> and the block-wise
  base 58 encoding of \<^verbatim>\<open>src/common/base58.cpp\<close>, with the addresses built on it.

  A function that reports failure by returning \<open>false\<close> returns \<open>None\<close>; a
  write outside the buffer it is given, which the code rules out by its block sizes, is
  \<open>None\<close> as well, and the lemmas show that it does not happen.
\<close>

unbundle bit_operations_syntax

section \<open>\<open>varint.h\<close>\<close>

function write_varint :: "u64 \<Rightarrow> bytes" where
  "write_varint i =
     (if 0x80 \<le> i then ((ucast i AND 0x7f) OR 0x80) # write_varint (drop_bit 7 i) else [ucast i])"
  by pat_completeness auto
termination
proof (relation "measure unat")
  fix v :: u64
  assume "0x80 \<le> v"
  then have "0 < unat v" by (simp add: word_le_nat_alt)
  then show "(drop_bit 7 v, v) \<in> measure unat"
    by (simp only: in_measure unat_drop_bit_div) simp
qed simp

declare write_varint.simps [simp del]

definition get_varint_data :: "u64 \<Rightarrow> bytes" where
  "get_varint_data v = write_varint v"

text \<open>The returned \<open>int\<close> and the value left in \<open>i\<close>.\<close>

fun read_varint_loop :: "nat \<Rightarrow> int \<Rightarrow> 'w::len word \<Rightarrow> bytes \<Rightarrow> int \<times> 'w word" where
  "read_varint_loop shift read i [] = (read, i)"
| "read_varint_loop shift read i (byte # bs) =
     (if LENGTH('w) \<le> shift + 7 \<and> 2 ^ (LENGTH('w) - shift) \<le> unat byte then (-1, i)
      else if byte = 0 \<and> shift \<noteq> 0 then (-2, i)
      else let i = i OR push_bit shift (ucast (byte AND 0x7f))
           in if byte AND 0x80 = 0 then (read + 1, i)
              else read_varint_loop (shift + 7) (read + 1) i bs)"

definition read_varint :: "bytes \<Rightarrow> int \<times> 'w::len word" where
  "read_varint = read_varint_loop 0 0 0"

section \<open>Tables\<close>

definition alphabet :: bytes where
  "alphabet = map of_char ''123456789ABCDEFGHJKLMNPQRSTUVWXYZabcdefghijkmnopqrstuvwxyz''"

definition alphabet_size :: nat where
  "alphabet_size = length alphabet"

definition encoded_block_sizes :: "nat list" where
  "encoded_block_sizes = [0, 2, 3, 5, 6, 7, 9, 10, 11]"

definition full_block_size :: nat where
  "full_block_size = length encoded_block_sizes - 1"

definition full_encoded_block_size :: nat where
  "full_encoded_block_size = encoded_block_sizes ! full_block_size"

definition addr_checksum_size :: nat where
  "addr_checksum_size = 4"

text \<open>The constructors of the two lookup tables.\<close>

definition reverse_alphabet_data :: "int list" where
  "reverse_alphabet_data =
     fold (\<lambda>i m_data. m_data[unat (alphabet ! i) - unat (alphabet ! 0) := int i])
       [0..<alphabet_size]
       (replicate (unat (alphabet ! (alphabet_size - 1)) - unat (alphabet ! 0) + 1) (-1))"

definition decoded_block_sizes_data :: "int list" where
  "decoded_block_sizes_data =
     fold (\<lambda>i m_data. m_data[encoded_block_sizes ! i := int i]) [0..<full_block_size + 1]
       (replicate (encoded_block_sizes ! full_block_size + 1) (-1))"

text \<open>
  \<open>char\<close> is signed; a letter below the first of the alphabet gives an index that is
  huge as an unsigned number.
\<close>

definition reverse_alphabet :: "u8 \<Rightarrow> int" where
  "reverse_alphabet letter =
     (let idx = sint letter - sint (alphabet ! 0)
      in if 0 \<le> idx \<and> idx < int (length reverse_alphabet_data)
         then reverse_alphabet_data ! nat idx else -1)"

definition decoded_block_sizes :: "nat \<Rightarrow> int option" where
  "decoded_block_sizes encoded_block_size =
     (if encoded_block_size < length decoded_block_sizes_data
      then Some (decoded_block_sizes_data ! encoded_block_size) else None)"

section \<open>Blocks\<close>

text \<open>
  The cases of the switch fall through, each shifting in one more byte; the first one does not
  shift, but \<open>res\<close> is zero there.
\<close>

definition uint_8be_to_64 :: "bytes \<Rightarrow> u64" where
  "uint_8be_to_64 data =
     (if 1 \<le> length data \<and> length data \<le> 8
      then foldl (\<lambda>res b. push_bit 8 res OR ucast b) 0 data else 0)"

definition uint_64_to_8be :: "u64 \<Rightarrow> nat \<Rightarrow> bytes" where
  "uint_64_to_8be num sz = take sz (drop (8 - sz) (le_bytes 8 (SWAP64 num)))"

function encode_block_loop :: "u64 \<Rightarrow> int \<Rightarrow> bytes \<Rightarrow> bytes option" where
  "encode_block_loop num i res =
     (if 0 < num
      then if 0 \<le> i \<and> i < int (length res)
           then encode_block_loop (num div of_nat alphabet_size) (i - 1)
                  (res[nat i := alphabet ! unat (num mod of_nat alphabet_size)])
           else None
      else Some res)"
  by pat_completeness auto
termination
  by (relation "measure (\<lambda>(num, i, res). nat (i + 1))") auto

declare encode_block_loop.simps [simp del]

text \<open>The part of the result string that \<open>res\<close> points to, filled with the first letter before.\<close>

definition encode_block :: "bytes \<Rightarrow> bytes option" where
  "encode_block block =
     (let sz = encoded_block_sizes ! length block
      in encode_block_loop (uint_8be_to_64 block) (int sz - 1) (replicate sz (alphabet ! 0)))"

text \<open>The loop runs from the last letter to the first; the list holds the letters in that order.\<close>

fun decode_block_loop :: "bytes \<Rightarrow> u64 \<Rightarrow> u64 \<Rightarrow> u64 option" where
  "decode_block_loop [] res_num order = Some res_num"
| "decode_block_loop (letter # letters) res_num order =
     (let digit = reverse_alphabet letter
      in if digit < 0 then None
         else let (product_hi, product_lo) = mul128 order (of_int digit);
                  tmp = res_num + product_lo
              in if tmp < res_num \<or> product_hi \<noteq> 0 then None
                 else decode_block_loop letters tmp (order * of_nat alphabet_size))"

definition decode_block :: "bytes \<Rightarrow> bytes option" where
  "decode_block block =
     do {
       res_size \<leftarrow> decoded_block_sizes (length block);
       if res_size \<le> 0 then None
       else do {
         res_num \<leftarrow> decode_block_loop (rev block) 0 1;
         if nat res_size < full_block_size \<and> push_bit (8 * nat res_size) 1 \<le> res_num then None
         else Some (uint_64_to_8be res_num (nat res_size))
       }
     }"

section \<open>Strings\<close>

definition base58_encode :: "bytes \<Rightarrow> bytes option" where
  "base58_encode data =
     (if data = [] then Some []
      else let full_block_count = length data div full_block_size;
               last_block_size = length data mod full_block_size
           in do {
                blocks \<leftarrow> those (map encode_block (pod_chunks full_block_size data));
                last_block \<leftarrow> (if 0 < last_block_size
                   then encode_block (drop (full_block_count * full_block_size) data) else Some []);
                Some (concat blocks @ last_block)
              })"

definition base58_decode :: "bytes \<Rightarrow> bytes option" where
  "base58_decode enc =
     (if enc = [] then Some []
      else let full_block_count = length enc div full_encoded_block_size;
               last_block_size = length enc mod full_encoded_block_size
           in do {
                last_block_decoded_size \<leftarrow> decoded_block_sizes last_block_size;
                if last_block_decoded_size < 0 then None
                else do {
                  blocks \<leftarrow> those (map decode_block (pod_chunks full_encoded_block_size enc));
                  last_block \<leftarrow> (if 0 < last_block_size
                     then decode_block (drop (full_block_count * full_encoded_block_size) enc)
                     else Some []);
                  Some (concat blocks @ last_block)
                }
              })"

section \<open>Addresses\<close>

text \<open>\<open>cn_fast_hash\<close> is a parameter: any function from byte strings to byte strings.\<close>

definition encode_addr :: "(bytes \<Rightarrow> bytes) \<Rightarrow> u64 \<Rightarrow> bytes \<Rightarrow> bytes option" where
  "encode_addr cn_fast_hash tag data =
     (let buf = get_varint_data tag @ data;
          hash = cn_fast_hash buf
      in base58_encode (buf @ take addr_checksum_size hash))"

definition decode_addr :: "(bytes \<Rightarrow> bytes) \<Rightarrow> bytes \<Rightarrow> (u64 \<times> bytes) option" where
  "decode_addr cn_fast_hash addr =
     do {
       addr_data \<leftarrow> base58_decode addr;
       if length addr_data \<le> addr_checksum_size then None
       else let n = length addr_data - addr_checksum_size;
                checksum = drop n addr_data;
                addr_data = take n addr_data;
                expected_checksum = take addr_checksum_size (cn_fast_hash addr_data)
            in if expected_checksum \<noteq> checksum then None
               else let (read, tag) = read_varint addr_data
                    in if read \<le> 0 then None
                       else Some (tag, drop (nat read) addr_data)
     }"

section \<open>The variable length integers are those of the streams\<close>

lemma and_7f_or_80: "((ucast (v :: u64) :: u8) AND 0x7f) OR 0x80 = ucast (v OR 0x80)"
proof (rule bit_word_eqI)
  fix n assume "n < LENGTH(8)"
  then have "n = 7 \<or> n < 7" by auto
  moreover have "(x :: u8) OR 0x80 = set_bit 7 x" for x by (simp add: set_bit_eq_or)
  ultimately show "bit ((ucast v AND 0x7f) OR 0x80 :: u8) n = bit (ucast (v OR 0x80) :: u8) n"
    unfolding u8_and_7f or_80 by (auto simp: bit_simps)
qed

lemma write_varint_eq: "write_varint v = writeVarint v"
  by (induction v rule: writeVarint.induct)
    (subst write_varint.simps, subst writeVarint.simps, simp add: and_7f_or_80)

text \<open>On complete input the iterator based reader is the stream reader; it counts what it read.\<close>

lemma read_varint_loop_Inr:
  fixes i :: "'w::len word"
  shows "readVarint_loop shift i bs = Inr (x, rest) \<Longrightarrow> 7 < LENGTH('w) \<Longrightarrow>
    read_varint_loop shift read i bs = (read + int (length bs - length rest), x) \<and>
    length rest < length bs"
proof (induction bs arbitrary: shift read i)
  case (Cons b bs)
  have e: "LENGTH('w) - 7 \<le> shift \<longleftrightarrow> LENGTH('w) \<le> shift + 7" by auto
  show ?case
  proof (cases "b AND 0x80 = 0")
    case True
    with Cons.prems show ?thesis by (auto simp: e Let_def split: if_splits)
  next
    case False
    then have "b \<noteq> 0" by auto
    with False Cons.prems
      Cons.IH [of "shift + 7" "i OR push_bit shift (ucast (b AND 0x7f))" "read + 1"]
    show ?thesis by (auto simp: e Let_def of_nat_diff split: if_splits)
  qed
qed simp

lemma read_varint_write_varint:
  "read_varint (write_varint v @ rest) = (int (length (write_varint v)), v :: u64)"
  using read_varint_loop_Inr [of 0 "0 :: u64" "writeVarint v @ rest" v rest 0]
    varint64.roundtrip [of v rest]
  by (simp add: read_varint_def readVarint_def write_varint_eq)

section \<open>The tables\<close>

lemma alphabet_eq:
  "alphabet =
    [49, 50, 51, 52, 53, 54, 55, 56, 57, 65, 66, 67, 68, 69, 70, 71, 72, 74, 75, 76, 77,
     78, 80, 81, 82, 83, 84, 85, 86, 87, 88, 89, 90, 97, 98, 99, 100, 101, 102, 103, 104,
     105, 106, 107, 109, 110, 111, 112, 113, 114, 115, 116, 117, 118, 119, 120, 121, 122]"
  by (simp add: alphabet_def)

lemma tables [simp]:
  "alphabet_size = 58" "full_block_size = 8" "full_encoded_block_size = 11" "length alphabet = 58"
  by (simp_all add: alphabet_size_def alphabet_eq full_block_size_def full_encoded_block_size_def
      encoded_block_sizes_def)

lemma reverse_alphabet_data_eq:
  "reverse_alphabet_data =
    [0, 1, 2, 3, 4, 5, 6, 7, 8, -1, -1, -1, -1, -1, -1, -1, 9, 10, 11, 12, 13, 14, 15, 16,
     -1, 17, 18, 19, 20, 21, -1, 22, 23, 24, 25, 26, 27, 28, 29, 30, 31, 32, -1, -1, -1,
     -1, -1, -1, 33, 34, 35, 36, 37, 38, 39, 40, 41, 42, 43, -1, 44, 45, 46, 47, 48, 49,
     50, 51, 52, 53, 54, 55, 56, 57]"
  by (simp add: reverse_alphabet_data_def alphabet_eq upt_rec) code_simp

lemma decoded_block_sizes_data_eq:
  "decoded_block_sizes_data = [0, -1, 1, 2, -1, 3, 4, 5, -1, 6, 7, 8]"
  by code_simp

text \<open>Every entry of one table is undone by the other one.\<close>

lemma table_entries:
  "list_all (\<lambda>d. 0 \<le> sint (alphabet ! d) - 49 \<and> sint (alphabet ! d) - 49 < 74 \<and>
     reverse_alphabet_data ! nat (sint (alphabet ! d) - 49) = int d) [0..<58]"
  "list_all (\<lambda>i. 0 \<le> reverse_alphabet_data ! i \<longrightarrow> reverse_alphabet_data ! i < 58 \<and>
     sint (alphabet ! nat (reverse_alphabet_data ! i)) - 49 = int i) [0..<74]"
  by (simp_all add: alphabet_eq reverse_alphabet_data_eq upt_rec)

lemma reverse_alphabet_simp:
  "reverse_alphabet c =
     (if 0 \<le> sint c - 49 \<and> sint c - 49 < 74 then reverse_alphabet_data ! nat (sint c - 49) else -1)"
proof -
  have "alphabet ! 0 = 49" "length reverse_alphabet_data = 74"
    by (simp_all add: alphabet_eq reverse_alphabet_data_eq)
  then show ?thesis by (simp add: reverse_alphabet_def Let_def)
qed

lemma reverse_alphabet_alphabet: "d < 58 \<Longrightarrow> reverse_alphabet (alphabet ! d) = int d"
  using table_entries(1) by (simp add: reverse_alphabet_simp list_all_iff)

lemma alphabet_reverse_alphabet:
  assumes "0 \<le> reverse_alphabet c"
  shows "reverse_alphabet c < 58 \<and> alphabet ! nat (reverse_alphabet c) = c"
proof -
  let ?i = "nat (sint c - 49)"
  have i: "?i < 74" "int ?i = sint c - 49" "reverse_alphabet c = reverse_alphabet_data ! ?i"
    using assms by (auto simp: reverse_alphabet_simp split: if_splits)
  with assms table_entries(2) have "reverse_alphabet c < 58"
    "sint (alphabet ! nat (reverse_alphabet c)) - 49 = int ?i"
    by (simp_all add: list_all_iff del: nat_eq_iff2)
  with i show ?thesis by (simp add: signed_word_eqI)
qed

lemma decoded_block_sizes_eq:
  "n \<le> 8 \<Longrightarrow> decoded_block_sizes (encoded_block_sizes ! n) = Some (int n)"
  "decoded_block_sizes m = Some r \<Longrightarrow> 0 \<le> r \<Longrightarrow> nat r \<le> 8 \<and> encoded_block_sizes ! nat r = m"
proof -
  have "list_all (\<lambda>n. decoded_block_sizes (encoded_block_sizes ! n) = Some (int n)) [0..<9]"
    by (simp add: decoded_block_sizes_def decoded_block_sizes_data_eq encoded_block_sizes_def upt_rec)
  then show "n \<le> 8 \<Longrightarrow> decoded_block_sizes (encoded_block_sizes ! n) = Some (int n)"
    by (simp add: list_all_iff)
  have "list_all (\<lambda>m. case decoded_block_sizes m of None \<Rightarrow> True
      | Some r \<Rightarrow> 0 \<le> r \<longrightarrow> nat r \<le> 8 \<and> encoded_block_sizes ! nat r = m) [0..<12]"
    by (simp add: decoded_block_sizes_def decoded_block_sizes_data_eq encoded_block_sizes_def upt_rec)
  moreover assume "decoded_block_sizes m = Some r" "0 \<le> r"
  moreover from this have "m < 12"
    by (auto simp: decoded_block_sizes_def decoded_block_sizes_data_eq split: if_splits)
  ultimately show "nat r \<le> 8 \<and> encoded_block_sizes ! nat r = m"
    by (auto simp: list_all_iff split: option.splits)
qed

lemma encoded_block_sizes_bound:
  "n \<le> 8 \<Longrightarrow> (256 :: nat) ^ n \<le> 58 ^ (encoded_block_sizes ! n) \<and> encoded_block_sizes ! n \<le> 11"
proof -
  have "list_all (\<lambda>n. (256 :: nat) ^ n \<le> 58 ^ (encoded_block_sizes ! n) \<and> encoded_block_sizes ! n \<le> 11) [0..<9]"
    by (simp add: decoded_block_sizes_def decoded_block_sizes_data_eq encoded_block_sizes_def upt_rec)
  then show "n \<le> 8 \<Longrightarrow> ?thesis" by (simp add: list_all_iff)
qed

lemma encoded_block_sizes_full: "n \<le> 8 \<Longrightarrow> encoded_block_sizes ! n = 11 \<longleftrightarrow> n = 8"
proof -
  have "list_all (\<lambda>n. encoded_block_sizes ! n = 11 \<longleftrightarrow> n = 8) [0..<9]"
    by (simp add: encoded_block_sizes_def upt_rec)
  then show "n \<le> 8 \<Longrightarrow> ?thesis" by (simp add: list_all_iff)
qed

section \<open>Numbers in base 58\<close>

text \<open>Digits and their value, the least significant digit first.\<close>

fun b58_digits :: "nat \<Rightarrow> nat \<Rightarrow> nat list" where
  "b58_digits 0 x = []"
| "b58_digits (Suc n) x = x mod 58 # b58_digits n (x div 58)"

fun b58_value :: "nat list \<Rightarrow> nat" where
  "b58_value [] = 0"
| "b58_value (d # ds) = d + 58 * b58_value ds"

lemma length_b58_digits [simp]: "length (b58_digits n x) = n"
  by (induction n arbitrary: x) simp_all

lemma b58_digits_less: "d \<in> set (b58_digits n x) \<Longrightarrow> d < 58"
  by (induction n arbitrary: x) auto

lemma b58_value_digits: "x < 58 ^ n \<Longrightarrow> b58_value (b58_digits n x) = x"
  by (induction n arbitrary: x) (simp_all add: less_mult_imp_div_less mult.commute)

lemma b58_digits_value: "\<forall>d \<in> set ds. d < 58 \<Longrightarrow> b58_digits (length ds) (b58_value ds) = ds"
  by (induction ds) simp_all

lemma b58_value_less: "\<forall>d \<in> set ds. d < 58 \<Longrightarrow> b58_value ds < 58 ^ length ds"
proof (induction ds)
  case (Cons d ds)
  then have "58 * (b58_value ds + 1) \<le> 58 * 58 ^ length ds" by (intro mult_le_mono2) simp
  then show ?case using Cons.prems by simp
qed simp

lemma b58_digits_0: "b58_digits n 0 = replicate n 0"
  by (induction n) simp_all

section \<open>Encoding a block\<close>

lemma encode_block_loop_eq:
  "unat num < 58 ^ j \<Longrightarrow>
   encode_block_loop num (int j - 1) (replicate j (alphabet ! 0) @ tail) =
     Some (rev (map ((!) alphabet) (b58_digits j (unat num))) @ tail)"
proof (induction j arbitrary: num tail)
  case 0
  then show ?case by (subst encode_block_loop.simps) (simp add: word_less_nat_alt)
next
  case (Suc j)
  show ?case
  proof (cases "num = 0")
    case True
    then show ?thesis
      by (subst encode_block_loop.simps) (simp add: b58_digits_0 replicate_append_same)
  next
    case False
    have m: "unat (num mod 58) = unat num mod 58" and d: "unat (num div 58) = unat num div 58"
      by (simp_all add: unat_div unat_mod)
    have "unat (num div 58) < 58 ^ j"
      using Suc.prems unfolding d by (simp add: less_mult_imp_div_less mult.commute)
    note IH = Suc.IH [OF this, of "alphabet ! (unat num mod 58) # tail"]
    have "(replicate (Suc j) (alphabet ! 0) @ tail)[j := alphabet ! (unat num mod 58)] =
      replicate j (alphabet ! 0) @ alphabet ! (unat num mod 58) # tail"
    proof -
      have "replicate (Suc j) (alphabet ! 0) @ tail = replicate j (alphabet ! 0) @ alphabet ! 0 # tail"
        by (simp add: replicate_app_Cons_same)
      then show ?thesis by (simp only: list_update_append length_replicate) simp
    qed
    then show ?thesis using IH False
      by (subst encode_block_loop.simps) (simp add: word_gt_0 m d)
  qed
qed

lemma foldl_of_le_bytes:
  "foldl (\<lambda>res b. push_bit 8 res OR ucast b) 0 data = (of_le_bytes (rev data) :: u64)"
proof -
  have "foldr (\<lambda>b res. push_bit 8 res OR ucast b) bs 0 = (of_le_bytes bs :: u64)" for bs
    by (induction bs) (simp_all add: or.commute)
  then show ?thesis by (simp add: foldl_conv_foldr)
qed

lemma uint_8be_to_64_eq:
  "1 \<le> length data \<Longrightarrow> length data \<le> 8 \<Longrightarrow> uint_8be_to_64 data = of_le_bytes (rev data)"
  by (simp add: uint_8be_to_64_def foldl_of_le_bytes)

lemma of_le_bytes_bound:
  assumes "length bs \<le> 8"
  shows "unat (of_le_bytes bs :: u64) < 256 ^ length bs"
proof -
  have "take_bit (8 * length bs) (of_le_bytes bs :: u64) = of_le_bytes bs"
    using le_bytes_of_le_bytes [of bs, where ?'w = 64] of_le_bytes_le_bytes [of "length bs" "of_le_bytes bs :: u64"]
      assms by simp
  then have "unat (of_le_bytes bs :: u64) < 2 ^ (8 * length bs)"
    by (metis take_bit_nat_less_exp unsigned_take_bit_eq)
  then show ?thesis by (simp add: power_mult)
qed

lemma encode_block_eq:
  assumes "1 \<le> length b" "length b \<le> 8"
  shows "encode_block b = Some (rev (map ((!) alphabet)
    (b58_digits (encoded_block_sizes ! length b) (unat (of_le_bytes (rev b) :: u64)))))"
proof -
  have "unat (of_le_bytes (rev b) :: u64) < 58 ^ (encoded_block_sizes ! length b)"
    using of_le_bytes_bound [of "rev b"] encoded_block_sizes_bound [of "length b"] assms by simp
  from encode_block_loop_eq [OF this, of "[]"] show ?thesis
    using assms by (simp add: encode_block_def uint_8be_to_64_eq)
qed

section \<open>Decoding a block\<close>

lemma le_bytes_nth: "i < n \<Longrightarrow> le_bytes n w ! i = ucast (drop_bit (8 * i) (w :: 'w::len word))"
proof (induction n arbitrary: i w)
  case (Suc n)
  then show ?case by (cases i) (simp_all add: add.commute)
qed simp

lemma uint_64_to_8be_eq:
  assumes "sz \<le> 8"
  shows "uint_64_to_8be num sz = rev (le_bytes sz num)"
proof (rule nth_equalityI)
  fix i assume i: "i < length (uint_64_to_8be num sz)"
  then have i: "i < sz" by (simp add: uint_64_to_8be_def)
  have "(ucast (drop_bit (8 * (8 - sz + i)) (SWAP64 num)) :: u8) = ucast (drop_bit (8 * (sz - Suc i)) num)"
  proof (rule bit_word_eqI)
    fix n assume n: "n < LENGTH(8)"
    have "8 * (8 - sz + i) + n < 64" using n i assms by simp
    moreover have "byte_mirror 7 (8 * (8 - sz + i) + n) = 8 * (sz - Suc i) + n"
      using n i assms by (simp add: byte_mirror_def)
    ultimately show "bit (ucast (drop_bit (8 * (8 - sz + i)) (SWAP64 num)) :: u8) n =
        bit (ucast (drop_bit (8 * (sz - Suc i)) num) :: u8) n"
      using n by (simp add: bit_simps bit_SWAP64)
  qed
  then show "uint_64_to_8be num sz ! i = rev (le_bytes sz num) ! i"
    using i assms by (simp add: uint_64_to_8be_def le_bytes_nth rev_nth)
qed (use assms in \<open>simp add: uint_64_to_8be_def\<close>)

abbreviation digits_of :: "bytes \<Rightarrow> nat list" where
  "digits_of cs \<equiv> map (\<lambda>c. nat (reverse_alphabet c)) cs"

lemma decode_block_loop_eq:
  assumes "k + length cs \<le> 11" "order = of_nat (58 ^ k)"
  shows "decode_block_loop cs r order =
    (if (\<forall>c \<in> set cs. 0 \<le> reverse_alphabet c) \<and> unat r + 58 ^ k * b58_value (digits_of cs) < 2 ^ 64
     then Some (of_nat (unat r + 58 ^ k * b58_value (digits_of cs))) else None)"
  using assms
proof (induction cs arbitrary: k r order)
  case (Cons c cs)
  show ?case
  proof (cases "reverse_alphabet c < 0")
    case False
    define d where "d = nat (reverse_alphabet c)"
    have d: "reverse_alphabet c = int d" "d < 58"
      using False alphabet_reverse_alphabet [of c] by (simp_all add: d_def nat_less_iff)
    have "(58 :: nat) ^ k \<le> 58 ^ 10" using Cons.prems(1) by (intro power_increasing) auto
    then have "unat order = 58 ^ k"
      using Cons.prems(2) unat_of_nat_u64 [of "58 ^ k"] by (simp only: Cons.prems(2)) simp
    moreover have "unat (of_int (reverse_alphabet c) :: u64) = d"
      using d by (simp add: unat_of_nat)
    ultimately have hi: "fst (mul128 order (of_int (reverse_alphabet c))) = 0 \<longleftrightarrow> 58 ^ k * d < 2 ^ 64"
      and lo: "58 ^ k * d < 2 ^ 64 \<Longrightarrow>
        unat (snd (mul128 order (of_int (reverse_alphabet c)))) = 58 ^ k * d"
      using mul128_no_overflow [of order "of_int (reverse_alphabet c)"] by simp_all
    let ?v = "b58_value (digits_of cs)"
    have v: "58 ^ k * b58_value (digits_of (c # cs)) = 58 ^ k * d + 58 ^ Suc k * ?v"
      by (simp add: d_def algebra_simps)
    let ?lo = "snd (mul128 order (of_int (reverse_alphabet c)))"
    show ?thesis
    proof (cases "unat r + 58 ^ k * d < 2 ^ 64")
      case True
      then have m: "58 ^ k * d < 2 ^ 64" by linarith
      have "unat (r + ?lo) = unat r + 58 ^ k * d" "\<not> r + ?lo < r"
        using True lo [OF m] by (simp_all add: add_overflow_iff unat_add_no_overflow)
      then show ?thesis
        using Cons.IH [of "Suc k" "order * 58" "r + ?lo"] Cons.prems m hi d(1) v
        by (simp add: case_prod_beta Let_def mult.commute [of _ 58] add.assoc)
    next
      case False
      then have "\<not> unat r + 58 ^ k * b58_value (digits_of (c # cs)) < 2 ^ 64"
        unfolding v by linarith
      moreover have "r + ?lo < r \<or> fst (mul128 order (of_int (reverse_alphabet c))) \<noteq> 0"
        using False hi lo by (auto simp: add_overflow_iff not_less)
      ultimately show ?thesis by (simp add: case_prod_beta Let_def)
    qed
  qed simp
qed simp

lemma push_bit_bytes_le_iff: "n < 8 \<Longrightarrow> push_bit (8 * n) (1 :: u64) \<le> x \<longleftrightarrow> 256 ^ n \<le> unat x"
proof -
  assume "n < 8"
  then have "(2 :: nat) ^ (8 * n) < 2 ^ 64" by (intro power_strict_increasing) auto
  then have "1 * 2 ^ (8 * n) mod 2 ^ 64 = (256 :: nat) ^ n" by (simp add: power_mult)
  then show ?thesis unfolding word_le_nat_alt unat_push_bit_eq by simp
qed

text \<open>The two block functions are inverse to each other on blocks of the sizes in the table.\<close>

lemma decode_encode_block:
  assumes "1 \<le> length b" "length b \<le> 8"
  obtains c where "encode_block b = Some c" "length c = encoded_block_sizes ! length b"
    "decode_block c = Some b"
proof -
  let ?m = "encoded_block_sizes ! length b" and ?x = "of_le_bytes (rev b) :: u64"
  define ds where "ds = b58_digits ?m (unat ?x)"
  define c where "c = rev (map ((!) alphabet) ds)"
  note bound = encoded_block_sizes_bound [OF assms(2)]
  have x: "unat ?x < 256 ^ length b" using of_le_bytes_bound [of "rev b"] assms(2) by simp
  have ds: "\<forall>d \<in> set ds. d < 58" by (auto simp: ds_def b58_digits_less)
  have digits: "digits_of (rev c) = ds"
    using ds by (simp add: c_def map_idI reverse_alphabet_alphabet)
  have "\<forall>l \<in> set (rev c). 0 \<le> reverse_alphabet l"
    using ds by (auto simp: c_def reverse_alphabet_alphabet)
  moreover have "b58_value ds = unat ?x"
    unfolding ds_def using x bound by (intro b58_value_digits) linarith
  ultimately have loop: "decode_block_loop (rev c) 0 1 = Some ?x"
    using decode_block_loop_eq [of 0 "rev c" 1 0] bound digits by (simp add: c_def ds_def)
  have "\<not> push_bit (8 * length b) 1 \<le> ?x" if "length b < 8"
    using x push_bit_bytes_le_iff [OF that] by simp
  moreover have "uint_64_to_8be ?x (length b) = b"
    using assms le_bytes_of_le_bytes [of "rev b", where ?'w = 64] by (simp add: uint_64_to_8be_eq)
  ultimately have "decode_block c = Some b"
    using decoded_block_sizes_eq(1) [OF assms(2)] loop assms(1)
    by (auto simp: decode_block_def c_def ds_def)
  moreover have "encode_block b = Some c" using encode_block_eq [OF assms] by (simp add: c_def ds_def)
  ultimately show ?thesis using that by (simp add: c_def ds_def)
qed

lemma encode_decode_block:
  assumes "decode_block c = Some b"
  shows "1 \<le> length b \<and> length b \<le> 8 \<and> length c = encoded_block_sizes ! length b \<and>
    encode_block b = Some c"
proof -
  obtain r x where r: "decoded_block_sizes (length c) = Some r" "0 < r"
    and x: "decode_block_loop (rev c) 0 1 = Some x"
    and fits: "\<not> (nat r < 8 \<and> push_bit (8 * nat r) 1 \<le> x)" and b: "b = uint_64_to_8be x (nat r)"
    using assms by (auto simp: decode_block_def bind_eq_Some_conv split: if_splits)
  define n where "n = nat r"
  have n: "n \<le> 8" "1 \<le> n" "encoded_block_sizes ! n = length c"
    using decoded_block_sizes_eq(2) [OF r(1)] r(2) by (simp_all add: n_def)
  have len: "length b = n" and b': "rev b = le_bytes n x"
    using b n(1) by (simp_all add: uint_64_to_8be_eq n_def)
  let ?ds = "digits_of (rev c)"
  have "length c \<le> 11" using encoded_block_sizes_bound [OF n(1)] n(3) by simp
  then have l: "\<forall>l \<in> set c. 0 \<le> reverse_alphabet l" "b58_value ?ds < 2 ^ 64" "x = of_nat (b58_value ?ds)"
    using x decode_block_loop_eq [of 0 "rev c" 1 0] by (simp_all split: if_splits)
  have v: "unat x = b58_value ?ds" using l(2) unfolding l(3) by (rule unat_of_nat_u64)
  have "unat x < 256 ^ n"
  proof (cases "n < 8")
    case True
    then show ?thesis using fits push_bit_bytes_le_iff [of n x] by (simp add: n_def)
  next
    case False
    then have "n = 8" using n(1) by simp
    then show ?thesis by simp
  qed
  then have "take_bit (8 * n) x = x" by (intro take_bit_word_self) (simp add: power_mult)
  then have x': "of_le_bytes (rev b) = x" by (simp add: b' of_le_bytes_le_bytes)
  have "b58_digits (length c) (unat x) = ?ds"
    using b58_digits_value [of ?ds] alphabet_reverse_alphabet l(1) by (auto simp: v nat_less_iff)
  moreover have "map ((!) alphabet) ?ds = rev c"
    using l(1) alphabet_reverse_alphabet by (auto intro: map_idI)
  ultimately have "encode_block b = Some c"
    using encode_block_eq [of b] n len by (simp add: x' flip: rev_map)
  then show ?thesis using n len by simp
qed

section \<open>Whole strings\<close>

lemma those_map_Some_iff: "those (map f xs) = Some ys \<longleftrightarrow> list_all2 (\<lambda>x y. f x = Some y) xs ys"
  by (induction xs arbitrary: ys) (auto simp: list_all2_Cons1 split: option.splits)

lemma pod_chunks_append:
  assumes "\<forall>x \<in> set xs. length x = sz" "length tail < sz"
  shows "pod_chunks sz (concat xs @ tail) = xs"
  using assms(1)
proof (induction xs)
  case Nil
  then show ?case using assms(2) by (simp add: pod_chunks_def)
next
  case (Cons x xs)
  have "\<forall>x \<in> set xs. length x = sz \<Longrightarrow> length (concat xs @ tail) = sz * length xs + length tail" for xs
    by (induction xs) auto
  then have "length (concat xs @ tail) div sz = length xs" "length (concat (x # xs) @ tail) div sz = Suc (length xs)"
    using Cons.prems assms(2) by (simp_all add: div_add1_eq)
  then show ?case using Cons
    unfolding pod_chunks_def by (simp add: upt_conv_Cons map_Suc_upt [symmetric] comp_def del: upt_Suc)
qed

lemma chunks_exist:
  assumes "0 < sz"
  obtains xs tail where "bs = concat xs @ tail" "\<forall>x \<in> set xs. length x = sz" "length tail < sz"
  using assms
proof (induction "length bs" arbitrary: bs thesis rule: less_induct)
  case less
  show ?case
  proof (cases "length bs < sz")
    case True
    then show ?thesis by (intro less.prems(1) [of "[]" bs]) simp_all
  next
    case False
    have "length (drop sz bs) < length bs" using False less.prems(2) by simp
    from less.hyps [OF this _ less.prems(2)] obtain xs tail where
      "drop sz bs = concat xs @ tail" "\<forall>x \<in> set xs. length x = sz" "length tail < sz" by blast
    then show ?thesis using False append_take_drop_id [of sz bs]
      by (intro less.prems(1) [of "take sz bs # xs" tail]) simp_all
  qed
qed

lemma length_concat_const: "\<forall>x \<in> set xs. length x = sz \<Longrightarrow> length (concat xs) = length xs * sz"
  by (induction xs) simp_all

lemma base58_encode_chunks:
  assumes "\<forall>x \<in> set xs. length x = 8" "length tail < 8"
  shows "base58_encode (concat xs @ tail) =
    do { blocks \<leftarrow> those (map encode_block xs);
         last_block \<leftarrow> (if tail = [] then Some [] else encode_block tail);
         Some (concat blocks @ last_block) }"
proof (cases "xs = [] \<and> tail = []")
  case False
  then have "concat xs @ tail \<noteq> []" using assms(1) by (cases xs) auto
  with assms length_concat_const [OF assms(1)] show ?thesis
    unfolding base58_encode_def tables Let_def pod_chunks_append [OF assms]
    by (simp del: concat_eq_Nil_conv append_is_Nil_conv)
qed (simp add: base58_encode_def)

lemma base58_decode_chunks:
  assumes "\<forall>x \<in> set xs. length x = 11" "length tail < 11"
  shows "base58_decode (concat xs @ tail) =
    do { last_size \<leftarrow> decoded_block_sizes (length tail);
         if last_size < 0 then None
         else do {
           blocks \<leftarrow> those (map decode_block xs);
           last_block \<leftarrow> (if tail = [] then Some [] else decode_block tail);
           Some (concat blocks @ last_block) } }"
proof (cases "xs = [] \<and> tail = []")
  case False
  then have "concat xs @ tail \<noteq> []" using assms(1) by (cases xs) auto
  moreover have drop_tail: "drop (length (concat xs @ tail) div 11 * 11) (concat xs @ tail) = tail"
    using length_concat_const [OF assms(1)] assms(2) by simp
  ultimately show ?thesis using assms length_concat_const [OF assms(1)]
    unfolding base58_decode_def tables Let_def pod_chunks_append [OF assms] drop_tail
    by (simp del: concat_eq_Nil_conv append_is_Nil_conv)
next
  case True
  then show ?thesis
    using decoded_block_sizes_eq(1) [of 0] by (simp add: base58_decode_def encoded_block_sizes_def)
qed

lemma base58_decode_encode:
  obtains enc where "base58_encode data = Some enc" "base58_decode enc = Some data"
proof -
  obtain xs tail where d: "data = concat xs @ tail" "\<forall>x \<in> set xs. length x = 8" "length tail < 8"
    by (rule chunks_exist [of 8 data]) auto
  have "\<forall>x \<in> set xs. \<exists>c. encode_block x = Some c \<and> length c = 11 \<and> decode_block c = Some x"
  proof
    fix x assume "x \<in> set xs"
    then have "length x = 8" using d(2) by simp
    with decode_encode_block [of x] show "\<exists>c. encode_block x = Some c \<and> length c = 11 \<and> decode_block c = Some x"
      by (auto simp: encoded_block_sizes_def)
  qed
  then obtain e where e: "\<forall>x \<in> set xs. encode_block x = Some (e x) \<and> length (e x) = 11 \<and> decode_block (e x) = Some x"
    by metis
  obtain t where t: "(if tail = [] then Some [] else encode_block tail) = Some t"
    "length t = encoded_block_sizes ! length tail" "(if t = [] then Some [] else decode_block t) = Some tail"
  proof (cases "tail = []")
    case True
    then show ?thesis using that [of "[]"] by (simp add: encoded_block_sizes_def)
  next
    case False
    then obtain c where c: "encode_block tail = Some c" "length c = encoded_block_sizes ! length tail"
      "decode_block c = Some tail"
      using decode_encode_block [of tail] d(3) by (cases tail) auto
    have "c \<noteq> []" using c(3) encode_decode_block [OF c(3)] by (auto simp: decode_block_def decoded_block_sizes_def decoded_block_sizes_data_eq)
    with c False show ?thesis using that [of c] by simp
  qed
  have m: "those (map encode_block xs) = Some (map e xs)" "those (map decode_block (map e xs)) = Some xs"
    using e by (auto simp: those_map_Some_iff list_all2_conv_all_nth)
  have "length t < 11 \<and> decoded_block_sizes (length t) = Some (int (length tail))"
    using t(2) d(3) encoded_block_sizes_full [of "length tail"] encoded_block_sizes_bound [of "length tail"]
      decoded_block_sizes_eq(1) [of "length tail"] by simp
  then have "base58_decode (concat (map e xs) @ t) = Some data"
    using base58_decode_chunks [of "map e xs" t] e m(2) t(3) d(1) by simp
  moreover have "base58_encode data = Some (concat (map e xs) @ t)"
    using base58_encode_chunks [OF d(2,3)] m(1) t(1) d(1) by simp
  ultimately show ?thesis using that by blast
qed

lemma base58_encode_decode:
  assumes "base58_decode enc = Some data"
  shows "base58_encode data = Some enc"
proof -
  obtain xs tail where d: "enc = concat xs @ tail" "\<forall>x \<in> set xs. length x = 11" "length tail < 11"
    by (rule chunks_exist [of 11 enc]) auto
  from assms base58_decode_chunks [OF d(2,3)] obtain bs t where
    bs: "those (map decode_block xs) = Some bs" and data: "data = concat bs @ t" and
    t: "(if tail = [] then Some [] else decode_block tail) = Some t"
    unfolding d(1) by (auto simp: bind_eq_Some_conv split: if_splits)
  have "encode_block b = Some x \<and> length b = 8" if "decode_block x = Some b" "x \<in> set xs" for x b
    using encode_decode_block [OF that(1)] encoded_block_sizes_full [of "length b"] d(2) that(2) by auto
  then have "list_all2 (\<lambda>x b. encode_block b = Some x \<and> length b = 8) xs bs"
    using bs unfolding those_map_Some_iff list_all2_conv_all_nth by (metis nth_mem)
  then have e: "those (map encode_block bs) = Some xs" "\<forall>b \<in> set bs. length b = 8"
    unfolding those_map_Some_iff by (auto simp: list_all2_conv_all_nth in_set_conv_nth)
  have "length t < 8 \<and> (if t = [] then Some [] else encode_block t) = Some tail"
  proof (cases "tail = []")
    case False
    then have "1 \<le> length t" "length t \<le> 8" "length tail = encoded_block_sizes ! length t" "encode_block t = Some tail"
      using t encode_decode_block [of tail t] by simp_all
    then show ?thesis using encoded_block_sizes_full [of "length t"] d(3) by (cases "length t = 8") auto
  qed (use t in simp)
  then show ?thesis using base58_encode_chunks [OF e(2), of t] e(1) data d(1) by simp
qed

section \<open>Addresses\<close>

lemma decode_addr_encode_addr:
  assumes "\<And>x. 4 \<le> length (cn_fast_hash x)"
  obtains addr where "encode_addr cn_fast_hash tag data = Some addr"
    "decode_addr cn_fast_hash addr = Some (tag, data)"
proof -
  let ?buf = "get_varint_data tag @ data"
  obtain addr where a: "base58_encode (?buf @ take 4 (cn_fast_hash ?buf)) = Some addr"
    "base58_decode addr = Some (?buf @ take 4 (cn_fast_hash ?buf))"
    by (rule base58_decode_encode)
  have "write_varint tag \<noteq> []" by (subst write_varint.simps) simp
  then have "decode_addr cn_fast_hash addr = Some (tag, data)"
    using a(2) assms [of ?buf] read_varint_write_varint [of tag data]
    by (simp add: decode_addr_def addr_checksum_size_def get_varint_data_def Let_def)
  moreover have "encode_addr cn_fast_hash tag data = Some addr"
    using a(1) by (simp add: encode_addr_def addr_checksum_size_def Let_def)
  ultimately show ?thesis using that by blast
qed

end
