(* ===== verification/Text_Utils.thy ===== *)
theory Text_Utils
  imports Prelude
begin

text \<open>
  Texts: the hexadecimal conversions, the field extraction and the trimming of
  \<^verbatim>\<open>src/common/string_tools.cpp\<close>, and the dotted decimal addresses of
  \<^verbatim>\<open>src/syst/ipv4_address.cpp\<close>.  The overloads of \<open>fromHex\<close> that throw
  and those that return \<open>false\<close> accept the same texts; they share one definition
  whose failure is \<open>None\<close>.
\<close>

unbundle bit_operations_syntax

section \<open>Hexadecimal\<close>

definition characterValues :: "u8 list" where
  "characterValues =
     replicate 48 0xff @ [0, 1, 2, 3, 4, 5, 6, 7, 8, 9] @ replicate 7 0xff @
     [10, 11, 12, 13, 14, 15] @ replicate 26 0xff @ [10, 11, 12, 13, 14, 15] @ replicate 153 0xff"

definition fromHex_char :: "char \<Rightarrow> u8 option" where
  "fromHex_char character =
     (let value = characterValues ! of_char character in if 0x0f < value then None else Some value)"

fun fromHex_pairs :: "string \<Rightarrow> bytes option" where
  "fromHex_pairs (c1 # c2 # text) =
     do {
       value1 \<leftarrow> fromHex_char c1;
       value2 \<leftarrow> fromHex_char c2;
       data \<leftarrow> fromHex_pairs text;
       Some ((push_bit 4 value1 OR value2) # data)
     }"
| "fromHex_pairs _ = Some []"

definition fromHex :: "string \<Rightarrow> bytes option" where
  "fromHex text = (if odd (length text) then None else fromHex_pairs text)"

definition fromHex_buffer :: "string \<Rightarrow> nat \<Rightarrow> bytes option" where
  "fromHex_buffer text bufferSize =
     (if odd (length text) then None
      else if bufferSize < length text div 2 then None
      else fromHex_pairs text)"

text \<open>\<open>podFromHex\<close> at a type of \<open>sz\<close> bytes.\<close>

definition podFromHex :: "nat \<Rightarrow> string \<Rightarrow> bytes option" where
  "podFromHex sz text =
     do { data \<leftarrow> fromHex_buffer text sz; if length data = sz then Some data else None }"

definition hex_digits :: string where
  "hex_digits = ''0123456789abcdef''"

definition toHex :: "bytes \<Rightarrow> string" where
  "toHex data = concat (map (\<lambda>b. [hex_digits ! unat (drop_bit 4 b), hex_digits ! unat (b AND 15)]) data)"

section \<open>Fields and white space\<close>

definition extract_field :: "string \<Rightarrow> char \<Rightarrow> string \<times> string" where
  "extract_field text delimiter =
     (let subText = takeWhile (\<lambda>c. c \<noteq> delimiter) text
      in if delimiter \<in> set text then (subText, drop (length subText + 1) text) else (text, []))"

text \<open>
  The variant with an offset, as it is written: the offset is moved before the substring is
  taken, and the second argument of \<open>substr\<close> is the position of the delimiter.
\<close>

definition extract_at :: "string \<Rightarrow> char \<Rightarrow> nat \<Rightarrow> string \<times> nat" where
  "extract_at text delimiter offset =
     (if delimiter \<in> set (drop offset text)
      then let delimiterPosition = offset + length (takeWhile (\<lambda>c. c \<noteq> delimiter) (drop offset text));
               offset = delimiterPosition + 1
           in (take delimiterPosition (drop offset text), offset)
      else (drop (length text) text, length text))"

definition whitespace :: string where
  "whitespace = '' '' @ [CHR 0x09, CHR 0x0A, CHR 0x0D, CHR 0x0C, CHR 0x0B]"

text \<open>\<open>find_first_not_of\<close> is \<open>npos\<close> on blank text, and \<open>erase(0, npos)\<close> empties it.\<close>

definition leftTrim :: "string \<Rightarrow> string" where
  "leftTrim str = dropWhile (\<lambda>c. c \<in> set whitespace) str"

text \<open>\<open>find_last_not_of\<close> is \<open>npos\<close> on blank text; one more is zero.\<close>

definition rightTrim :: "string \<Rightarrow> string" where
  "rightTrim str = rev (dropWhile (\<lambda>c. c \<in> set whitespace) (rev str))"

definition trim :: "string \<Rightarrow> string" where
  "trim str = leftTrim (rightTrim str)"

section \<open>Decimal numbers\<close>

definition digit_char :: "nat \<Rightarrow> char" where
  "digit_char d = char_of (48 + d)"

text \<open>\<open>std::to_string\<close> on an unsigned number.\<close>

fun to_string :: "nat \<Rightarrow> string" where
  "to_string n = (if n < 10 then [digit_char n] else to_string (n div 10) @ [digit_char (n mod 10)])"

declare to_string.simps [simp del]

text \<open>\<open>std::setfill('0') << std::setw(n)\<close>.\<close>

definition setw :: "nat \<Rightarrow> string \<Rightarrow> string" where
  "setw n s = replicate (n - length s) (CHR ''0'') @ s"

definition timeIntervalToString :: "u64 \<Rightarrow> string" where
  "timeIntervalToString intervalInSeconds =
     (let tail = unat intervalInSeconds;
          days = tail div (60 * 60 * 24); tail = tail mod (60 * 60 * 24);
          hours = tail div (60 * 60); tail = tail mod (60 * 60);
          minutes = tail div 60; seconds = tail mod 60
      in ''d'' @ to_string days @ ''.h'' @ setw 2 (to_string hours) @ ''.m'' @
         setw 2 (to_string minutes) @ ''.s'' @ setw 2 (to_string seconds))"

definition ipAddressToString :: "u32 \<Rightarrow> string" where
  "ipAddressToString ip =
     to_string (unat (ip AND 0xFF)) @ ''.'' @ to_string (unat (drop_bit 8 ip AND 0xFF)) @ ''.'' @
     to_string (unat (drop_bit 16 ip AND 0xFF)) @ ''.'' @ to_string (unat (drop_bit 24 ip AND 0xFF))"

section \<open>Ipv4 addresses\<close>

definition is_digit :: "char \<Rightarrow> bool" where
  "is_digit c \<longleftrightarrow> 48 \<le> (of_char c :: nat) \<and> (of_char c :: nat) \<le> 57"

definition digit_value :: "char \<Rightarrow> u8" where
  "digit_value c = of_char c - 48"

text \<open>The text is what follows \<open>offset\<close>; the result is the value and what follows it.\<close>

definition readUint8 :: "string \<Rightarrow> (u8 \<times> string) option" where
  "readUint8 source =
     (case source of
        [] \<Rightarrow> None
      | c0 # s1 \<Rightarrow>
          if \<not> is_digit c0 then None
          else let value = digit_value c0 in
            (case s1 of
               [] \<Rightarrow> Some (value, s1)
             | c1 # s2 \<Rightarrow>
                 if \<not> is_digit c1 then Some (value, s1)
                 else if value = 0 then None
                 else let value = value * 10 + digit_value c1 in
                   (case s2 of
                      [] \<Rightarrow> Some (value, s2)
                    | c2 # s3 \<Rightarrow>
                        if \<not> is_digit c2 then Some (value, s2)
                        else if value = 25 \<and> 53 < (of_char c2 :: nat) \<or> 25 < value then None
                        else Some (value * 10 + digit_value c2, s3))))"

definition skip_dot :: "string \<Rightarrow> string option" where
  "skip_dot s = (case s of [] \<Rightarrow> None | c # s' \<Rightarrow> if c = CHR ''.'' then Some s' else None)"

definition Ipv4Address :: "string \<Rightarrow> u32 option" where
  "Ipv4Address dottedDecimal =
     do {
       (b, s) \<leftarrow> readUint8 dottedDecimal;
       let value = ucast b;
       s \<leftarrow> skip_dot s;
       (b, s) \<leftarrow> readUint8 s;
       let value = push_bit 8 value OR ucast b;
       s \<leftarrow> skip_dot s;
       (b, s) \<leftarrow> readUint8 s;
       let value = push_bit 8 value OR ucast b;
       s \<leftarrow> skip_dot s;
       (b, s) \<leftarrow> readUint8 s;
       let value = push_bit 8 value OR ucast b;
       if s \<noteq> [] then None else Some value
     }"

definition toDottedDecimal :: "u32 \<Rightarrow> string" where
  "toDottedDecimal value =
     to_string (unat (drop_bit 24 value)) @ ''.'' @ to_string (unat (drop_bit 16 value AND 255)) @ ''.'' @
     to_string (unat (drop_bit 8 value AND 255)) @ ''.'' @ to_string (unat (value AND 255))"

definition isLoopback :: "u32 \<Rightarrow> bool" where
  "isLoopback value \<longleftrightarrow> value AND 0xff000000 = push_bit 24 127"

definition isPrivate :: "u32 \<Rightarrow> bool" where
  "isPrivate value \<longleftrightarrow>
     value AND 0xff000000 = push_bit 24 10 \<or>
     value AND 0xfff00000 = push_bit 24 172 OR push_bit 16 16 \<or>
     value AND 0xffff0000 = push_bit 24 192 OR push_bit 16 168"

section \<open>Hexadecimal round trips\<close>

lemma fromHex_char_hex_digits: "n < 16 \<Longrightarrow> fromHex_char (hex_digits ! n) = Some (of_nat n)"
proof -
  have "list_all (\<lambda>n. fromHex_char (hex_digits ! n) = Some (of_nat n)) [0..<16]"
    by (simp add: upt_rec fromHex_char_def hex_digits_def characterValues_def nth_append Let_def)
  then show "n < 16 \<Longrightarrow> ?thesis" by (simp add: list_all_iff)
qed

lemma nibbles: "unat (drop_bit 4 (b :: u8)) < 16" "unat (b AND 15) < 16"
  "push_bit 4 (of_nat (unat (drop_bit 4 b))) OR of_nat (unat (b AND 15)) = b"
proof -
  have b: "unat b < 2 ^ 4 * 2 ^ 4" using unsigned_less [of b, where ?'a = nat] by simp
  then show "unat (drop_bit 4 b) < 16" unfolding unat_drop_bit_div by (simp add: less_mult_imp_div_less)
  have m: "b AND 15 = take_bit 4 b" by (simp add: take_bit_eq_mask mask_numeral)
  then show "unat (b AND 15) < 16" by (simp add: unsigned_take_bit_eq take_bit_nat_less_exp [of 4, simplified])
  show "push_bit 4 (of_nat (unat (drop_bit 4 b))) OR of_nat (unat (b AND 15)) = b"
    unfolding m by (rule bit_word_eqI) (auto simp: bit_simps)
qed

lemma even_length_toHex: "even (length (toHex data))" "length (toHex data) div 2 = length data"
  by (induction data) (simp_all add: toHex_def)

lemma fromHex_pairs_toHex: "fromHex_pairs (toHex data) = Some data"
  by (induction data) (simp_all add: toHex_def fromHex_char_hex_digits nibbles del: of_nat_unat)

lemma fromHex_toHex: "fromHex (toHex data) = Some data"
  by (simp add: fromHex_def even_length_toHex fromHex_pairs_toHex)

lemma podFromHex_toHex: "podFromHex (length data) (toHex data) = Some data"
  by (simp add: podFromHex_def fromHex_buffer_def even_length_toHex fromHex_pairs_toHex)

lemma length_fromHex_pairs: "fromHex_pairs t = Some data \<Longrightarrow> length data = length t div 2"
  by (induction t arbitrary: data rule: fromHex_pairs.induct) (auto simp: bind_eq_Some_conv)

lemma podFromHex_length: "podFromHex sz t = Some data \<Longrightarrow> length data = sz \<and> length t = 2 * sz"
  by (auto simp: podFromHex_def fromHex_buffer_def bind_eq_Some_conv length_fromHex_pairs split: if_splits)

section \<open>Extraction and trimming\<close>

lemma extract_field_concat:
  "delimiter \<in> set t \<Longrightarrow> fst (extract_field t delimiter) @ [delimiter] @ snd (extract_field t delimiter) = t"
proof -
  assume d: "delimiter \<in> set t"
  let ?p = "takeWhile (\<lambda>c. c \<noteq> delimiter) t"
  have "dropWhile (\<lambda>c. c \<noteq> delimiter) t = delimiter # tl (dropWhile (\<lambda>c. c \<noteq> delimiter) t)"
    using d hd_dropWhile [of "\<lambda>c. c \<noteq> delimiter" t] by (cases "dropWhile (\<lambda>c. c \<noteq> delimiter) t") auto
  then have "?p @ [delimiter] @ drop (length ?p + 1) t = t"
    by (metis append_Cons append_Nil drop_Suc dropWhile_eq_drop list.sel(3) tl_drop takeWhile_dropWhile_id add.commute plus_1_eq_Suc)
  then show ?thesis using d by (simp add: extract_field_def Let_def)
qed

lemma last_dropWhile_eq: "dropWhile P xs \<noteq> [] \<Longrightarrow> last (dropWhile P xs) = last xs"
  by (metis last_appendR takeWhile_dropWhile_id)

lemma trim_ends:
  assumes "trim s \<noteq> []"
  shows "hd (trim s) \<notin> set whitespace \<and> last (trim s) \<notin> set whitespace"
proof -
  let ?ws = "\<lambda>c. c \<in> set whitespace"
  have "rightTrim s \<noteq> []" using assms by (auto simp: trim_def leftTrim_def)
  then have "dropWhile ?ws (rev s) \<noteq> []" by (simp add: rightTrim_def)
  then have "last (rightTrim s) \<notin> set whitespace"
    using hd_dropWhile [of ?ws "rev s"] by (auto simp: rightTrim_def last_rev)
  then show ?thesis
    using assms hd_dropWhile [of ?ws "rightTrim s"] last_dropWhile_eq [of ?ws "rightTrim s"]
    by (auto simp: trim_def leftTrim_def)
qed

section \<open>Decimal numbers\<close>

lemma of_char_digit_char: "d < 10 \<Longrightarrow> of_char (digit_char d) = 48 + d"
  by (simp add: digit_char_def)

lemma is_digit_digit_char: "d < 10 \<Longrightarrow> is_digit (digit_char d)"
  by (simp add: is_digit_def of_char_digit_char)

lemma digit_value_digit_char: "d < 10 \<Longrightarrow> digit_value (digit_char d) = of_nat d"
proof -
  have "(of_char c :: u8) = of_nat (of_char c)" for c by (simp add: of_char_def)
  then show "d < 10 \<Longrightarrow> ?thesis" by (simp add: digit_value_def of_char_digit_char)
qed

lemma is_digitE:
  assumes "is_digit c" obtains d where "d < 10" "c = digit_char d"
proof -
  define d where "d = of_char c - (48 :: nat)"
  have "d < 10" "of_char c = 48 + d" using assms by (auto simp: d_def is_digit_def)
  then have "c = digit_char d" unfolding digit_char_def by (metis char_of_char)
  with \<open>d < 10\<close> show ?thesis by (rule that)
qed

lemma to_string_cases:
  "n < 10 \<Longrightarrow> to_string n = [digit_char n]"
  "10 \<le> n \<Longrightarrow> n < 100 \<Longrightarrow> to_string n = [digit_char (n div 10), digit_char (n mod 10)]"
  "100 \<le> n \<Longrightarrow> n < 1000 \<Longrightarrow>
     to_string n = [digit_char (n div 10 div 10), digit_char (n div 10 mod 10), digit_char (n mod 10)]"
proof -
  show 1: "n < 10 \<Longrightarrow> to_string n = [digit_char n]" for n by (subst to_string.simps) simp
  show 2: "10 \<le> n \<Longrightarrow> n < 100 \<Longrightarrow> to_string n = [digit_char (n div 10), digit_char (n mod 10)]" for n
    by (subst to_string.simps) (simp add: 1 less_mult_imp_div_less)
  show "100 \<le> n \<Longrightarrow> n < 1000 \<Longrightarrow>
     to_string n = [digit_char (n div 10 div 10), digit_char (n div 10 mod 10), digit_char (n mod 10)]"
    by (subst to_string.simps) (simp add: 2 less_mult_imp_div_less)
qed

lemma to_string_digits: "\<forall>c \<in> set (to_string n). is_digit c"
  by (induction n rule: to_string.induct) (subst to_string.simps, simp add: is_digit_digit_char)

section \<open>Addresses\<close>

text \<open>What follows a number must not continue it.\<close>

definition no_digit :: "string \<Rightarrow> bool" where
  "no_digit s \<longleftrightarrow> (s = [] \<or> \<not> is_digit (hd s))"

lemma of_nat_u8:
  "n < 256 \<Longrightarrow> unat (of_nat n :: u8) = n"
  "n < 256 \<Longrightarrow> (of_nat n :: u8) = 0 \<longleftrightarrow> n = 0"
  "n < 256 \<Longrightarrow> (of_nat n :: u8) = 25 \<longleftrightarrow> n = 25"
  "n < 256 \<Longrightarrow> (25 :: u8) < of_nat n \<longleftrightarrow> 25 < n"
  by (simp_all add: unat_of_nat word_unat_eq_iff word_less_nat_alt)

lemma of_nat_digits: "of_nat d * 10 + of_nat e = (of_nat (d * 10 + e) :: u8)"
  by simp

lemmas readUint8_simps = readUint8_def is_digit_digit_char digit_value_digit_char of_nat_digits
  of_nat_u8 of_char_digit_char no_digit_def

text \<open>The three lengths a number can have.\<close>

lemma readUint8_1: "d < 10 \<Longrightarrow> no_digit s \<Longrightarrow> readUint8 (digit_char d # s) = Some (of_nat d, s)"
  by (cases s) (simp_all add: readUint8_simps)

lemma readUint8_2:
  "d < 10 \<Longrightarrow> e < 10 \<Longrightarrow> no_digit s \<Longrightarrow> readUint8 (digit_char d # digit_char e # s) =
     (if d = 0 then None else Some (of_nat (d * 10 + e), s))"
  by (cases s) (simp_all add: readUint8_simps del: of_nat_add of_nat_mult)

lemma readUint8_3:
  "d < 10 \<Longrightarrow> e < 10 \<Longrightarrow> f < 10 \<Longrightarrow>
   readUint8 (digit_char d # digit_char e # digit_char f # s) =
     (if d = 0 \<or> d * 10 + e = 25 \<and> 5 < f \<or> 25 < d * 10 + e then None
      else Some (of_nat ((d * 10 + e) * 10 + f), s))"
  by (simp add: readUint8_simps del: of_nat_add of_nat_mult)

lemma readUint8_to_string:
  assumes "n < 256" "no_digit s"
  shows "readUint8 (to_string n @ s) = Some (of_nat n, s)"
proof -
  have d: "n div 10 div 10 < 10" "n div 10 mod 10 < 10" "n mod 10 < 10"
    using assms(1) by (simp_all add: less_mult_imp_div_less)
  consider "n < 10" | "10 \<le> n" "n < 100" | "100 \<le> n" by linarith
  then show ?thesis
  proof cases
    case 1
    then show ?thesis using assms by (simp add: to_string_cases(1) readUint8_1)
  next
    case 2
    then have "n div 10 < 10" by auto
    with readUint8_2 [OF this d(3) assms(2)] 2 show ?thesis by (simp add: to_string_cases(2) div_eq_0_iff del: of_nat_add of_nat_mult)
  next
    case 3
    have e: "n div 10 div 10 * 10 + n div 10 mod 10 = n div 10" by simp
    have "n div 10 \<le> 25" "n div 10 = 25 \<Longrightarrow> n mod 10 \<le> 5" "n div 10 div 10 \<noteq> 0"
      using assms(1) 3 div_mult_mod_eq [of n 10] by auto
    with readUint8_3 [OF d, of s] 3 assms(1) show ?thesis
      unfolding e by (simp add: to_string_cases(3) not_less del: of_nat_add of_nat_mult)
  qed
qed

lemma digit_prefix_cases:
  obtains "src = []" | c s where "src = c # s" "\<not> is_digit c"
  | d s where "d < 10" "src = digit_char d # s" "no_digit s"
  | d e s where "d < 10" "e < 10" "src = digit_char d # digit_char e # s" "no_digit s"
  | d e f s where "d < 10" "e < 10" "f < 10" "src = digit_char d # digit_char e # digit_char f # s"
  by (metis is_digitE list.exhaust list.sel(1) no_digit_def)

lemma last_digit: "f < 10 \<Longrightarrow> (m * 10 + f) div 10 = m" "f < 10 \<Longrightarrow> (m * 10 + f) mod 10 = (f :: nat)"
  by simp_all

lemma readUint8_canonical:
  assumes "readUint8 src = Some (v, rest)"
  shows "src = to_string (unat v) @ rest"
proof (cases src rule: digit_prefix_cases)
  case (3 d s)
  with assms have "v = of_nat d" "rest = s" by (simp_all add: readUint8_1)
  with 3 show ?thesis by (simp add: to_string_cases(1) of_nat_u8)
next
  case (4 d e s)
  with assms have "0 < d" "v = of_nat (d * 10 + e)" "rest = s"
    by (simp_all add: readUint8_2 del: of_nat_add of_nat_mult split: if_splits)
  moreover from this 4 have "unat v = d * 10 + e" by (simp add: of_nat_u8 del: of_nat_add of_nat_mult)
  ultimately show ?thesis using 4 by (simp add: to_string_cases(2))
next
  case (5 d e f s)
  with assms have "0 < d" "\<not> (d * 10 + e = 25 \<and> 5 < f)" "d * 10 + e \<le> 25"
    and v: "v = of_nat ((d * 10 + e) * 10 + f)" and "rest = s"
    by (simp_all add: readUint8_3 del: of_nat_add of_nat_mult split: if_splits)
  moreover from this 5 have "(d * 10 + e) * 10 + f < 256" by (cases "d * 10 + e = 25") auto
  then have n: "unat v = (d * 10 + e) * 10 + f" unfolding v by (rule of_nat_u8)
  have "unat v div 10 = d * 10 + e" "unat v mod 10 = f"
    unfolding n using last_digit [OF 5(3)] by (simp_all only:)
  moreover have "(d * 10 + e) div 10 = d" "(d * 10 + e) mod 10 = e" using 5 by simp_all
  moreover have "100 \<le> unat v" "unat v < 1000" unfolding n using \<open>0 < d\<close> 5 by simp_all
  ultimately show ?thesis using 5 by (simp add: to_string_cases(3))
qed (use assms in \<open>auto simp: readUint8_def\<close>)

lemma u32_bytes:
  fixes v :: u32
  shows "drop_bit 24 v = ucast (ucast (drop_bit 24 v) :: u8)"
    "drop_bit n v AND 255 = ucast (ucast (drop_bit n v) :: u8)"
    "v AND 255 = ucast (ucast v :: u8)"
proof -
  have m: "w AND 255 = ucast (ucast w :: u8)" for w :: u32
  proof -
    have "w AND 255 = take_bit 8 w" by (simp add: take_bit_eq_mask mask_numeral)
    then show ?thesis by (intro bit_word_eqI) (auto simp: bit_simps)
  qed
  show "drop_bit 24 v = ucast (ucast (drop_bit 24 v) :: u8)"
    by (rule bit_word_eqI) (auto simp: bit_simps dest: bit_imp_le_length)
  show "drop_bit n v AND 255 = ucast (ucast (drop_bit n v) :: u8)" "v AND 255 = ucast (ucast v :: u8)"
    by (rule m)+
qed

definition quad :: "u8 \<Rightarrow> u8 \<Rightarrow> u8 \<Rightarrow> u8 \<Rightarrow> u32" where
  "quad a b c d = push_bit 8 (push_bit 8 (push_bit 8 (ucast a) OR ucast b) OR ucast c) OR ucast d"

lemma bit_u8_ge: "8 \<le> n \<Longrightarrow> \<not> bit (b :: u8) n"
  using bit_imp_le_length [of b n] by auto

lemma quad_parts:
  "ucast (drop_bit 24 (quad a b c d)) = a" "ucast (drop_bit 16 (quad a b c d)) = b"
  "ucast (drop_bit 8 (quad a b c d)) = c" "ucast (quad a b c d) = d"
  unfolding quad_def by ((rule bit_word_eqI, simp add: bit_simps bit_u8_ge)+)

lemma bit_quad:
  "m < 8 \<Longrightarrow> bit (quad a b c d) m = bit d m" "m < 8 \<Longrightarrow> bit (quad a b c d) (8 + m) = bit c m"
  "m < 8 \<Longrightarrow> bit (quad a b c d) (16 + m) = bit b m" "m < 8 \<Longrightarrow> bit (quad a b c d) (24 + m) = bit a m"
  by (simp_all add: quad_def bit_simps bit_u8_ge)

lemma byte_position_cases:
  assumes "n < (32 :: nat)"
  obtains "n < 8" | m where "n = 8 + m" "m < 8" | m where "n = 16 + m" "m < 8" | m where "n = 24 + m" "m < 8"
proof -
  consider "n < 8" | "8 \<le> n" "n < 16" | "16 \<le> n" "n < 24" | "24 \<le> n" by linarith
  then show ?thesis
  proof cases
    case 2 then show ?thesis using that(2) [of "n - 8"] by simp
  next
    case 3 then show ?thesis using that(3) [of "n - 16"] by simp
  next
    case 4 then show ?thesis using that(4) [of "n - 24"] assms by simp
  qed (rule that(1))
qed

lemma quad_split:
  "quad (ucast (drop_bit 24 v)) (ucast (drop_bit 16 v)) (ucast (drop_bit 8 v)) (ucast v) = v"
proof (rule bit_word_eqI)
  fix n assume "n < LENGTH(32)"
  then have "n < 32" by simp
  then show "bit (quad (ucast (drop_bit 24 v)) (ucast (drop_bit 16 v)) (ucast (drop_bit 8 v)) (ucast v)) n = bit v n"
    by (cases n rule: byte_position_cases) (simp_all add: bit_quad, simp_all add: bit_simps)
qed

lemma unat_ucast_u8 [simp]: "unat (ucast (b :: u8) :: u32) = unat b"
  by (simp add: unat_ucast_up)

lemma toDottedDecimal_eq:
  "toDottedDecimal v = to_string (unat (ucast (drop_bit 24 v) :: u8)) @ ''.'' @
     to_string (unat (ucast (drop_bit 16 v) :: u8)) @ ''.'' @
     to_string (unat (ucast (drop_bit 8 v) :: u8)) @ ''.'' @ to_string (unat (ucast v :: u8))"
  unfolding toDottedDecimal_def
  by (subst u32_bytes(1), subst u32_bytes(2), subst u32_bytes(2), subst u32_bytes(3)) (simp only: unat_ucast_u8)

lemma no_digit_dot [simp]: "no_digit (CHR ''.'' # s)" "no_digit []"
  by (simp_all add: no_digit_def is_digit_def)

lemma unat_u8_less: "unat (b :: u8) < 256"
  using unsigned_less [of b, where ?'a = nat] by simp

text \<open>Parsing and printing are inverse: the parser takes no leading zeros and no other text.\<close>

lemma Ipv4Address_toDottedDecimal: "Ipv4Address (toDottedDecimal v) = Some v"
  using quad_split [of v]
  by (simp add: toDottedDecimal_eq Ipv4Address_def skip_dot_def readUint8_to_string unat_u8_less quad_def
      readUint8_to_string [where s = "[]", simplified])

lemma skip_dot_Some: "skip_dot s = Some s' \<longleftrightarrow> s = CHR ''.'' # s'"
  by (auto simp: skip_dot_def split: list.splits)

lemma Ipv4Address_canonical:
  assumes "Ipv4Address s = Some v"
  shows "s = toDottedDecimal v"
proof -
  obtain a b c d s1 s2 s3 where
    "readUint8 s = Some (a, CHR ''.'' # s1)" "readUint8 s1 = Some (b, CHR ''.'' # s2)"
    "readUint8 s2 = Some (c, CHR ''.'' # s3)" "readUint8 s3 = Some (d, [])" and v: "v = quad a b c d"
    using assms
    by (auto simp: Ipv4Address_def bind_eq_Some_conv skip_dot_Some quad_def split: if_splits)
  note this(1-4) [THEN readUint8_canonical]
  then show ?thesis by (simp add: v toDottedDecimal_eq quad_parts)
qed

lemma quad_eq_iff: "quad a b c d = quad a' b' c' d' \<longleftrightarrow> a = a' \<and> b = b' \<and> c = c' \<and> d = d'"
  by (metis quad_parts)

lemma quad_and: "quad a b c d AND quad a' b' c' d' = quad (a AND a') (b AND b') (c AND c') (d AND d')"
proof (rule bit_word_eqI)
  fix n assume "n < LENGTH(32)"
  then have "n < 32" by simp
  then show "bit (quad a b c d AND quad a' b' c' d') n = bit (quad (a AND a') (b AND b') (c AND c') (d AND d')) n"
    by (cases n rule: byte_position_cases) (simp_all add: bit_quad bit_and_iff)
qed

lemma and_f0: "(b :: u8) AND 0xf0 = 16 \<longleftrightarrow> 16 \<le> b \<and> b < 32"
proof -
  have f0: "(0xf0 :: u8) = NOT (mask 4)" by (simp add: mask_numeral)
  have "b AND 0xf0 = push_bit 4 (drop_bit 4 b)"
    unfolding f0 by (rule bit_word_eqI) (auto simp: bit_simps)
  moreover have "unat (push_bit 4 (drop_bit 4 b)) = unat b div 16 * 16"
    unfolding unat_push_bit_eq unat_drop_bit_div using unat_u8_less [of b] by simp
  ultimately have "b AND 0xf0 = 16 \<longleftrightarrow> unat b div 16 = 1"
    by (simp add: word_unat_eq_iff)
  also have "\<dots> \<longleftrightarrow> 16 \<le> unat b \<and> unat b < 32" by auto
  finally show ?thesis by (simp add: word_le_nat_alt word_less_nat_alt)
qed

lemma and_ff: "(x :: u8) AND 0xff = x"
proof -
  have "x AND 0xff = x AND mask 8" by (simp add: mask_numeral)
  then show ?thesis by (simp add: take_bit_eq_mask [symmetric] take_bit_word_eq_self)
qed

text \<open>The networks that \<open>isPrivate\<close> and \<open>isLoopback\<close> accept, by the numbers of the address.\<close>

lemma isPrivate_quad:
  "isPrivate (quad a b c d) \<longleftrightarrow> a = 10 \<or> a = 172 \<and> 16 \<le> b \<and> b < 32 \<or> a = 192 \<and> b = 168"
proof -
  have m: "(0xff000000 :: u32) = quad 0xff 0 0 0" "(0xfff00000 :: u32) = quad 0xff 0xf0 0 0"
    "(0xffff0000 :: u32) = quad 0xff 0xff 0 0" "push_bit 24 10 = quad 10 0 0 0"
    "push_bit 24 172 OR push_bit 16 16 = quad 172 16 0 0"
    "push_bit 24 192 OR push_bit 16 168 = quad 192 168 0 0"
    by (simp_all add: quad_def)
  show ?thesis
    unfolding isPrivate_def m quad_and quad_eq_iff by (simp add: and_f0 and_ff)
qed

lemma isLoopback_quad: "isLoopback (quad a b c d) \<longleftrightarrow> a = 127"
proof -
  have m: "(0xff000000 :: u32) = quad 0xff 0 0 0" "push_bit 24 127 = quad 127 0 0 0"
    by (simp_all add: quad_def)
  show ?thesis unfolding isLoopback_def m quad_and quad_eq_iff by (simp add: and_ff)
qed

end
