(* ===== verification/Transactions.thy ===== *)
theory Transactions
  imports Streams
begin

text \<open>
  The transactions of \<^verbatim>\<open>include/mevacoin.h\<close> and their binary format in
  \<^verbatim>\<open>src/mevacoin_core/mevacoin_serialization.cpp\<close>.  Every \<open>serialize\<close>
  function of the source serves both directions; here it is a writer and a reader with the
  same name.  Keys, hashes, key images and signatures are plain data: lists of 32 or 64 bytes.
\<close>

section \<open>Data\<close>

datatype TransactionInput =
    BaseInput (blockIndex: u32)
  | KeyInput (in_amount: u64) (outputIndexes: "u32 list") (keyImage: bytes)

abbreviation is_KeyInput :: "TransactionInput \<Rightarrow> bool" where
  "is_KeyInput i \<equiv> \<not> is_BaseInput i"

datatype TransactionOutputTarget = KeyOutput (out_key: bytes)

record TransactionOutput =
  out_amount :: u64
  target :: TransactionOutputTarget

record TransactionPrefix =
  version :: u8
  unlockTime :: u64
  inputs :: "TransactionInput list"
  outputs :: "TransactionOutput list"
  extra :: bytes

record Transaction = TransactionPrefix +
  signatures :: "bytes list list"

type_synonym BaseTransaction = TransactionPrefix

definition CURRENT_TRANSACTION_VERSION :: u8 where
  "CURRENT_TRANSACTION_VERSION = 1"

definition TRANSACTION_VERSION_2 :: u8 where
  "TRANSACTION_VERSION_2 = 2"

definition KEY_SIZE :: nat where
  "KEY_SIZE = 32"

definition SIGNATURE_SIZE :: nat where
  "SIGNATURE_SIZE = 64"

section \<open>Inputs and outputs\<close>

definition getSignaturesCount :: "TransactionInput \<Rightarrow> nat" where
  "getSignaturesCount input =
     (case input of BaseInput _ \<Rightarrow> 0 | KeyInput _ indexes _ \<Rightarrow> length indexes)"

definition input_tag :: "TransactionInput \<Rightarrow> u8" where
  "input_tag input = (case input of BaseInput _ \<Rightarrow> 0xff | KeyInput _ _ _ \<Rightarrow> 0x2)"

definition write_varint_vector :: "u32 list \<Rightarrow> bytes" where
  "write_varint_vector vector = writeContainer (\<lambda>x. writeVarint (ucast x)) vector"

definition read_varint_vector :: "u32 list reader" where
  "read_varint_vector = readContainer readVarint"

definition write_TransactionInput :: "TransactionInput \<Rightarrow> bytes" where
  "write_TransactionInput input =
     write_int (input_tag input) @
     (case input of
        BaseInput index \<Rightarrow> writeVarint (ucast index)
      | KeyInput amount indexes ki \<Rightarrow>
          writeVarint amount @ write_varint_vector indexes @ ki)"

definition getVariantValue_input :: "u8 \<Rightarrow> TransactionInput reader" where
  "getVariantValue_input tag =
     (if tag = 0xff then bind_r readVarint (\<lambda>index. return_r (BaseInput index))
      else if tag = 0x2 then
        bind_r readVarint (\<lambda>amount.
        bind_r read_varint_vector (\<lambda>indexes.
        bind_r (read_bytes KEY_SIZE) (\<lambda>ki.
        return_r (KeyInput amount indexes ki))))
      else fail_r UnknownVariantTag)"

definition read_TransactionInput :: "TransactionInput reader" where
  "read_TransactionInput = bind_r read_int getVariantValue_input"

definition write_TransactionOutputTarget :: "TransactionOutputTarget \<Rightarrow> bytes" where
  "write_TransactionOutputTarget out = write_int (0x2 :: u8) @ out_key out"

definition getVariantValue_target :: "u8 \<Rightarrow> TransactionOutputTarget reader" where
  "getVariantValue_target tag =
     (if tag = 0x2 then bind_r (read_bytes KEY_SIZE) (\<lambda>key. return_r (KeyOutput key))
      else fail_r UnknownVariantTag)"

definition read_TransactionOutputTarget :: "TransactionOutputTarget reader" where
  "read_TransactionOutputTarget = bind_r read_int getVariantValue_target"

definition write_TransactionOutput :: "TransactionOutput \<Rightarrow> bytes" where
  "write_TransactionOutput out =
     writeVarint (out_amount out) @ write_TransactionOutputTarget (target out)"

definition read_TransactionOutput :: "TransactionOutput reader" where
  "read_TransactionOutput =
     bind_r readVarint (\<lambda>amount.
     bind_r read_TransactionOutputTarget (\<lambda>t.
     return_r \<lparr>out_amount = amount, target = t\<rparr>))"

section \<open>Transactions\<close>

definition byte_pod :: "u8 \<Rightarrow> bytes" where
  "byte_pod b = [b]"

definition write_TransactionPrefix :: "'z TransactionPrefix_scheme \<Rightarrow> bytes" where
  "write_TransactionPrefix txP =
     writeVarint (ucast (version txP)) @
     writeVarint (unlockTime txP) @
     writeContainer write_TransactionInput (inputs txP) @
     writeContainer write_TransactionOutput (outputs txP) @
     writeAsBinary byte_pod (extra txP)"

definition read_extra :: "bytes reader" where
  "read_extra = readAsBinary 1 hd ''extra''"

definition read_prefix_body :: "u8 \<Rightarrow> TransactionPrefix reader" where
  "read_prefix_body v =
     bind_r readVarint (\<lambda>unlock.
     bind_r (readContainer read_TransactionInput) (\<lambda>vin.
     bind_r (readContainer read_TransactionOutput) (\<lambda>vout.
     bind_r read_extra (\<lambda>ex.
     return_r \<lparr>version = v, unlockTime = unlock, inputs = vin, outputs = vout, extra = ex\<rparr>))))"

definition read_TransactionPrefix :: "TransactionPrefix reader" where
  "read_TransactionPrefix =
     bind_r readVarint (\<lambda>v :: u8.
       if CURRENT_TRANSACTION_VERSION < v then fail_r WrongTransactionVersion
       else read_prefix_body v)"

text \<open>The base transaction of a parent block may have a version this chain does not use.\<close>

definition write_BaseTransaction :: "BaseTransaction \<Rightarrow> bytes" where
  "write_BaseTransaction tx =
     write_TransactionPrefix tx @
     (if TRANSACTION_VERSION_2 \<le> version tx then writeVarint 0 else [])"

definition read_BaseTransaction :: "BaseTransaction reader" where
  "read_BaseTransaction =
     bind_r readVarint (\<lambda>v.
     bind_r (read_prefix_body v) (\<lambda>tx.
       if TRANSACTION_VERSION_2 \<le> version tx
       then bind_r readVarint (\<lambda>ignored :: u64. return_r tx)
       else return_r tx))"

text \<open>The loop over the inputs; the first argument is \<open>signaturesNotExpected\<close>.\<close>

fun read_signatures :: "bool \<Rightarrow> TransactionInput list \<Rightarrow> bytes list list reader" where
  "read_signatures notExpected [] = return_r []"
| "read_signatures notExpected (i # is) =
     (let signatureSize = getSignaturesCount i
      in if notExpected
         then if signatureSize = 0 then read_signatures notExpected is
              else fail_r SignaturesNotExpected
         else bind_r (read_many (read_bytes SIGNATURE_SIZE) signatureSize) (\<lambda>sigs.
              bind_r (read_signatures notExpected is) (\<lambda>rest.
              return_r (sigs # rest))))"

fun write_signatures ::
  "bool \<Rightarrow> TransactionInput list \<Rightarrow> bytes list list \<Rightarrow> ser_error + bytes" where
  "write_signatures notExpected [] sigs = Inr []"
| "write_signatures notExpected (i # is) sigs =
     (let signatureSize = getSignaturesCount i
      in if notExpected
         then if signatureSize = 0 then write_signatures notExpected is sigs
              else Inl SignaturesNotExpected
         else if signatureSize \<noteq> length (hd sigs) then Inl SignaturesSize
         else case write_signatures notExpected is (tl sigs) of
                Inl e \<Rightarrow> Inl e
              | Inr bs \<Rightarrow> Inr (concat (hd sigs) @ bs))"

definition write_Transaction :: "Transaction \<Rightarrow> ser_error + bytes" where
  "write_Transaction tx =
     (let signaturesNotExpected = (signatures tx = [])
      in if \<not> signaturesNotExpected \<and> length (inputs tx) \<noteq> length (signatures tx)
         then Inl SignaturesSize
         else case write_signatures signaturesNotExpected (inputs tx) (signatures tx) of
                Inl e \<Rightarrow> Inl e
              | Inr bs \<Rightarrow> Inr (write_TransactionPrefix tx @ bs))"

definition single_base_input :: "TransactionInput list \<Rightarrow> bool" where
  "single_base_input ins \<longleftrightarrow> length ins = 1 \<and> is_BaseInput (ins ! 0)"

definition read_Transaction :: "Transaction reader" where
  "read_Transaction =
     bind_r read_TransactionPrefix (\<lambda>p.
       let sigSize = length (inputs p);
           sigs = (if \<not> single_base_input (inputs p) then replicate sigSize [] else [] :: bytes list list);
           signaturesNotExpected = (sigs = [])
       in bind_r (read_signatures signaturesNotExpected (inputs p)) (\<lambda>sigs.
          return_r (TransactionPrefix.extend p (Transaction.fields sigs))))"

section \<open>Objects as byte arrays\<close>

definition fromBinaryArray :: "'a reader \<Rightarrow> bytes \<Rightarrow> ser_error + 'a" where
  "fromBinaryArray dec binaryArray =
     (case dec binaryArray of
        Inl e \<Rightarrow> Inl e
      | Inr (x, rest) \<Rightarrow> if \<not> endOfStream rest then Inl UnpackFailed else Inr x)"

definition getObjectBinarySize :: "('a \<Rightarrow> ser_error + bytes) \<Rightarrow> 'a \<Rightarrow> u64 \<times> bool" where
  "getObjectBinarySize toBinaryArray x =
     (case toBinaryArray x of Inl _ \<Rightarrow> (- 1, False) | Inr ba \<Rightarrow> (of_nat (length ba), True))"

definition NULL_HASH :: bytes where
  "NULL_HASH = replicate KEY_SIZE 0"

definition getObjectHash ::
  "(bytes \<Rightarrow> bytes) \<Rightarrow> ('a \<Rightarrow> ser_error + bytes) \<Rightarrow> 'a \<Rightarrow> bytes \<times> bool" where
  "getObjectHash cn_fast_hash toBinaryArray x =
     (case toBinaryArray x of Inl _ \<Rightarrow> (NULL_HASH, False) | Inr ba \<Rightarrow> (cn_fast_hash ba, True))"

section \<open>Well formed transactions\<close>

fun valid_TransactionInput :: "TransactionInput \<Rightarrow> bool" where
  "valid_TransactionInput (BaseInput _) = True"
| "valid_TransactionInput (KeyInput _ indexes ki) \<longleftrightarrow>
     length indexes < 2 ^ 64 \<and> length ki = KEY_SIZE"

definition valid_TransactionOutput :: "TransactionOutput \<Rightarrow> bool" where
  "valid_TransactionOutput out \<longleftrightarrow> length (out_key (target out)) = KEY_SIZE"

definition valid_prefix_body :: "'z TransactionPrefix_scheme \<Rightarrow> bool" where
  "valid_prefix_body p \<longleftrightarrow>
     length (inputs p) < 2 ^ 64 \<and> list_all valid_TransactionInput (inputs p) \<and>
     length (outputs p) < 2 ^ 64 \<and> list_all valid_TransactionOutput (outputs p) \<and>
     length (extra p) < 2 ^ 64"

definition valid_TransactionPrefix :: "'z TransactionPrefix_scheme \<Rightarrow> bool" where
  "valid_TransactionPrefix p \<longleftrightarrow> version p \<le> CURRENT_TRANSACTION_VERSION \<and> valid_prefix_body p"

definition valid_signatures :: "Transaction \<Rightarrow> bool" where
  "valid_signatures tx \<longleftrightarrow>
     (if single_base_input (inputs tx) then signatures tx = []
      else list_all2 (\<lambda>i sigs. length sigs = getSignaturesCount i \<and>
        (\<forall>s \<in> set sigs. length s = SIGNATURE_SIZE)) (inputs tx) (signatures tx))"

definition valid_Transaction :: "Transaction \<Rightarrow> bool" where
  "valid_Transaction tx \<longleftrightarrow> valid_TransactionPrefix tx \<and> valid_signatures tx"

section \<open>The codecs of inputs and outputs\<close>

interpretation varint_vector: canonical_codec write_varint_vector read_varint_vector
  "\<lambda>xs. length xs < 2 ^ 64"
  by unfold_locales
    (auto simp: write_varint_vector_def read_varint_vector_def varint32.container_roundtrip
      dest: varint32.container_canonical)

lemmas base_codecs = varint64.bind_enc varint32.bind_enc varint8.bind_enc int8.bind_enc
  varint_vector.bind_enc fixed_bytes.bind_enc reader_simps

interpretation input_codec: canonical_codec write_TransactionInput read_TransactionInput
  valid_TransactionInput
proof unfold_locales
  fix x rest assume "valid_TransactionInput x"
  then show "read_TransactionInput (write_TransactionInput x @ rest) = Inr (x, rest)"
    by (cases x) (simp_all add: write_TransactionInput_def read_TransactionInput_def input_tag_def
        getVariantValue_input_def base_codecs)
next
  fix bs x rest assume "read_TransactionInput bs = Inr (x, rest)"
  then show "valid_TransactionInput x \<and> bs = write_TransactionInput x @ rest"
    by (auto simp: write_TransactionInput_def read_TransactionInput_def input_tag_def
        getVariantValue_input_def bind_r_Inr_iff int8.dec_iff varint64.dec_iff varint32.dec_iff
        varint_vector.dec_iff fixed_bytes.dec_iff return_r_def fail_r_def split: if_splits)
qed

interpretation target_codec: canonical_codec write_TransactionOutputTarget read_TransactionOutputTarget
  "\<lambda>out. length (out_key out) = KEY_SIZE"
proof unfold_locales
  fix x :: TransactionOutputTarget and rest assume "length (out_key x) = KEY_SIZE"
  then show "read_TransactionOutputTarget (write_TransactionOutputTarget x @ rest) = Inr (x, rest)"
    by (simp add: write_TransactionOutputTarget_def read_TransactionOutputTarget_def
        getVariantValue_target_def base_codecs)
next
  fix bs x rest assume "read_TransactionOutputTarget bs = Inr (x, rest)"
  then show "length (out_key x) = KEY_SIZE \<and> bs = write_TransactionOutputTarget x @ rest"
    by (auto simp: write_TransactionOutputTarget_def read_TransactionOutputTarget_def
        getVariantValue_target_def bind_r_Inr_iff int8.dec_iff fixed_bytes.dec_iff return_r_def
        fail_r_def split: if_splits)
qed

interpretation output_codec: canonical_codec write_TransactionOutput read_TransactionOutput
  valid_TransactionOutput
  by unfold_locales
    (auto simp: write_TransactionOutput_def read_TransactionOutput_def valid_TransactionOutput_def
      base_codecs target_codec.bind_enc bind_r_Inr_iff varint64.dec_iff target_codec.dec_iff)

lemma pod_chunks_bytes: "map hd (pod_chunks 1 blob) = blob"
  using pod_chunks_concat [of 1 byte_pod blob]
  by (simp add: byte_pod_def [abs_def] comp_def concat_map_singleton)

interpretation extra_codec: canonical_codec "writeAsBinary byte_pod" read_extra
  "\<lambda>x. length x < 2 ^ 64"
proof unfold_locales
  fix x rest :: bytes assume "length x < 2 ^ 64"
  then show "read_extra (writeAsBinary byte_pod x @ rest) = Inr (x, rest)"
    unfolding read_extra_def by (intro readAsBinary_roundtrip) (simp_all add: byte_pod_def)
next
  fix bs x rest assume "read_extra bs = Inr (x, rest)"
  then have "read_string ''extra'' bs = Inr (x, rest)"
    by (auto simp: read_extra_def readAsBinary_def bind_r_Inr_iff pod_chunks_bytes [simplified] reader_simps)
  from read_string_canonical [OF _ this]
  show "length x < 2 ^ 64 \<and> bs = writeAsBinary byte_pod x @ rest"
    by (simp add: writeAsBinary_def byte_pod_def [abs_def])
qed

section \<open>The codecs of transactions\<close>

lemma read_prefix_body_roundtrip:
  fixes p :: TransactionPrefix
  assumes "valid_prefix_body p"
  shows "read_prefix_body (version p)
    (writeVarint (unlockTime p) @ writeContainer write_TransactionInput (inputs p) @
     writeContainer write_TransactionOutput (outputs p) @ writeAsBinary byte_pod (extra p) @ rest) =
    Inr (p, rest)"
  using assms
  by (simp add: read_prefix_body_def valid_prefix_body_def varint64.bind_enc extra_codec.bind_enc
      input_codec.container_bind output_codec.container_bind list_all_iff reader_simps)

lemma read_prefix_body_canonical:
  assumes "read_prefix_body v bs = Inr (p, rest)"
  shows "valid_prefix_body p \<and> version p = v \<and>
    writeVarint (ucast v) @ bs = write_TransactionPrefix p @ rest"
  using assms
  by (auto simp: read_prefix_body_def valid_prefix_body_def write_TransactionPrefix_def bind_r_Inr_iff
      varint64.dec_iff extra_codec.dec_iff return_r_def list_all_iff
      dest!: input_codec.container_canonical output_codec.container_canonical)

interpretation prefix_codec: canonical_codec write_TransactionPrefix read_TransactionPrefix
  "valid_TransactionPrefix :: TransactionPrefix \<Rightarrow> bool"
proof unfold_locales
  fix p :: TransactionPrefix and rest assume "valid_TransactionPrefix p"
  then show "read_TransactionPrefix (write_TransactionPrefix p @ rest) = Inr (p, rest)"
    using read_prefix_body_roundtrip [of p rest]
    by (simp add: read_TransactionPrefix_def write_TransactionPrefix_def valid_TransactionPrefix_def
        varint8.bind_enc leD)
next
  fix bs p rest assume "read_TransactionPrefix bs = Inr (p, rest)"
  then obtain v :: u8 and mid where "bs = writeVarint (ucast v) @ mid"
    "v \<le> CURRENT_TRANSACTION_VERSION" "read_prefix_body v mid = Inr (p, rest)"
    by (auto simp: read_TransactionPrefix_def bind_r_Inr_iff varint8.dec_iff fail_r_def not_less
        split: if_splits)
  then show "valid_TransactionPrefix p \<and> bs = write_TransactionPrefix p @ rest"
    using read_prefix_body_canonical [of v mid p rest] by (simp add: valid_TransactionPrefix_def)
qed

interpretation base_transaction_codec: codec write_BaseTransaction read_BaseTransaction valid_prefix_body
proof unfold_locales
  fix p :: BaseTransaction and rest assume "valid_prefix_body p"
  then show "read_BaseTransaction (write_BaseTransaction p @ rest) = Inr (p, rest)"
    using read_prefix_body_roundtrip [of p rest] read_prefix_body_roundtrip [of p "writeVarint 0 @ rest"]
    by (simp add: read_BaseTransaction_def write_BaseTransaction_def write_TransactionPrefix_def
        varint8.bind_enc varint64.bind_enc bind_r_Inr reader_simps)
qed

lemma read_signatures_roundtrip:
  "list_all2 (\<lambda>i sigs. length sigs = getSignaturesCount i \<and> (\<forall>s \<in> set sigs. length s = SIGNATURE_SIZE)) is sigs
   \<Longrightarrow> \<exists>bs. write_signatures False is sigs = Inr bs \<and>
       (\<forall>rest. read_signatures False is (bs @ rest) = Inr (sigs, rest))"
proof (induction rule: list_all2_induct)
  case (Cons i "is" s sigs)
  then obtain bs where bs: "write_signatures False is sigs = Inr bs"
    "\<And>rest. read_signatures False is (bs @ rest) = Inr (sigs, rest)" by blast
  have "read_many (read_bytes SIGNATURE_SIZE) (length s) (concat s @ bs @ rest) = Inr (s, bs @ rest)" for rest
    using fixed_bytes.read_many_roundtrip [of s SIGNATURE_SIZE "bs @ rest"] Cons(1) by simp
  then show ?case using bs Cons(1) by (simp add: bind_r_Inr reader_simps)
qed (simp add: reader_simps)

lemma read_signatures_canonical:
  "read_signatures False is bs = Inr (sigs, rest) \<Longrightarrow>
   list_all2 (\<lambda>i sigs. length sigs = getSignaturesCount i \<and> (\<forall>s \<in> set sigs. length s = SIGNATURE_SIZE)) is sigs \<and>
   (\<exists>out. write_signatures False is sigs = Inr out \<and> bs = out @ rest)"
proof (induction "is" arbitrary: bs sigs)
  case (Cons i "is")
  then obtain s mid ss where s: "read_many (read_bytes SIGNATURE_SIZE) (getSignaturesCount i) bs = Inr (s, mid)"
    "read_signatures False is mid = Inr (ss, rest)" "sigs = s # ss"
    by (auto simp: bind_r_Inr_iff reader_simps)
  from fixed_bytes.read_many_canonical [OF s(1)] Cons.IH [OF s(2)] s(3) show ?case by auto
qed (simp add: reader_simps)

text \<open>The prefix of a transaction, and a transaction from its prefix and its signatures.\<close>

lemma truncate_simps [simp]:
  "write_TransactionPrefix (TransactionPrefix.truncate tx) = write_TransactionPrefix tx"
  "valid_TransactionPrefix (TransactionPrefix.truncate tx) = valid_TransactionPrefix tx"
  "inputs (TransactionPrefix.truncate tx) = inputs tx"
  by (simp_all add: write_TransactionPrefix_def valid_TransactionPrefix_def valid_prefix_body_def
      TransactionPrefix.defs)

lemma extend_simps [simp]:
  "TransactionPrefix.truncate (TransactionPrefix.extend p (Transaction.fields sigs)) = p"
  "signatures (TransactionPrefix.extend p (Transaction.fields sigs)) = sigs"
  "TransactionPrefix.extend (TransactionPrefix.truncate tx) (Transaction.fields (signatures tx)) = tx"
  by (simp_all add: TransactionPrefix.defs Transaction.defs)

lemma extend_prefix [simp]:
  "write_TransactionPrefix (TransactionPrefix.extend p (Transaction.fields sigs)) = write_TransactionPrefix p"
  "valid_TransactionPrefix (TransactionPrefix.extend p (Transaction.fields sigs)) = valid_TransactionPrefix p"
  "inputs (TransactionPrefix.extend p (Transaction.fields sigs)) = inputs p"
  by (metis extend_simps(1) truncate_simps)+

lemma single_base_inputE:
  assumes "single_base_input ins" obtains h where "ins = [BaseInput h]"
  using assms by (cases ins) (auto simp: single_base_input_def is_BaseInput_def)

lemma read_signatures_none:
  "single_base_input ins \<or> ins = [] \<Longrightarrow>
   read_signatures True ins bs = Inr ([], bs) \<and> write_signatures True ins sigs = Inr []"
  by (auto elim!: single_base_inputE simp: getSignaturesCount_def reader_simps)

lemma read_Transaction_eq:
  "read_Transaction =
     bind_r read_TransactionPrefix (\<lambda>p.
       bind_r (read_signatures (single_base_input (inputs p) \<or> inputs p = []) (inputs p)) (\<lambda>sigs.
       return_r (TransactionPrefix.extend p (Transaction.fields sigs))))"
proof -
  have "((if \<not> b then replicate (length ins) [] else [] :: bytes list list) = []) \<longleftrightarrow> b \<or> ins = []"
    for b and ins :: "TransactionInput list" by simp
  then show ?thesis unfolding read_Transaction_def Let_def by (simp only:)
qed

lemma transaction_roundtrip:
  assumes "valid_Transaction tx"
  obtains ba where "write_Transaction tx = Inr ba" "\<And>rest. read_Transaction (ba @ rest) = Inr (tx, rest)"
proof -
  note v = assms [unfolded valid_Transaction_def valid_signatures_def]
  let ?none = "single_base_input (inputs tx) \<or> inputs tx = []"
  have none: "signatures tx = [] \<longleftrightarrow> ?none" using v by (auto split: if_splits)
  obtain bs where bs: "write_signatures ?none (inputs tx) (signatures tx) = Inr bs"
    "\<And>rest. read_signatures ?none (inputs tx) (bs @ rest) = Inr (signatures tx, rest)"
  proof (cases ?none)
    case True
    with none read_signatures_none [OF True] show ?thesis using that [of "[]"] by simp
  next
    case False
    with v read_signatures_roundtrip [of "inputs tx" "signatures tx"] that show ?thesis by auto
  qed
  have "length (inputs tx) = length (signatures tx)" if "signatures tx \<noteq> []"
    using v that by (auto simp: list_all2_lengthD split: if_splits)
  then have "write_Transaction tx = Inr (write_TransactionPrefix tx @ bs)"
    using bs(1) none by (auto simp: write_Transaction_def Let_def)
  moreover have "read_Transaction ((write_TransactionPrefix tx @ bs) @ rest) = Inr (tx, rest)" for rest
  proof -
    have "read_TransactionPrefix (write_TransactionPrefix tx @ bs @ rest) =
        Inr (TransactionPrefix.truncate tx, bs @ rest)"
      using prefix_codec.roundtrip [of "TransactionPrefix.truncate tx" "bs @ rest"] v by simp
    then show ?thesis using bs(2) [of rest] by (simp add: read_Transaction_eq bind_r_Inr return_r_def)
  qed
  ultimately show ?thesis by (rule that)
qed

lemma transaction_canonical:
  assumes "read_Transaction bs = Inr (tx, rest)"
  shows "valid_Transaction tx \<and> (\<exists>ba. write_Transaction tx = Inr ba \<and> bs = ba @ rest)"
proof -
  obtain p mid sigs where p: "read_TransactionPrefix bs = Inr (p, mid)"
    "read_signatures (single_base_input (inputs p) \<or> inputs p = []) (inputs p) mid = Inr (sigs, rest)"
    "tx = TransactionPrefix.extend p (Transaction.fields sigs)"
    using assms unfolding read_Transaction_eq bind_r_Inr_iff return_r_def by auto
  note prefix = prefix_codec.canonical [OF p(1)]
  show ?thesis
  proof (cases "single_base_input (inputs p) \<or> inputs p = []")
    case True
    with p(2) read_signatures_none [OF True, of mid] have "sigs = []" "mid = rest" by auto
    with True prefix p(3) read_signatures_none [OF True] show ?thesis
      by (auto simp: valid_Transaction_def valid_signatures_def write_Transaction_def)
  next
    case False
    with p(2) read_signatures_canonical [of "inputs p" mid sigs rest] obtain out where
      out: "write_signatures False (inputs p) sigs = Inr out" "mid = out @ rest"
      and sigs: "list_all2 (\<lambda>i sigs. length sigs = getSignaturesCount i \<and>
        (\<forall>s \<in> set sigs. length s = SIGNATURE_SIZE)) (inputs p) sigs" by auto
    have "sigs \<noteq> []" "length (inputs p) = length sigs"
      using False sigs list_all2_lengthD [OF sigs] by auto
    with out sigs prefix False p(3) show ?thesis
      by (simp add: valid_Transaction_def valid_signatures_def write_Transaction_def)
  qed
qed

lemma fromBinaryArray_Transaction:
  "fromBinaryArray read_Transaction ba = Inr tx \<longleftrightarrow>
   valid_Transaction tx \<and> write_Transaction tx = Inr ba"
proof
  assume "fromBinaryArray read_Transaction ba = Inr tx"
  then have "read_Transaction ba = Inr (tx, [])"
    by (auto simp: fromBinaryArray_def endOfStream_def split: sum.splits if_splits)
  from transaction_canonical [OF this]
  show "valid_Transaction tx \<and> write_Transaction tx = Inr ba" by auto
next
  assume *: "valid_Transaction tx \<and> write_Transaction tx = Inr ba"
  then obtain ba' where "write_Transaction tx = Inr ba'" "read_Transaction (ba' @ []) = Inr (tx, [])"
    using transaction_roundtrip by blast
  with * show "fromBinaryArray read_Transaction ba = Inr tx"
    by (simp add: fromBinaryArray_def endOfStream_def)
qed

text \<open>C16: A byte array is accepted as a transaction exactly when it is the serialisation of a well formed
  transaction, and the transaction returned is that one.  So reading inverts writing, every
  transaction has one encoding, and trailing bytes are refused.\<close>

theorem transaction_binary_iff:
  "fromBinaryArray read_Transaction ba = Inr tx \<longleftrightarrow>
   valid_Transaction tx \<and> write_Transaction tx = Inr ba"
  by (rule fromBinaryArray_Transaction)

end
