(* ===== verification/Tx_Extra.thy ===== *)
theory Tx_Extra
  imports Transactions Text_Utils
begin

text \<open>
  The extra field of a transaction, \<^verbatim>\<open>src/mevacoin_core/transaction_extra.cpp\<close>:
  a sequence of tagged fields.  Parsing returns the flag of the C++ function together with the
  fs found, because several callers use the fields even when the flag is \<open>false\<close>.
\<close>

section \<open>Fields\<close>

datatype TransactionExtraField =
    ExtraPadding (pad_size: nat)
  | ExtraPublicKey (publicKey: bytes)
  | ExtraNonce (nonce_bytes: bytes)
  | ExtraMergeMiningTag (depth: u64) (merkleRoot: bytes)

definition TX_EXTRA_PADDING_MAX_COUNT :: nat where
  "TX_EXTRA_PADDING_MAX_COUNT = 255"

definition TX_EXTRA_NONCE_MAX_COUNT :: nat where
  "TX_EXTRA_NONCE_MAX_COUNT = 255"

definition TX_EXTRA_TAG_PADDING :: u8 where "TX_EXTRA_TAG_PADDING = 0x00"
definition TX_EXTRA_TAG_PUBKEY :: u8 where "TX_EXTRA_TAG_PUBKEY = 0x01"
definition TX_EXTRA_NONCE :: u8 where "TX_EXTRA_NONCE = 0x02"
definition TX_EXTRA_MERGE_MINING_TAG :: u8 where "TX_EXTRA_MERGE_MINING_TAG = 0x03"
definition TX_EXTRA_NONCE_PAYMENT_ID :: u8 where "TX_EXTRA_NONCE_PAYMENT_ID = 0x00"

lemmas tx_extra_tags = TX_EXTRA_TAG_PADDING_def TX_EXTRA_TAG_PUBKEY_def TX_EXTRA_NONCE_def
  TX_EXTRA_MERGE_MINING_TAG_def

section \<open>The merge mining tag\<close>

definition write_MergeMiningTag :: "u64 \<Rightarrow> bytes \<Rightarrow> bytes" where
  "write_MergeMiningTag d root = write_string (writeVarint d @ root)"

text \<open>The bytes of the string are a stream of their own; what is left of it is dropped.\<close>

definition read_MergeMiningTag :: "(u64 \<times> bytes) reader" where
  "read_MergeMiningTag =
     bind_r (read_string ''mm_tag'') (\<lambda>field bs.
       case bind_r readVarint (\<lambda>d. bind_r (read_bytes KEY_SIZE) (\<lambda>root. return_r (d, root))) field of
         Inl e \<Rightarrow> Inl e
       | Inr (tag, _) \<Rightarrow> Inr (tag, bs))"

section \<open>Parsing\<close>

fun read_padding :: "nat \<Rightarrow> bytes \<Rightarrow> (nat \<times> bytes) option" where
  "read_padding sz [] = (if TX_EXTRA_PADDING_MAX_COUNT < sz then None else Some (sz, []))"
| "read_padding sz (b # bs) =
     (if sz \<le> TX_EXTRA_PADDING_MAX_COUNT
      then if b \<noteq> 0 then None else read_padding (sz + 1) bs
      else None)"

definition read_nonce :: "bytes reader" where
  "read_nonce =
     bind_r read_int (\<lambda>sz :: u8. if 0 < sz then read_bytes (unat sz) else return_r [])"

lemma read_padding_rest: "read_padding sz bs = Some (n, rest) \<Longrightarrow> rest = []"
  by (induction sz bs rule: read_padding.induct) (auto split: if_splits)

lemma read_bytes_consumes: "read_bytes n bs = Inr (x, rest) \<Longrightarrow> length rest \<le> length bs"
  by (auto simp: fixed_bytes.dec_iff)

lemma read_nonce_consumes: "read_nonce bs = Inr (x, rest) \<Longrightarrow> length rest \<le> length bs"
  by (auto simp: read_nonce_def bind_r_Inr_iff int8.dec_iff fixed_bytes.dec_iff return_r_def split: if_splits)

lemma read_string_consumes:
  assumes "read_string name bs = Inr (x, rest)" shows "length rest \<le> length bs"
proof -
  obtain n :: u64 and mid where n: "bs = writeVarint n @ mid"
    "(if MAX_EXTRA_SIZE < unat n \<and> name = ''mm_tag''
      then bind_r (read_bytes (unat n)) (\<lambda>_. return_r [])
      else if 0 < n then read_bytes (unat n) else return_r []) mid = Inr (x, rest)"
    using assms unfolding read_string_def bind_r_Inr_iff [of readVarint] varint64.dec_iff by blast
  from n(2) have "length rest \<le> length mid"
    by (auto simp: bind_r_Inr_iff return_r_def dest: read_bytes_consumes split: if_splits)
  with n(1) show ?thesis by simp
qed

lemma read_MergeMiningTag_consumes:
  assumes "read_MergeMiningTag bs = Inr (x, rest)" shows "length rest \<le> length bs"
proof -
  obtain field mid where r: "read_string ''mm_tag'' bs = Inr (field, mid)"
    and c: "(case bind_r readVarint (\<lambda>d. bind_r (read_bytes KEY_SIZE) (\<lambda>root. return_r (d, root))) field of
         Inl e \<Rightarrow> Inl e | Inr (tag, _) \<Rightarrow> Inr (tag, mid)) = Inr (x, rest)"
    using assms unfolding read_MergeMiningTag_def bind_r_Inr_iff [of "read_string _"] by blast
  from c have "mid = rest" by (auto split: sum.split_asm)
  then show ?thesis using read_string_consumes [OF r] by simp
qed

text \<open>
  The loop over the stream.  The first four arguments say which tags have been seen; a second
  padding, key or nonce ends parsing with success, a second merge mining tag is skipped as an
  unknown byte would be.
\<close>

function parse_extra_loop ::
  "bool \<Rightarrow> bool \<Rightarrow> bool \<Rightarrow> bool \<Rightarrow> TransactionExtraField list \<Rightarrow> bytes
   \<Rightarrow> bool \<times> TransactionExtraField list" where
  "parse_extra_loop seen_padding seen_pubkey seen_nonce seen_mm fs [] = (True, fs)"
| "parse_extra_loop seen_padding seen_pubkey seen_nonce seen_mm fs (c # bs) =
     (if c = TX_EXTRA_TAG_PADDING then
        if seen_padding then (True, fs)
        else (case read_padding 1 bs of
                None \<Rightarrow> (False, fs)
              | Some (sz, rest) \<Rightarrow>
                  parse_extra_loop True seen_pubkey seen_nonce seen_mm (fs @ [ExtraPadding sz]) rest)
      else if c = TX_EXTRA_TAG_PUBKEY then
        if seen_pubkey then (True, fs)
        else (case read_bytes KEY_SIZE bs of
                Inl _ \<Rightarrow> (False, fs)
              | Inr (key, rest) \<Rightarrow>
                  parse_extra_loop seen_padding True seen_nonce seen_mm (fs @ [ExtraPublicKey key]) rest)
      else if c = TX_EXTRA_NONCE then
        if seen_nonce then (True, fs)
        else (case read_nonce bs of
                Inl _ \<Rightarrow> (False, fs)
              | Inr (n, rest) \<Rightarrow>
                  parse_extra_loop seen_padding seen_pubkey True seen_mm (fs @ [ExtraNonce n]) rest)
      else if c = TX_EXTRA_MERGE_MINING_TAG then
        if seen_mm then parse_extra_loop seen_padding seen_pubkey seen_nonce seen_mm fs bs
        else (case read_MergeMiningTag bs of
                Inl _ \<Rightarrow> (False, fs)
              | Inr ((d, root), rest) \<Rightarrow>
                  parse_extra_loop seen_padding seen_pubkey seen_nonce True
                    (fs @ [ExtraMergeMiningTag d root]) rest)
      else parse_extra_loop seen_padding seen_pubkey seen_nonce seen_mm fs bs)"
  by pat_completeness auto
termination
  by (relation "measure (\<lambda>(_, _, _, _, _, bs). length bs)")
    (auto dest!: read_padding_rest read_bytes_consumes read_nonce_consumes read_MergeMiningTag_consumes)

definition parseTransactionExtra :: "bytes \<Rightarrow> bool \<times> TransactionExtraField list" where
  "parseTransactionExtra transactionExtra =
     (if transactionExtra = [] then (True, [])
      else parse_extra_loop False False False False [] transactionExtra)"

section \<open>Writing\<close>

definition addTransactionPublicKeyToExtra :: "bytes \<Rightarrow> bytes \<Rightarrow> bytes" where
  "addTransactionPublicKeyToExtra tx_extra tx_pub_key = tx_extra @ TX_EXTRA_TAG_PUBKEY # tx_pub_key"

definition addExtraNonceToTransactionExtra :: "bytes \<Rightarrow> bytes \<Rightarrow> bytes option" where
  "addExtraNonceToTransactionExtra tx_extra extra_nonce =
     (if TX_EXTRA_NONCE_MAX_COUNT < length extra_nonce then None
      else Some (tx_extra @ TX_EXTRA_NONCE # of_nat (length extra_nonce) # extra_nonce))"

definition appendMergeMiningTagToExtra :: "bytes \<Rightarrow> u64 \<Rightarrow> bytes \<Rightarrow> bytes option" where
  "appendMergeMiningTagToExtra tx_extra d root =
     Some (tx_extra @ TX_EXTRA_MERGE_MINING_TAG # write_MergeMiningTag d root)"

definition writeExtraField :: "bytes \<Rightarrow> TransactionExtraField \<Rightarrow> bytes option" where
  "writeExtraField tx_extra field =
     (case field of
        ExtraPadding sz \<Rightarrow>
          if TX_EXTRA_PADDING_MAX_COUNT < sz then None else Some (tx_extra @ replicate sz 0)
      | ExtraPublicKey key \<Rightarrow> Some (addTransactionPublicKeyToExtra tx_extra key)
      | ExtraNonce n \<Rightarrow> addExtraNonceToTransactionExtra tx_extra n
      | ExtraMergeMiningTag d root \<Rightarrow> appendMergeMiningTagToExtra tx_extra d root)"

fun writeTransactionExtra :: "bytes \<Rightarrow> TransactionExtraField list \<Rightarrow> bytes option" where
  "writeTransactionExtra tx_extra [] = Some tx_extra"
| "writeTransactionExtra tx_extra (field # fs) =
     do { tx_extra \<leftarrow> writeExtraField tx_extra field; writeTransactionExtra tx_extra fs }"

section \<open>Looking fields up\<close>

definition getTransactionPublicKeyFromExtra :: "bytes \<Rightarrow> bytes" where
  "getTransactionPublicKeyFromExtra tx_extra =
     (case find is_ExtraPublicKey (snd (parseTransactionExtra tx_extra)) of
        None \<Rightarrow> replicate KEY_SIZE 0
      | Some field \<Rightarrow> publicKey field)"

definition getMergeMiningTagFromExtra :: "bytes \<Rightarrow> (u64 \<times> bytes) option" where
  "getMergeMiningTagFromExtra tx_extra =
     map_option (\<lambda>f. (depth f, merkleRoot f))
       (find is_ExtraMergeMiningTag (snd (parseTransactionExtra tx_extra)))"

definition setPaymentIdToTransactionExtraNonce :: "bytes \<Rightarrow> bytes" where
  "setPaymentIdToTransactionExtraNonce payment_id = TX_EXTRA_NONCE_PAYMENT_ID # payment_id"

definition getPaymentIdFromTransactionExtraNonce :: "bytes \<Rightarrow> bytes option" where
  "getPaymentIdFromTransactionExtraNonce extra_nonce =
     (if KEY_SIZE + 1 \<noteq> length extra_nonce then None
      else if TX_EXTRA_NONCE_PAYMENT_ID \<noteq> extra_nonce ! 0 then None
      else Some (drop 1 extra_nonce))"

definition parsePaymentId :: "string \<Rightarrow> bytes option" where
  "parsePaymentId paymentIdString = podFromHex KEY_SIZE paymentIdString"

definition createTxExtraWithPaymentId :: "string \<Rightarrow> bytes \<Rightarrow> bytes option" where
  "createTxExtraWithPaymentId paymentIdString tx_extra =
     do {
       paymentIdBin \<leftarrow> parsePaymentId paymentIdString;
       addExtraNonceToTransactionExtra tx_extra (setPaymentIdToTransactionExtraNonce paymentIdBin)
     }"

definition getPaymentIdFromTxExtra :: "bytes \<Rightarrow> bytes option" where
  "getPaymentIdFromTxExtra tx_extra =
     (let (ok, fs) = parseTransactionExtra tx_extra
      in if \<not> ok then None
         else case find is_ExtraNonce fs of
                None \<Rightarrow> None
              | Some field \<Rightarrow> getPaymentIdFromTransactionExtraNonce (nonce_bytes field))"

section \<open>What is written is parsed back\<close>

text \<open>Fields that the writers encode without loss; padding has to come last.\<close>

fun valid_ExtraField :: "TransactionExtraField \<Rightarrow> bool" where
  "valid_ExtraField (ExtraPadding sz) \<longleftrightarrow> 1 \<le> sz \<and> sz \<le> TX_EXTRA_PADDING_MAX_COUNT"
| "valid_ExtraField (ExtraPublicKey key) \<longleftrightarrow> length key = KEY_SIZE"
| "valid_ExtraField (ExtraNonce n) \<longleftrightarrow> length n \<le> TX_EXTRA_NONCE_MAX_COUNT"
| "valid_ExtraField (ExtraMergeMiningTag d root) \<longleftrightarrow> length root = KEY_SIZE"

lemma length_writeVarint_bound: "unat v < 2 ^ (7 * Suc n) \<Longrightarrow> length (writeVarint v) \<le> Suc n"
proof (induction n arbitrary: v)
  case 0
  then show ?case by (subst writeVarint.simps) (simp add: word_le_nat_alt)
next
  case (Suc n)
  have "unat v < 2 ^ (7 * Suc n) * 2 ^ 7"
    using Suc.prems unfolding power_add [symmetric] by (simp add: add.commute)
  then have "unat (drop_bit 7 v) < 2 ^ (7 * Suc n)"
    by (simp only: unat_drop_bit_div less_mult_imp_div_less)
  from Suc.IH [OF this] show ?case by (subst writeVarint.simps) simp
qed

lemma length_writeVarint: "length (writeVarint v) \<le> 10"
proof -
  have "unat v < 2 ^ (7 * Suc 9)" by (rule less_trans [OF unat_lt_u64]) simp
  from length_writeVarint_bound [OF this] show ?thesis by simp
qed

lemma read_int_byte: "read_int (b # bs) = Inr (b :: u8, bs)"
proof -
  have "write_int b = [b]" by (simp add: write_int_def)
  then show ?thesis using int8.roundtrip [of b bs] by simp
qed

lemma read_write_MergeMiningTag:
  "length root = KEY_SIZE \<Longrightarrow> read_MergeMiningTag (write_MergeMiningTag d root @ rest) = Inr ((d, root), rest)"
proof -
  assume "length root = KEY_SIZE"
  moreover from this have "length (writeVarint d @ root) < 2 ^ 64 \<and>
      (''mm_tag'' = ''mm_tag'' \<longrightarrow> length (writeVarint d @ root) \<le> MAX_EXTRA_SIZE)"
    using length_writeVarint [of d] by (simp add: KEY_SIZE_def MAX_EXTRA_SIZE_def)
  ultimately show ?thesis
    by (simp add: read_MergeMiningTag_def write_MergeMiningTag_def string_codec.bind_enc
        varint64.bind_enc read_bytes_eq bind_r_Inr return_r_def)
qed

lemma read_write_nonce:
  "length n \<le> TX_EXTRA_NONCE_MAX_COUNT \<Longrightarrow> read_nonce (of_nat (length n) # n @ rest) = Inr (n, rest)"
  by (cases n) (simp_all add: read_nonce_def bind_r_def read_int_byte TX_EXTRA_NONCE_MAX_COUNT_def
      unat_of_nat read_bytes_eq return_r_def word_less_nat_alt del: of_nat_Suc)

lemma read_padding_zeros:
  "sz + n \<le> TX_EXTRA_PADDING_MAX_COUNT \<Longrightarrow> read_padding sz (replicate n 0) = Some (sz + n, [])"
  by (induction n arbitrary: sz) simp_all

text \<open>The kinds of fields seen so far, as the four flags of the loop.\<close>

abbreviation parse_from :: "TransactionExtraField list \<Rightarrow> bytes \<Rightarrow> bool \<times> TransactionExtraField list" where
  "parse_from fs \<equiv> parse_extra_loop (list_ex is_ExtraPadding fs) (list_ex is_ExtraPublicKey fs)
     (list_ex is_ExtraNonce fs) (list_ex is_ExtraMergeMiningTag fs) fs"

definition same_kind :: "TransactionExtraField \<Rightarrow> TransactionExtraField \<Rightarrow> bool" where
  "same_kind f g \<longleftrightarrow> (is_ExtraPadding f = is_ExtraPadding g \<and> is_ExtraPublicKey f = is_ExtraPublicKey g \<and>
     is_ExtraNonce f = is_ExtraNonce g \<and> is_ExtraMergeMiningTag f = is_ExtraMergeMiningTag g)"

lemma parse_from_field:
  assumes "valid_ExtraField f" "\<not> list_ex (same_kind f) fs" "is_ExtraPadding f \<Longrightarrow> rest = []"
    "writeExtraField tx_extra f = Some (tx_extra @ bs)"
  shows "parse_from fs (bs @ rest) = parse_from (fs @ [f]) rest"
proof (cases f)
  case (ExtraPadding sz)
  then obtain n where sz: "sz = Suc n" "bs = 0 # replicate n 0" "n < TX_EXTRA_PADDING_MAX_COUNT"
    using assms by (cases sz) (auto simp: writeExtraField_def split: if_splits)
  have "\<not> list_ex is_ExtraPadding fs"
    using assms(2) ExtraPadding by (auto simp: list_ex_iff same_kind_def is_ExtraPadding_def)
  with sz show ?thesis using assms(3) ExtraPadding read_padding_zeros [of 1 n]
    by (simp add: tx_extra_tags)
next
  case (ExtraPublicKey key)
  then have "\<not> list_ex is_ExtraPublicKey fs"
    using assms(2) by (auto simp: list_ex_iff same_kind_def is_ExtraPublicKey_def)
  then show ?thesis using assms ExtraPublicKey
    by (auto simp: tx_extra_tags writeExtraField_def addTransactionPublicKeyToExtra_def fixed_bytes.roundtrip)
next
  case (ExtraNonce n)
  then have "\<not> list_ex is_ExtraNonce fs"
    using assms(2) by (auto simp: list_ex_iff same_kind_def is_ExtraNonce_def)
  then show ?thesis using assms ExtraNonce
    by (auto simp: tx_extra_tags writeExtraField_def addExtraNonceToTransactionExtra_def read_write_nonce split: if_splits)
next
  case (ExtraMergeMiningTag d root)
  then have "\<not> list_ex is_ExtraMergeMiningTag fs"
    using assms(2) by (auto simp: list_ex_iff same_kind_def is_ExtraMergeMiningTag_def)
  then show ?thesis using assms ExtraMergeMiningTag
    by (auto simp: tx_extra_tags writeExtraField_def appendMergeMiningTagToExtra_def read_write_MergeMiningTag)
qed

lemma writeExtraField_appends:
  "valid_ExtraField f \<Longrightarrow> \<exists>bs. \<forall>tx_extra. writeExtraField tx_extra f = Some (tx_extra @ bs)"
  by (cases f) (auto simp: writeExtraField_def addTransactionPublicKeyToExtra_def
      addExtraNonceToTransactionExtra_def appendMergeMiningTagToExtra_def)

fun distinct_kinds :: "TransactionExtraField list \<Rightarrow> bool" where
  "distinct_kinds [] = True"
| "distinct_kinds (f # fs) \<longleftrightarrow> \<not> list_ex (same_kind f) fs \<and> distinct_kinds fs"

lemma distinct_kinds_middle: "distinct_kinds (xs @ f # ys) \<Longrightarrow> \<not> list_ex (same_kind f) xs"
  by (induction xs) (auto simp: same_kind_def list_ex_iff)

definition writable_fields :: "TransactionExtraField list \<Rightarrow> bool" where
  "writable_fields fs \<longleftrightarrow> list_all valid_ExtraField fs \<and> distinct_kinds fs \<and>
     list_all (\<lambda>f. \<not> is_ExtraPadding f) (butlast fs)"

lemma writeTransactionExtra_parse:
  assumes "list_all valid_ExtraField fs" "distinct_kinds (done @ fs)"
    "list_all (\<lambda>f. \<not> is_ExtraPadding f) (butlast fs)"
  shows "\<exists>bs. (\<forall>tx_extra. writeTransactionExtra tx_extra fs = Some (tx_extra @ bs)) \<and>
    parse_from done bs = (True, done @ fs)"
  using assms
proof (induction fs arbitrary: "done")
  case (Cons f fs)
  obtain b where b: "\<And>tx_extra. writeExtraField tx_extra f = Some (tx_extra @ b)"
    using writeExtraField_appends [of f] Cons.prems(1) by auto
  obtain bs where bs: "\<And>tx_extra. writeTransactionExtra tx_extra fs = Some (tx_extra @ bs)"
    "parse_from (done @ [f]) bs = (True, (done @ [f]) @ fs)"
    using Cons.IH [of "done @ [f]"] Cons.prems by (auto split: if_splits)
  have "parse_from done (b @ bs) = parse_from (done @ [f]) bs"
  proof (rule parse_from_field [OF _ _ _ b])
    show "\<not> list_ex (same_kind f) done"
      using Cons.prems(2) distinct_kinds_middle by blast
    show "is_ExtraPadding f \<Longrightarrow> bs = []"
      using Cons.prems(3) bs(1) [of "[]"] by (cases fs) auto
  qed (use Cons.prems in simp)
  with bs b show ?case by (intro exI [of _ "b @ bs"]) simp
qed simp

lemma parse_from_Nil: "parse_from [] bs = parseTransactionExtra bs"
  by (simp add: parseTransactionExtra_def)

lemma write_then_parse:
  assumes "writable_fields fs"
  obtains bs where "\<And>tx_extra. writeTransactionExtra tx_extra fs = Some (tx_extra @ bs)"
    "parseTransactionExtra bs = (True, fs)"
  using writeTransactionExtra_parse [of fs "[]"] assms parse_from_Nil
  by (auto simp: writable_fields_def)

text \<open>C35: Writing fields to an empty extra and parsing it gives the same fields, for every list of
  valid fields with at most one of each kind and with padding, if any, at the end.\<close>

theorem parse_writeTransactionExtra:
  assumes "writable_fields fs"
  shows "\<exists>extra. writeTransactionExtra [] fs = Some extra \<and> parseTransactionExtra extra = (True, fs)"
proof -
  obtain bs where "writeTransactionExtra [] fs = Some ([] @ bs)" "parseTransactionExtra bs = (True, fs)"
    using write_then_parse [OF assms] by metis
  then show ?thesis by simp
qed

lemma parse_writeTransactionExtra_witness:
  "writable_fields [ExtraPublicKey (replicate 32 7), ExtraNonce [0, 1, 2], ExtraMergeMiningTag 3 (replicate 32 9), ExtraPadding 5] \<and>
   (\<exists>extra. writeTransactionExtra [] [ExtraPublicKey (replicate 32 7), ExtraNonce [0, 1, 2], ExtraMergeMiningTag 3 (replicate 32 9), ExtraPadding 5] = Some extra \<and>
     parseTransactionExtra extra = (True, [ExtraPublicKey (replicate 32 7), ExtraNonce [0, 1, 2], ExtraMergeMiningTag 3 (replicate 32 9), ExtraPadding 5]))"
proof -
  have "writable_fields [ExtraPublicKey (replicate 32 7), ExtraNonce [0, 1, 2], ExtraMergeMiningTag 3 (replicate 32 9), ExtraPadding 5]"
    by (simp add: writable_fields_def same_kind_def KEY_SIZE_def TX_EXTRA_NONCE_MAX_COUNT_def TX_EXTRA_PADDING_MAX_COUNT_def)
  with parse_writeTransactionExtra [OF this] show ?thesis by blast
qed

text \<open>A transaction extra made of the transaction public key and of a payment id given as
  hexadecimal text yields the same payment id and the same key when it is read.\<close>

theorem payment_id_roundtrip:
  assumes "length key = KEY_SIZE" "length payment_id = KEY_SIZE"
  shows "\<exists>extra. createTxExtraWithPaymentId (toHex payment_id) (addTransactionPublicKeyToExtra [] key) = Some extra \<and>
    getPaymentIdFromTxExtra extra = Some payment_id \<and> getTransactionPublicKeyFromExtra extra = key"
proof -
  let ?fs = "[ExtraPublicKey key, ExtraNonce (TX_EXTRA_NONCE_PAYMENT_ID # payment_id)]"
  have "writable_fields ?fs"
    using assms by (simp add: writable_fields_def same_kind_def KEY_SIZE_def TX_EXTRA_NONCE_MAX_COUNT_def)
  then obtain extra where extra: "writeTransactionExtra [] ?fs = Some ([] @ extra)" "parseTransactionExtra extra = (True, ?fs)"
    using write_then_parse by metis
  have "createTxExtraWithPaymentId (toHex payment_id) (addTransactionPublicKeyToExtra [] key) = Some extra"
    using extra(1) podFromHex_toHex [of payment_id] assms
    by (simp add: createTxExtraWithPaymentId_def parsePaymentId_def setPaymentIdToTransactionExtraNonce_def
        writeExtraField_def bind_eq_Some_conv)
  moreover have "getPaymentIdFromTxExtra extra = Some payment_id" "getTransactionPublicKeyFromExtra extra = key"
    using extra(2) assms
    by (simp_all add: getPaymentIdFromTxExtra_def getTransactionPublicKeyFromExtra_def
        getPaymentIdFromTransactionExtraNonce_def)
  ultimately show ?thesis by blast
qed

lemma payment_id_roundtrip_witness:
  "\<exists>extra. createTxExtraWithPaymentId (toHex (replicate 32 1)) (addTransactionPublicKeyToExtra [] (replicate 32 2)) = Some extra \<and>
    getPaymentIdFromTxExtra extra = Some (replicate 32 1) \<and> getTransactionPublicKeyFromExtra extra = replicate 32 2"
  by (rule payment_id_roundtrip) (simp_all add: KEY_SIZE_def)

end
