(* ===== verification/Tree_Hash.thy ===== *)
theory Tree_Hash
  imports Prelude
begin

text \<open>
  The Merkle tree of \<^verbatim>\<open>src/crypto/tree-hash.c\<close>.  The hash function is the
  argument \<open>h\<close>, any function on byte strings; a hash is the list of its bytes.
  The array \<open>ints\<close> on the stack is a list; an access outside an array is
  \<open>None\<close>.
\<close>

unbundle bit_operations_syntax

section \<open>The functions\<close>

text \<open>The loop that sets all bits below the highest one, and the step that keeps this one only.\<close>

definition smear_step :: "u64 \<Rightarrow> nat \<Rightarrow> u64" where
  "smear_step cnt i = cnt OR drop_bit i cnt"

definition tree_cnt :: "nat \<Rightarrow> nat" where
  "tree_cnt count =
     (let cnt = foldl smear_step (of_nat (count - 1)) [1, 2, 4, 8, 16, 32]
      in unat (cnt AND NOT (drop_bit 1 cnt)))"

text \<open>\<open>for (...; j < cnt; i += 2, ++j) cn_fast_hash(hashes[i], 2 * HASH_SIZE, ints[j])\<close>.\<close>

function pair_loop ::
  "(bytes \<Rightarrow> bytes) \<Rightarrow> bytes list \<Rightarrow> nat \<Rightarrow> nat \<Rightarrow> nat \<Rightarrow> bytes list \<Rightarrow> bytes list option" where
  "pair_loop h hashes i j cnt ints =
     (if j < cnt
      then if i + 1 < length hashes \<and> j < length ints
           then pair_loop h hashes (i + 2) (j + 1) cnt (ints[j := h (hashes ! i @ hashes ! (i + 1))])
           else None
      else Some ints)"
  by pat_completeness auto
termination
  by (relation "measure (\<lambda>(h, hashes, i, j, cnt, ints). cnt - j)") auto

text \<open>The same loop where the hashes read are in \<open>ints\<close> as well.\<close>

function fold_loop ::
  "(bytes \<Rightarrow> bytes) \<Rightarrow> nat \<Rightarrow> nat \<Rightarrow> nat \<Rightarrow> bytes list \<Rightarrow> bytes list option" where
  "fold_loop h i j cnt ints =
     (if j < cnt
      then if i + 1 < length ints \<and> j < length ints
           then fold_loop h (i + 2) (j + 1) cnt (ints[j := h (ints ! i @ ints ! (i + 1))])
           else None
      else Some ints)"
  by pat_completeness auto
termination
  by (relation "measure (\<lambda>(h, i, j, cnt, ints). cnt - j)") auto

function halve_loop :: "(bytes \<Rightarrow> bytes) \<Rightarrow> nat \<Rightarrow> bytes list \<Rightarrow> bytes list option" where
  "halve_loop h cnt ints =
     (if 2 < cnt
      then do { ints \<leftarrow> fold_loop h 0 0 (cnt div 2) ints; halve_loop h (cnt div 2) ints }
      else Some ints)"
  by pat_completeness auto
termination
  by (relation "measure (\<lambda>(h, cnt, ints). cnt)") auto

declare pair_loop.simps [simp del] fold_loop.simps [simp del] halve_loop.simps [simp del]

definition tree_hash :: "(bytes \<Rightarrow> bytes) \<Rightarrow> bytes list \<Rightarrow> bytes option" where
  "tree_hash h hashes =
     (let count = length hashes
      in if count = 0 then None
         else if count = 1 then Some (hashes ! 0)
         else if count = 2 then Some (h (hashes ! 0 @ hashes ! 1))
         else let cnt = tree_cnt count;
                  ints = take (2 * cnt - count) hashes @ replicate (cnt - (2 * cnt - count)) []
              in do {
                   ints \<leftarrow> pair_loop h hashes (2 * cnt - count) (2 * cnt - count) cnt ints;
                   ints \<leftarrow> halve_loop h cnt ints;
                   (if 1 < length ints then Some (h (ints ! 0 @ ints ! 1)) else None)
                 })"

text \<open>
  The loops over \<open>i\<close>, which starts at \<open>sizeof(size_t) << 2\<close> and is halved down to
  one, with their bodies.
\<close>

definition depth_step :: "nat \<times> nat \<Rightarrow> nat \<Rightarrow> nat \<times> nat" where
  "depth_step = (\<lambda>(count, depth) i.
     if 0 < drop_bit i count then (drop_bit i count, depth + i) else (count, depth))"

definition tree_depth :: "nat \<Rightarrow> nat" where
  "tree_depth count = snd (foldl depth_step (count, 0) [32, 16, 8, 4, 2, 1])"

definition cnt_step :: "nat \<Rightarrow> nat \<times> nat \<Rightarrow> nat \<Rightarrow> nat \<times> nat" where
  "cnt_step count = (\<lambda>(cnt, depth) i.
     if push_bit i cnt \<le> count then (push_bit i cnt, depth + i) else (cnt, depth))"

definition branch_cnt :: "nat \<Rightarrow> nat \<times> nat" where
  "branch_cnt count = foldl (cnt_step count) (1, 0) [32, 16, 8, 4, 2, 1]"

fun branch_loop ::
  "(bytes \<Rightarrow> bytes) \<Rightarrow> nat \<Rightarrow> nat \<Rightarrow> bytes list \<Rightarrow> bytes list \<Rightarrow> bytes list option" where
  "branch_loop h cnt 0 ints branch = Some branch"
| "branch_loop h cnt (Suc depth) ints branch =
     (let cnt = cnt div 2
      in if ints = [] \<or> \<not> depth < length branch then None
         else do {
           ints' \<leftarrow> fold_loop h 1 0 (cnt - 1) ints;
           branch_loop h cnt depth ints' (branch[depth := ints ! 0])
         })"

text \<open>The caller provides room for \<open>tree_depth\<close> hashes.\<close>

definition tree_branch :: "(bytes \<Rightarrow> bytes) \<Rightarrow> bytes list \<Rightarrow> bytes list option" where
  "tree_branch h hashes =
     (let count = length hashes; (cnt, depth) = branch_cnt count
      in if count = 0 then None
         else let ints = take (2 * cnt - count - 1) (drop 1 hashes) @
                    replicate ((cnt - 1) - (2 * cnt - count - 1)) []
              in do {
                   ints \<leftarrow> pair_loop h hashes (2 * cnt - count) (2 * cnt - count - 1) (cnt - 1) ints;
                   branch_loop h cnt depth ints (replicate depth [])
                 })"

definition path_bit :: "bytes option \<Rightarrow> nat \<Rightarrow> bool" where
  "path_bit path depth =
     (case path of None \<Rightarrow> False | Some p \<Rightarrow> (p ! drop_bit 3 depth) AND push_bit (depth AND 7) 1 \<noteq> 0)"

fun from_branch_loop ::
  "(bytes \<Rightarrow> bytes) \<Rightarrow> bytes list \<Rightarrow> bytes option \<Rightarrow> bytes \<Rightarrow> nat \<Rightarrow> bool \<Rightarrow> bytes \<times> bytes \<Rightarrow> (bytes \<times> bytes) option" where
  "from_branch_loop h branch path leaf 0 from_leaf buffer = Some buffer"
| "from_branch_loop h branch path leaf (Suc depth) from_leaf buffer =
     (if depth < length branch
      then let v = (if from_leaf then leaf else h (fst buffer @ snd buffer))
           in from_branch_loop h branch path leaf depth False
                (if path_bit path depth then (branch ! depth, v) else (v, branch ! depth))
      else None)"

definition tree_hash_from_branch ::
  "(bytes \<Rightarrow> bytes) \<Rightarrow> bytes list \<Rightarrow> nat \<Rightarrow> bytes \<Rightarrow> bytes option \<Rightarrow> bytes option" where
  "tree_hash_from_branch h branch depth leaf path =
     (if depth = 0 then Some leaf
      else do {
        buffer \<leftarrow> from_branch_loop h branch path leaf depth True ([], []);
        Some (h (fst buffer @ snd buffer))
      })"

section \<open>Powers of two\<close>

text \<open>Bit \<open>n\<close> of the smeared word is set when one of the bits \<open>n\<close> to \<open>n + k - 1\<close> of the word is.\<close>

definition smeared :: "u64 \<Rightarrow> nat \<Rightarrow> u64 \<Rightarrow> bool" where
  "smeared x k y \<longleftrightarrow> (\<forall>n. bit y n \<longleftrightarrow> (\<exists>m. n \<le> m \<and> m < n + k \<and> bit x m))"

lemma smear_step_smeared:
  assumes "smeared x k y" "k' = k + k" shows "smeared x k' (smear_step y k)"
  unfolding smeared_def
proof
  fix n
  have "bit (smear_step y k) n \<longleftrightarrow> bit y n \<or> bit y (n + k)"
    by (simp add: smear_step_def bit_or_iff bit_drop_bit_eq add.commute)
  also have "\<dots> \<longleftrightarrow> (\<exists>m. (n \<le> m \<and> m < n + k \<or> n + k \<le> m \<and> m < n + k + k) \<and> bit x m)"
    using assms(1) by (auto simp: smeared_def)
  also have "\<dots> \<longleftrightarrow> (\<exists>m. n \<le> m \<and> m < n + k' \<and> bit x m)"
  proof -
    have "n \<le> m \<and> m < n + k \<or> n + k \<le> m \<and> m < n + k + k \<longleftrightarrow> n \<le> m \<and> m < n + k'" for m
      using assms(2) by auto
    then show ?thesis by simp
  qed
  finally show "bit (smear_step y k) n \<longleftrightarrow> (\<exists>m. n \<le> m \<and> m < n + k' \<and> bit x m)" .
qed

lemma bit_smear: "bit (foldl smear_step x [1, 2, 4, 8, 16, 32]) n \<longleftrightarrow> (\<exists>m \<ge> n. bit x m)"
proof -
  have 1: "smeared x 1 x" by (auto simp: smeared_def le_less_Suc_eq)
  have 2: "smeared x 2 (smear_step x 1)" by (rule smear_step_smeared [OF 1]) simp
  have 3: "smeared x 4 (smear_step (smear_step x 1) 2)" by (rule smear_step_smeared [OF 2]) simp
  have 4: "smeared x 8 (foldl smear_step x [1, 2, 4])"
    unfolding foldl.simps by (rule smear_step_smeared [OF 3]) simp
  have 5: "smeared x 16 (foldl smear_step x [1, 2, 4, 8])"
    using smear_step_smeared [OF 4, of 16] by simp
  have 6: "smeared x 32 (foldl smear_step x [1, 2, 4, 8, 16])"
    using smear_step_smeared [OF 5, of 32] by simp
  have 7: "smeared x 64 (foldl smear_step x [1, 2, 4, 8, 16, 32])"
    using smear_step_smeared [OF 6, of 64] by simp
  have "m < n + 64" if "bit x m" for m using bit_imp_le_length [OF that] by simp
  with 7 show ?thesis unfolding smeared_def by blast
qed

text \<open>The highest power of two below \<open>count\<close>.\<close>

lemma word_top_bit:
  fixes x :: u64
  assumes "0 < unat x"
  obtains k where "bit x k" "\<forall>m. bit x m \<longrightarrow> m \<le> k" "2 ^ k \<le> unat x" "unat x < 2 ^ Suc k" "k < 64"
proof -
  obtain k where k: "2 ^ k \<le> unat x" "unat x < 2 ^ Suc k"
    using ex_power_ivl1 [of 2 "unat x"] assms by auto
  have b: "bit x m \<longleftrightarrow> odd (unat x div 2 ^ m)" for m
    using bit_unsigned_iff [of x m, where ?'a = nat] by (simp add: bit_iff_odd [of "unat x"])
  have "unat x div 2 ^ k = 1" using k by (intro div_nat_eqI) simp_all
  then have "bit x k" by (simp add: b)
  moreover have "m \<le> k" if "bit x m" for m
  proof (rule ccontr)
    assume "\<not> m \<le> k"
    then have "(2 :: nat) ^ Suc k \<le> 2 ^ m" by (intro power_increasing) auto
    then have "unat x div 2 ^ m = 0" using k(2) by (intro div_less) linarith
    with that show False by (simp add: b)
  qed
  ultimately show ?thesis using that [of k] k bit_imp_le_length [of x k] by simp
qed

lemma tree_cnt_spec:
  assumes "1 < count" "count \<le> 2 ^ 63"
  obtains k where "tree_cnt count = 2 ^ k" "2 ^ k < count" "count \<le> 2 * 2 ^ k"
proof -
  define x :: u64 where "x = of_nat (count - 1)"
  have x: "unat x = count - 1" unfolding x_def using assms by (intro unat_of_nat_u64) simp
  have pos: "0 < unat x" using x assms(1) by simp
  obtain k where k: "bit x k" "\<forall>m. bit x m \<longrightarrow> m \<le> k" "2 ^ k \<le> unat x" "unat x < 2 ^ Suc k" "k < 64"
    by (rule word_top_bit [OF pos])
  define y where "y = foldl smear_step x [1, 2, 4, 8, 16, 32]"
  have y: "bit y n \<longleftrightarrow> n \<le> k" for n unfolding y_def bit_smear using k(1,2) le_trans by blast
  have "y AND NOT (drop_bit 1 y) = 2 ^ k"
    by (rule bit_word_eqI) (auto simp: bit_simps y bit_exp_iff)
  then have "tree_cnt count = unat (2 ^ k :: u64)"
    by (simp only: tree_cnt_def Let_def x_def [symmetric] y_def [symmetric])
  also have "\<dots> = 2 ^ k"
    using k(5) power_strict_increasing [of k 64 "2 :: nat"] unat_of_nat_u64 [of "2 ^ k"] by simp
  finally show ?thesis using that k(3,4) x assms(1) by simp
qed

text \<open>The two searches of the highest power of two that is at most \<open>count\<close>.\<close>

definition depth_inv :: "nat \<Rightarrow> nat \<Rightarrow> nat \<times> nat \<Rightarrow> bool" where
  "depth_inv count w = (\<lambda>(c, dep). c = count div 2 ^ dep \<and> 1 \<le> c \<and> c < 2 ^ w)"

definition cnt_inv :: "nat \<Rightarrow> nat \<Rightarrow> nat \<times> nat \<Rightarrow> bool" where
  "cnt_inv count w = (\<lambda>(cnt, dep). cnt = 2 ^ dep \<and> cnt \<le> count \<and> count < 2 ^ (dep + w))"

lemma depth_inv_step:
  assumes "depth_inv count w s" "w = 2 * i"
  shows "depth_inv count i (depth_step s i)"
proof -
  obtain c dep where s: "s = (c, dep)" by (cases s)
  with assms have "c = count div 2 ^ dep" "1 \<le> c" "c < 2 ^ i * 2 ^ i"
    by (simp_all add: depth_inv_def mult_2 power_add)
  then show ?thesis
    by (auto simp: s depth_inv_def depth_step_def drop_bit_eq_div power_add div_mult2_eq
        less_mult_imp_div_less div_eq_0_iff)
qed

lemma cnt_inv_step:
  assumes "cnt_inv count w s" "w = 2 * i"
  shows "cnt_inv count i (cnt_step count s i)"
proof -
  obtain c dep where s: "s = (c, dep)" by (cases s)
  with assms have "c = 2 ^ dep" "c \<le> count" "count < 2 ^ dep * 2 ^ i * 2 ^ i"
    by (simp_all add: cnt_inv_def mult_2 power_add mult.assoc)
  then show ?thesis
    by (auto simp: s cnt_inv_def cnt_step_def push_bit_eq_mult power_add not_le)
qed

lemma tree_depth_spec:
  assumes "0 < count" "count < 2 ^ 64"
  shows "2 ^ tree_depth count \<le> count \<and> count < 2 * 2 ^ tree_depth count"
proof -
  have 0: "depth_inv count 64 (count, 0)" using assms by (simp add: depth_inv_def)
  have 1: "depth_inv count 32 (foldl depth_step (count, 0) [32])"
    using depth_inv_step [OF 0, of 32] by simp
  have 2: "depth_inv count 16 (foldl depth_step (count, 0) [32, 16])"
    using depth_inv_step [OF 1, of 16] by simp
  have 3: "depth_inv count 8 (foldl depth_step (count, 0) [32, 16, 8])"
    using depth_inv_step [OF 2, of 8] by simp
  have 4: "depth_inv count 4 (foldl depth_step (count, 0) [32, 16, 8, 4])"
    using depth_inv_step [OF 3, of 4] by simp
  have 5: "depth_inv count 2 (foldl depth_step (count, 0) [32, 16, 8, 4, 2])"
    using depth_inv_step [OF 4, of 2] by simp
  have "depth_inv count 1 (foldl depth_step (count, 0) [32, 16, 8, 4, 2, 1])"
    using depth_inv_step [OF 5, of 1] by simp
  then have "count div 2 ^ tree_depth count = 1"
    by (auto simp: depth_inv_def tree_depth_def case_prod_beta simp del: foldl.simps)
  moreover define D :: nat where "D = 2 ^ tree_depth count"
  ultimately have "count = D + count mod D" "count mod D < D"
    using div_mult_mod_eq [of count D] by simp_all
  then show ?thesis unfolding D_def by linarith
qed

lemma branch_cnt_spec:
  assumes "0 < count" "count < 2 ^ 64"
  obtains d where "branch_cnt count = (2 ^ d, d)" "2 ^ d \<le> count" "count < 2 * 2 ^ d"
proof -
  have 0: "cnt_inv count 64 (1, 0)" using assms by (simp add: cnt_inv_def)
  have 1: "cnt_inv count 32 (foldl (cnt_step count) (1, 0) [32])"
    using cnt_inv_step [OF 0, of 32] by simp
  have 2: "cnt_inv count 16 (foldl (cnt_step count) (1, 0) [32, 16])"
    using cnt_inv_step [OF 1, of 16] by simp
  have 3: "cnt_inv count 8 (foldl (cnt_step count) (1, 0) [32, 16, 8])"
    using cnt_inv_step [OF 2, of 8] by simp
  have 4: "cnt_inv count 4 (foldl (cnt_step count) (1, 0) [32, 16, 8, 4])"
    using cnt_inv_step [OF 3, of 4] by simp
  have 5: "cnt_inv count 2 (foldl (cnt_step count) (1, 0) [32, 16, 8, 4, 2])"
    using cnt_inv_step [OF 4, of 2] by simp
  have "cnt_inv count 1 (branch_cnt count)"
    unfolding branch_cnt_def using cnt_inv_step [OF 5, of 1] by simp
  then show ?thesis using that by (cases "branch_cnt count") (auto simp: cnt_inv_def)
qed

lemma power_interval_unique:
  assumes "(2::nat) ^ a \<le> n" "n < 2 * 2 ^ a" "2 ^ b \<le> n" "n < 2 * 2 ^ b"
  shows "a = b"
proof -
  have "(2::nat) ^ a < 2 ^ Suc b" "(2::nat) ^ b < 2 ^ Suc a" using assms by simp_all
  then have "a < Suc b" "b < Suc a" by (simp_all only: power_strict_increasing_iff one_less_numeral_iff semiring_norm)
  then show ?thesis by simp
qed

section \<open>The perfect tree\<close>

fun pairs :: "(bytes \<Rightarrow> bytes) \<Rightarrow> bytes list \<Rightarrow> bytes list" where
  "pairs h (a # b # xs) = h (a @ b) # pairs h xs"
| "pairs h xs = []"

fun perfect_root :: "(bytes \<Rightarrow> bytes) \<Rightarrow> nat \<Rightarrow> bytes list \<Rightarrow> bytes" where
  "perfect_root h 0 xs = xs ! 0"
| "perfect_root h (Suc k) xs = perfect_root h k (pairs h xs)"

text \<open>The lowest level has \<open>2 ^ k\<close> nodes: the first leaves alone, the others in pairs.\<close>

definition bottom :: "(bytes \<Rightarrow> bytes) \<Rightarrow> nat \<Rightarrow> bytes list \<Rightarrow> bytes list" where
  "bottom h cnt hashes =
     take (2 * cnt - length hashes) hashes @ pairs h (drop (2 * cnt - length hashes) hashes)"

lemma length_pairs: "length (pairs h xs) = length xs div 2"
  by (induction xs rule: pairs.induct) simp_all

lemma pair_loop_eq:
  assumes "j \<le> length ints" "i + 2 * (length ints - j) \<le> length hashes"
  shows "pair_loop h hashes i j (length ints) ints =
    Some (take j ints @ pairs h (take (2 * (length ints - j)) (drop i hashes)))"
  using assms
proof (induction "length ints - j" arbitrary: i j ints)
  case 0
  then show ?case by (subst pair_loop.simps) simp
next
  case (Suc m)
  let ?ints = "ints[j := h (hashes ! i @ hashes ! (i + 1))]"
  have j: "j < length ints" using Suc.hyps(2) by simp
  have i: "i + 1 < length hashes" using Suc.prems j by simp
  have two: "2 * (length ints - j) = Suc (Suc (2 * (length ints - (j + 1))))" using j by simp
  have "take (2 * (length ints - j)) (drop i hashes) =
      hashes ! i # hashes ! (i + 1) # take (2 * (length ints - (j + 1))) (drop (i + 2) hashes)"
    unfolding two using i by (simp add: take_Suc_conv_app_nth Cons_nth_drop_Suc [symmetric])
  moreover have "pair_loop h hashes (i + 2) (j + 1) (length ?ints) ?ints =
      Some (take (j + 1) ?ints @ pairs h (take (2 * (length ?ints - (j + 1))) (drop (i + 2) hashes)))"
    by (rule Suc.hyps(1)) (use Suc.hyps(2) Suc.prems j in simp_all)
  moreover have "take (j + 1) ?ints = take j ints @ [h (hashes ! i @ hashes ! (i + 1))]"
    using j by (simp add: take_Suc_conv_app_nth)
  ultimately show ?case using i j by (subst pair_loop.simps) simp
qed

text \<open>In place: position \<open>j\<close> is written when the hashes up to \<open>2 * j + off\<close> have been read.\<close>

lemma fold_loop_eq:
  assumes "j \<le> cnt" "i + 2 * (cnt - j) \<le> length ints" "j \<le> i"
  shows "fold_loop h i j cnt ints =
    Some (take j ints @ pairs h (take (2 * (cnt - j)) (drop i ints)) @ drop cnt ints)"
  using assms
proof (induction "cnt - j" arbitrary: i j ints)
  case 0
  then show ?case by (subst fold_loop.simps) simp
next
  case (Suc m)
  let ?v = "h (ints ! i @ ints ! (i + 1))"
  let ?ints = "ints[j := ?v]"
  have j: "j < cnt" "j < length ints" using Suc.hyps(2) Suc.prems by simp_all
  have i: "i + 1 < length ints" using Suc.prems j by simp
  have two: "2 * (cnt - j) = Suc (Suc (2 * (cnt - (j + 1))))" using j by simp
  have "take (2 * (cnt - j)) (drop i ints) =
      ints ! i # ints ! (i + 1) # take (2 * (cnt - (j + 1))) (drop (i + 2) ints)"
    unfolding two using i by (simp add: take_Suc_conv_app_nth Cons_nth_drop_Suc [symmetric])
  moreover have "fold_loop h (i + 2) (j + 1) cnt ?ints =
      Some (take (j + 1) ?ints @ pairs h (take (2 * (cnt - (j + 1))) (drop (i + 2) ?ints)) @ drop cnt ?ints)"
    by (rule Suc.hyps(1)) (use Suc.hyps(2) Suc.prems j in simp_all)
  moreover have "take (j + 1) ?ints = take j ints @ [?v]" "drop (i + 2) ?ints = drop (i + 2) ints"
    "drop cnt ?ints = drop cnt ints"
    using j Suc.prems(3) by (simp_all add: take_Suc_conv_app_nth)
  ultimately show ?case using i j by (subst fold_loop.simps) simp
qed

lemma halve_loop_eq:
  "length ints = 2 ^ Suc k \<Longrightarrow> \<exists>tail. halve_loop h (2 ^ Suc k) (ints @ rest) = Some tail \<and> 1 < length tail \<and>
     h (tail ! 0 @ tail ! 1) = perfect_root h (Suc k) ints"
proof (induction k arbitrary: ints rest)
  case 0
  then obtain a b where "ints = [a, b]" by (auto simp: length_Suc_conv numeral_2_eq_2)
  then show ?case by (subst halve_loop.simps) simp
next
  case (Suc k)
  have "fold_loop h 0 0 (2 ^ Suc k) (ints @ rest) = Some (pairs h ints @ drop (2 ^ Suc k) (ints @ rest))"
    using fold_loop_eq [of 0 "2 ^ Suc k" 0 "ints @ rest" h] Suc.prems by simp
  moreover have "length (pairs h ints) = 2 ^ Suc k" using Suc.prems by (simp add: length_pairs)
  moreover have "(2 :: nat) < 2 ^ Suc (Suc k)" by (induction k) simp_all
  ultimately show ?case
    using Suc.IH [of "pairs h ints" "drop (2 ^ Suc k) (ints @ rest)"]
    by (subst halve_loop.simps) simp
qed

section \<open>The tree and its branches\<close>

lemma length_bottom:
  "cnt \<le> length hashes \<Longrightarrow> length hashes \<le> 2 * cnt \<Longrightarrow> length (bottom h cnt hashes) = cnt"
  by (simp add: bottom_def length_pairs)

lemma tree_hash_eq:
  assumes "1 < length hashes" "length hashes \<le> 2 ^ 63"
  obtains k where "2 ^ k < length hashes" "length hashes \<le> 2 * 2 ^ k"
    "tree_hash h hashes = Some (perfect_root h k (bottom h (2 ^ k) hashes))"
proof -
  obtain k where k: "tree_cnt (length hashes) = 2 ^ k" "2 ^ k < length hashes" "length hashes \<le> 2 * 2 ^ k"
    using tree_cnt_spec [OF assms] .
  show ?thesis
  proof (cases "length hashes = 2")
    case True
    then obtain a b where ab: "hashes = [a, b]" by (auto simp: length_Suc_conv numeral_2_eq_2)
    have "k = 0" using k(2) True by (cases k) auto
    then show ?thesis using that [OF k(2,3)] ab by (simp add: tree_hash_def bottom_def)
  next
    case False
    let ?n = "2 * 2 ^ k - length hashes"
    let ?ints = "take ?n hashes @ replicate (2 ^ k - ?n) []"
    have "length hashes \<noteq> 1" "length hashes \<noteq> 0" using assms(1) by linarith+
    have n: "?n \<le> 2 ^ k" "length ?ints = 2 ^ k" using k(2,3) by simp_all
    have "pair_loop h hashes ?n ?n (length ?ints) ?ints =
        Some (take ?n ?ints @ pairs h (take (2 * (length ?ints - ?n)) (drop ?n hashes)))"
      by (rule pair_loop_eq) (use n k(2,3) in simp_all)
    also have "take ?n ?ints @ pairs h (take (2 * (length ?ints - ?n)) (drop ?n hashes)) = bottom h (2 ^ k) hashes"
      unfolding n(2) using k(2,3) by (simp add: bottom_def)
    finally have pl: "pair_loop h hashes ?n ?n (2 ^ k) ?ints = Some (bottom h (2 ^ k) hashes)"
      unfolding n(2) .
    obtain k' where k': "k = Suc k'" using k(3) False assms(1) by (cases k) auto
    obtain tail where "halve_loop h (2 ^ k) (bottom h (2 ^ k) hashes) = Some tail" "1 < length tail"
      "h (tail ! 0 @ tail ! 1) = perfect_root h k (bottom h (2 ^ k) hashes)"
      using halve_loop_eq [of "bottom h (2 ^ k) hashes" k' h "[]"] length_bottom [of "2 ^ k" hashes h] k(2,3)
      unfolding k' by auto
    then have "tree_hash h hashes = Some (perfect_root h k (bottom h (2 ^ k) hashes))"
      using pl False \<open>length hashes \<noteq> 1\<close> \<open>length hashes \<noteq> 0\<close> k(1) by (simp add: tree_hash_def Let_def)
    with that [OF k(2,3)] show ?thesis .
  qed
qed

text \<open>The hashes next to the path from the first leaf to the root, the highest one first.\<close>

fun siblings :: "(bytes \<Rightarrow> bytes) \<Rightarrow> nat \<Rightarrow> bytes list \<Rightarrow> bytes list" where
  "siblings h 0 xs = []"
| "siblings h (Suc d) xs = siblings h d (pairs h xs) @ [xs ! 1]"

lemma length_siblings [simp]: "length (siblings h d xs) = d"
  by (induction d arbitrary: xs) simp_all

lemma two_more:
  assumes "length xs = 2 ^ Suc d"
  obtains a b ys where "xs = a # b # ys" "length ys = 2 * (2 ^ d - 1)"
proof (cases xs)
  case (Cons a zs)
  then obtain b ys where "zs = b # ys" using assms by (cases zs) auto
  with Cons that assms show ?thesis by (simp add: diff_mult_distrib2)
qed (use assms in simp)

lemma branch_loop_eq:
  "length xs = 2 ^ d \<Longrightarrow> d \<le> length branch \<Longrightarrow>
   branch_loop h (2 ^ d) d (tl xs @ junk) branch = Some (siblings h d xs @ drop d branch)"
proof (induction d arbitrary: xs junk branch)
  case (Suc d)
  obtain a b ys where xs: "xs = a # b # ys" "length ys = 2 * (2 ^ d - 1)"
    using two_more [OF Suc.prems(1)] .
  have "fold_loop h 1 0 (2 ^ d - 1) (tl xs @ junk) =
      Some (take 0 (tl xs @ junk) @ pairs h (take (2 * (2 ^ d - 1 - 0)) (drop 1 (tl xs @ junk))) @
        drop (2 ^ d - 1) (tl xs @ junk))"
    by (rule fold_loop_eq) (simp_all add: xs)
  then have fl: "fold_loop h 1 0 (2 ^ d - 1) (tl xs @ junk) =
      Some (tl (pairs h xs) @ drop (2 ^ d - 1) (tl xs @ junk))"
    using xs by simp
  have "branch_loop h (2 ^ d) d (tl (pairs h xs) @ drop (2 ^ d - 1) (tl xs @ junk)) (branch[d := b]) =
      Some (siblings h d (pairs h xs) @ drop d (branch[d := b]))"
    by (rule Suc.IH) (use Suc.prems in \<open>simp_all add: length_pairs\<close>)
  moreover have "drop d (branch[d := b]) = b # drop (Suc d) branch"
    using Suc.prems(2) by (simp add: Cons_nth_drop_Suc [symmetric])
  ultimately show ?case using fl Suc.prems(2) xs(1) by simp
qed simp

lemma from_branch_loop_eq:
  assumes "length xs = 2 ^ Suc d" "take (Suc d) branch = siblings h (Suc d) xs"
    "(if from_leaf then leaf else h (fst buffer @ snd buffer)) = xs ! 0"
  shows "\<exists>x y. from_branch_loop h branch None leaf (Suc d) from_leaf buffer = Some (x, y) \<and>
    h (x @ y) = perfect_root h (Suc d) xs"
  using assms
proof (induction d arbitrary: xs from_leaf buffer)
  case 0
  then obtain a b where "xs = [a, b]" by (auto simp: length_Suc_conv numeral_2_eq_2)
  with 0 show ?case by (cases branch) (auto simp: path_bit_def)
next
  case (Suc d)
  obtain a b ys where xs: "xs = a # b # ys" using two_more [OF Suc.prems(1)] by metis
  have len: "Suc d < length branch"
    using arg_cong [OF Suc.prems(2), of length] by simp
  then have br: "branch ! Suc d = b" "take (Suc d) branch = siblings h (Suc d) (pairs h xs)"
    using Suc.prems(2) xs by (auto simp: take_Suc_conv_app_nth)
  have "\<exists>x y. from_branch_loop h branch None leaf (Suc d) False (a, b) = Some (x, y) \<and>
      h (x @ y) = perfect_root h (Suc d) (pairs h xs)"
    by (rule Suc.IH) (use Suc.prems(1) br(2) xs in \<open>simp_all add: length_pairs\<close>)
  then show ?case using Suc.prems(3) len br(1) xs
    by (simp add: path_bit_def del: from_branch_loop.simps(2)) (simp add: path_bit_def)
qed

lemma tree_branch_eq:
  assumes "0 < length hashes" "length hashes < 2 ^ 64"
  obtains d where "d = tree_depth (length hashes)" "2 ^ d \<le> length hashes" "length hashes < 2 * 2 ^ d"
    "tree_branch h hashes = Some (siblings h d (bottom h (2 ^ d) hashes))"
proof -
  obtain d where d: "branch_cnt (length hashes) = (2 ^ d, d)" "2 ^ d \<le> length hashes" "length hashes < 2 * 2 ^ d"
    by (rule branch_cnt_spec [OF assms])
  have "d = tree_depth (length hashes)"
    using power_interval_unique d(2,3) tree_depth_spec [OF assms] by blast
  let ?n = "2 * 2 ^ d - length hashes"
  let ?ints = "take (?n - 1) (drop 1 hashes) @ replicate (2 ^ d - 1 - (?n - 1)) []"
  have n: "1 \<le> ?n" "?n \<le> 2 ^ d" "length ?ints = 2 ^ d - 1" using d(2,3) assms(1) by auto
  have "pair_loop h hashes ?n (?n - 1) (length ?ints) ?ints =
      Some (take (?n - 1) ?ints @ pairs h (take (2 * (length ?ints - (?n - 1))) (drop ?n hashes)))"
    by (rule pair_loop_eq) (use n d(2,3) in auto)
  also have "take (?n - 1) ?ints @ pairs h (take (2 * (length ?ints - (?n - 1))) (drop ?n hashes)) =
      tl (bottom h (2 ^ d) hashes)"
  proof -
    have "tl (take ?n hashes) = take (?n - 1) (drop 1 hashes)"
      using n(1) by (cases hashes) (simp_all add: take_Cons')
    moreover have "take ?n hashes \<noteq> []" using n(1) assms(1) by auto
    ultimately show ?thesis unfolding n(3) using n(1,2) d(2) by (simp add: bottom_def)
  qed
  finally have "tree_branch h hashes = branch_loop h (2 ^ d) d (tl (bottom h (2 ^ d) hashes)) (replicate d [])"
    unfolding n(3) using d(1) assms(1) by (simp add: tree_branch_def Let_def)
  also have "\<dots> = Some (siblings h d (bottom h (2 ^ d) hashes))"
    using branch_loop_eq [of "bottom h (2 ^ d) hashes" d "replicate d []" h "[]"] length_bottom d(2,3) by simp
  finally show ?thesis using that \<open>d = tree_depth (length hashes)\<close> d(2,3) by blast
qed

text \<open>Both ways to cut off the leaves give the same root.\<close>

lemma tree_hash_perfect_root:
  assumes "0 < length hashes" "length hashes \<le> 2 ^ 63" "2 ^ d \<le> length hashes" "length hashes < 2 * 2 ^ d"
  shows "tree_hash h hashes = Some (perfect_root h d (bottom h (2 ^ d) hashes))"
proof (cases "length hashes = 1")
  case True
  then have "d = 0" using power_interval_unique [of d 1 0] assms(3,4) by simp
  then show ?thesis using True by (cases hashes) (auto simp: tree_hash_def bottom_def)
next
  case False
  then have "1 < length hashes" using assms(1) by linarith
  then obtain k where k: "2 ^ k < length hashes" "length hashes \<le> 2 * 2 ^ k"
    "tree_hash h hashes = Some (perfect_root h k (bottom h (2 ^ k) hashes))"
    by (rule tree_hash_eq [OF _ assms(2)])
  show ?thesis
  proof (cases "length hashes = 2 * 2 ^ k")
    case True
    then have "d = Suc k" using power_interval_unique [of d "length hashes" "Suc k"] assms(3,4) by simp
    with True k(3) show ?thesis by (simp add: bottom_def)
  next
    case False
    then have "d = k" using power_interval_unique [of d "length hashes" k] assms(3,4) k(1,2) by simp
    with k(3) show ?thesis by simp
  qed
qed

text \<open>C25: For every list of hashes the branch of the first one, computed by \<open>tree_branch\<close>, has
  \<open>tree_depth\<close> entries, and \<open>tree_hash_from_branch\<close> rebuilds from it the root that \<open>tree_hash\<close>
  computes; no loop of the three functions leaves its array.\<close>

theorem tree_branch_root:
  assumes "0 < length hashes" "length hashes \<le> 2 ^ 63"
  shows "\<exists>branch root. tree_branch h hashes = Some branch \<and> length branch = tree_depth (length hashes) \<and>
    tree_hash h hashes = Some root \<and>
    tree_hash_from_branch h branch (tree_depth (length hashes)) (hashes ! 0) None = Some root"
proof -
  have "length hashes < 2 ^ 64" using assms(2) by simp
  then obtain d where d: "d = tree_depth (length hashes)" "2 ^ d \<le> length hashes" "length hashes < 2 * 2 ^ d"
    "tree_branch h hashes = Some (siblings h d (bottom h (2 ^ d) hashes))"
    by (rule tree_branch_eq [OF assms(1)])
  let ?b = "bottom h (2 ^ d) hashes"
  have leaf: "hashes ! 0 = ?b ! 0"
    using d(3) assms(1) by (simp add: bottom_def nth_append)
  have "tree_hash_from_branch h (siblings h d ?b) d (hashes ! 0) None = Some (perfect_root h d ?b)"
  proof (cases d)
    case 0
    then show ?thesis using leaf by (simp add: tree_hash_from_branch_def)
  next
    case (Suc e)
    have "length ?b = 2 ^ Suc e" using length_bottom d(2,3) unfolding Suc by simp
    then show ?thesis
      using from_branch_loop_eq [of ?b e "siblings h d ?b" h True "hashes ! 0" "([], [])"] leaf
      unfolding Suc by (auto simp: tree_hash_from_branch_def simp del: siblings.simps from_branch_loop.simps perfect_root.simps)
  qed
  with d tree_hash_perfect_root [OF assms d(2,3)] show ?thesis by simp
qed

lemma tree_branch_root_witness:
  "\<exists>branch root. tree_branch rev [[1], [2], [3], [4], [5]] = Some branch \<and> length branch = tree_depth 5 \<and>
    tree_hash rev [[1], [2], [3], [4], [5]] = Some root \<and>
    tree_hash_from_branch rev branch (tree_depth 5) [1] None = Some root"
proof -
  have "length [[1], [2], [3], [4], [5 :: u8]] = 5" "[[1], [2], [3], [4], [5 :: u8]] ! 0 = [1]" by simp_all
  note tree_branch_root [of "[[1], [2], [3], [4], [5]]" rev, unfolded this]
  then show ?thesis by simp
qed

end
