(* ===== verification/Blocks.thy ===== *)
theory Blocks
  imports Tx_Extra Tree_Hash Base58
begin

text \<open>
  Blocks: their binary format in \<^verbatim>\<open>src/mevacoin_core/mevacoin_serialization.cpp\<close>
  and the byte arrays and hashes of \<^verbatim>\<open>src/mevacoin_core/cached_block.cpp\<close>.  A
  block of major version 2 or later is merge mined: its time stamp and its nonce are in the
  parent block.  \<open>cn_fast_hash\<close> and the proof of work hashes are arguments.
\<close>

section \<open>Data\<close>

record ParentBlock =
  pb_majorVersion :: u8
  pb_minorVersion :: u8
  pb_previousBlockHash :: bytes
  transactionCount :: u16
  baseTransactionBranch :: "bytes list"
  pb_baseTransaction :: BaseTransaction
  blockchainBranch :: "bytes list"

record BlockHeader =
  majorVersion :: u8
  minorVersion :: u8
  nonce :: u32
  timestamp :: u64
  previousBlockHash :: bytes

record BlockTemplate = BlockHeader +
  parentBlock :: ParentBlock
  baseTransaction :: Transaction
  transactionHashes :: "bytes list"

record AccountPublicAddress =
  spendPublicKey :: bytes
  viewPublicKey :: bytes

record AccountKeys =
  address :: AccountPublicAddress
  spendSecretKey :: bytes
  viewSecretKey :: bytes

record KeyPair =
  kp_publicKey :: bytes
  kp_secretKey :: bytes

record RawBlock =
  raw_block :: bytes
  raw_transactions :: "bytes list"

definition BLOCK_MAJOR_VERSION_1 :: u8 where "BLOCK_MAJOR_VERSION_1 = 1"
definition BLOCK_MAJOR_VERSION_2 :: u8 where "BLOCK_MAJOR_VERSION_2 = 2"
definition BLOCK_MAJOR_VERSION_3 :: u8 where "BLOCK_MAJOR_VERSION_3 = 3"
definition BLOCK_MAJOR_VERSION_4 :: u8 where "BLOCK_MAJOR_VERSION_4 = 4"
definition BLOCK_MAJOR_VERSION_5 :: u8 where "BLOCK_MAJOR_VERSION_5 = 5"

lemmas block_versions = BLOCK_MAJOR_VERSION_1_def BLOCK_MAJOR_VERSION_2_def BLOCK_MAJOR_VERSION_3_def
  BLOCK_MAJOR_VERSION_4_def BLOCK_MAJOR_VERSION_5_def

section \<open>Hash of the base transaction\<close>

definition base_hash_padding :: bytes where
  "base_hash_padding =
     [0xbc, 0x36, 0x78, 0x9e, 0x7a, 0x1e, 0x28, 0x14, 0x36, 0x46, 0x42, 0x29, 0x82, 0x8f, 0x81, 0x7d,
      0x66, 0x12, 0xf7, 0xb4, 0x77, 0xd6, 0x65, 0x91, 0xff, 0x96, 0xa9, 0xe0, 0x64, 0xbc, 0xc9, 0x8a] @
     replicate 32 0"

definition getBaseTransactionHash :: "(bytes \<Rightarrow> bytes) \<Rightarrow> BaseTransaction \<Rightarrow> bytes \<times> bool" where
  "getBaseTransactionHash cn_fast_hash tx =
     (if version tx < TRANSACTION_VERSION_2
      then getObjectHash cn_fast_hash (\<lambda>tx. Inr (write_BaseTransaction tx)) tx
      else let (hash, ok) = getObjectHash cn_fast_hash (\<lambda>tx. Inr (write_TransactionPrefix tx)) tx
           in if ok then (cn_fast_hash (hash @ base_hash_padding), True) else (hash, False))"

section \<open>Parent blocks\<close>

text \<open>
  \<open>serialize(ParentBlockSerializer&)\<close> on output.  The arguments \<open>hashing\<close> and
  \<open>headerOnly\<close> are its two flags, \<open>ts\<close> and \<open>n\<close> the time stamp and
  the nonce of the block.
\<close>

definition write_ParentBlock ::
  "(bytes \<Rightarrow> bytes) \<Rightarrow> bool \<Rightarrow> bool \<Rightarrow> u64 \<Rightarrow> u32 \<Rightarrow> ParentBlock \<Rightarrow> ser_error + bytes" where
  "write_ParentBlock cn_fast_hash hashing headerOnly ts n pb =
     (let start = writeVarint (ucast (pb_majorVersion pb)) @ writeVarint (ucast (pb_minorVersion pb)) @
            writeVarint ts @ pb_previousBlockHash pb @ write_int n;
          merkle = (if \<not> hashing then Some [] else
            let (minerTxHash, ok) = getBaseTransactionHash cn_fast_hash (pb_baseTransaction pb)
            in if \<not> ok then None
               else tree_hash_from_branch cn_fast_hash (baseTransactionBranch pb)
                      (length (baseTransactionBranch pb)) minerTxHash None);
          txNum = writeVarint (ucast (transactionCount pb))
      in case merkle of
           None \<Rightarrow> Inl TransactionHashError
         | Some mroot \<Rightarrow>
             if transactionCount pb < 1 then Inl WrongTransactionsNumber
             else if headerOnly then Inr (start @ mroot @ txNum)
             else if length (baseTransactionBranch pb) \<noteq> tree_depth (unat (transactionCount pb))
             then Inl WrongBranchSize
             else case getMergeMiningTagFromExtra (extra (pb_baseTransaction pb)) of
                    None \<Rightarrow> Inl NoMergeMiningTag
                  | Some (d, _) \<Rightarrow>
                      if 8 * KEY_SIZE < unat d then Inl WrongTagDepth
                      else if unat d \<noteq> length (blockchainBranch pb) then Inl BlockchainBranchSize
                      else Inr (start @ mroot @ txNum @ concat (baseTransactionBranch pb) @
                             write_BaseTransaction (pb_baseTransaction pb) @ concat (blockchainBranch pb)))"

text \<open>On input, with both flags \<open>false\<close>: the time stamp, the nonce and the parent block.\<close>

definition read_ParentBlock_tail :: "u8 \<Rightarrow> u8 \<Rightarrow> bytes \<Rightarrow> ParentBlock reader" where
  "read_ParentBlock_tail major minor prevId =
     bind_r readVarint (\<lambda>txNum :: u64.
       let count = ucast txNum :: u16
       in if count < 1 then fail_r WrongTransactionsNumber
          else bind_r (read_many (read_bytes KEY_SIZE) (tree_depth (unat count))) (\<lambda>branch.
               bind_r read_BaseTransaction (\<lambda>minerTx.
               case getMergeMiningTagFromExtra (extra minerTx) of
                 None \<Rightarrow> fail_r NoMergeMiningTag
               | Some (d, _) \<Rightarrow>
                   if 8 * KEY_SIZE < unat d then fail_r WrongTagDepth
                   else bind_r (read_many (read_bytes KEY_SIZE) (unat d)) (\<lambda>chain.
                        return_r \<lparr>pb_majorVersion = major, pb_minorVersion = minor,
                          pb_previousBlockHash = prevId, transactionCount = count,
                          baseTransactionBranch = branch, pb_baseTransaction = minerTx,
                          blockchainBranch = chain\<rparr>))))"

definition read_ParentBlock :: "(u64 \<times> u32 \<times> ParentBlock) reader" where
  "read_ParentBlock =
     bind_r readVarint (\<lambda>major.
     bind_r readVarint (\<lambda>minor.
     bind_r readVarint (\<lambda>ts.
     bind_r (read_bytes KEY_SIZE) (\<lambda>prevId.
     bind_r read_int (\<lambda>n.
     bind_r (read_ParentBlock_tail major minor prevId) (\<lambda>pb.
     return_r (ts, n, pb)))))))"

section \<open>Block templates\<close>

definition write_BlockHeader :: "'z BlockHeader_scheme \<Rightarrow> ser_error + bytes" where
  "write_BlockHeader header =
     (if BLOCK_MAJOR_VERSION_5 < majorVersion header then Inl WrongMajorVersion
      else let versions = writeVarint (ucast (majorVersion header)) @ writeVarint (ucast (minorVersion header))
           in if majorVersion header = BLOCK_MAJOR_VERSION_1
              then Inr (versions @ writeVarint (timestamp header) @ previousBlockHash header @
                     write_int (nonce header))
              else if BLOCK_MAJOR_VERSION_2 \<le> majorVersion header
              then Inr (versions @ previousBlockHash header)
              else Inl WrongMajorVersion)"

text \<open>The fields that the format does not contain keep the values of the object that is read into.\<close>

definition read_BlockHeader :: "BlockHeader \<Rightarrow> BlockHeader reader" where
  "read_BlockHeader init =
     bind_r readVarint (\<lambda>major.
       if BLOCK_MAJOR_VERSION_5 < major then fail_r WrongMajorVersion
       else bind_r readVarint (\<lambda>minor.
         if major = BLOCK_MAJOR_VERSION_1 then
           bind_r readVarint (\<lambda>ts.
           bind_r (read_bytes KEY_SIZE) (\<lambda>prev.
           bind_r read_int (\<lambda>n.
           return_r \<lparr>majorVersion = major, minorVersion = minor, nonce = n, timestamp = ts,
             previousBlockHash = prev\<rparr>)))
         else if BLOCK_MAJOR_VERSION_2 \<le> major then
           bind_r (read_bytes KEY_SIZE) (\<lambda>prev.
           return_r (init\<lparr>majorVersion := major, minorVersion := minor, previousBlockHash := prev\<rparr>))
         else fail_r WrongMajorVersion))"

definition bind_e :: "ser_error + 'a \<Rightarrow> ('a \<Rightarrow> ser_error + 'b) \<Rightarrow> ser_error + 'b" where
  "bind_e m f = (case m of Inl e \<Rightarrow> Inl e | Inr x \<Rightarrow> f x)"

definition write_BlockTemplate :: "(bytes \<Rightarrow> bytes) \<Rightarrow> BlockTemplate \<Rightarrow> ser_error + bytes" where
  "write_BlockTemplate cn_fast_hash b =
     bind_e (write_BlockHeader b) (\<lambda>header.
     bind_e (if BLOCK_MAJOR_VERSION_2 \<le> majorVersion b
             then write_ParentBlock cn_fast_hash False False (timestamp b) (nonce b) (parentBlock b)
             else Inr []) (\<lambda>parent.
     bind_e (write_Transaction (baseTransaction b)) (\<lambda>miner_tx.
     Inr (header @ parent @ miner_tx @ writeContainer (\<lambda>x. x) (transactionHashes b)))))"

definition read_BlockTemplate :: "BlockTemplate \<Rightarrow> BlockTemplate reader" where
  "read_BlockTemplate init =
     bind_r (read_BlockHeader (BlockHeader.truncate init)) (\<lambda>header.
     bind_r (if BLOCK_MAJOR_VERSION_2 \<le> majorVersion header then read_ParentBlock
             else return_r (timestamp header, nonce header, parentBlock init)) (\<lambda>(ts, n, parent).
     bind_r read_Transaction (\<lambda>miner_tx.
     bind_r (readContainer (read_bytes KEY_SIZE)) (\<lambda>hashes.
     return_r (BlockHeader.extend (header\<lparr>timestamp := ts, nonce := n\<rparr>)
       (BlockTemplate.fields parent miner_tx hashes))))))"

section \<open>Keys and raw blocks\<close>

definition write_AccountPublicAddress :: "AccountPublicAddress \<Rightarrow> bytes" where
  "write_AccountPublicAddress a = spendPublicKey a @ viewPublicKey a"

definition read_AccountPublicAddress :: "AccountPublicAddress reader" where
  "read_AccountPublicAddress =
     bind_r (read_bytes KEY_SIZE) (\<lambda>spend. bind_r (read_bytes KEY_SIZE) (\<lambda>view.
     return_r \<lparr>spendPublicKey = spend, viewPublicKey = view\<rparr>))"

definition write_AccountKeys :: "AccountKeys \<Rightarrow> bytes" where
  "write_AccountKeys keys =
     write_AccountPublicAddress (address keys) @ spendSecretKey keys @ viewSecretKey keys"

definition read_AccountKeys :: "AccountKeys reader" where
  "read_AccountKeys =
     bind_r read_AccountPublicAddress (\<lambda>a. bind_r (read_bytes KEY_SIZE) (\<lambda>spend.
     bind_r (read_bytes KEY_SIZE) (\<lambda>view.
     return_r \<lparr>address = a, spendSecretKey = spend, viewSecretKey = view\<rparr>)))"

definition write_KeyPair :: "KeyPair \<Rightarrow> bytes" where
  "write_KeyPair k = kp_secretKey k @ kp_publicKey k"

definition read_KeyPair :: "KeyPair reader" where
  "read_KeyPair =
     bind_r (read_bytes KEY_SIZE) (\<lambda>secret. bind_r (read_bytes KEY_SIZE) (\<lambda>public.
     return_r \<lparr>kp_publicKey = public, kp_secretKey = secret\<rparr>))"

definition write_blob :: "bytes \<Rightarrow> bytes" where
  "write_blob blob = writeVarint (of_nat (length blob)) @ blob"

definition read_blob :: "bytes reader" where
  "read_blob = bind_r readVarint (\<lambda>sz :: u64. read_bytes (unat sz))"

definition write_RawBlock :: "RawBlock \<Rightarrow> bytes" where
  "write_RawBlock b = write_blob (raw_block b) @ writeContainer write_blob (raw_transactions b)"

definition read_RawBlock :: "RawBlock reader" where
  "read_RawBlock =
     bind_r read_blob (\<lambda>b. bind_r (readContainer read_blob) (\<lambda>txs.
     return_r \<lparr>raw_block = b, raw_transactions = txs\<rparr>))"

section \<open>Cached blocks\<close>

text \<open>
  The members of \<open>CachedBlock\<close> compute a value once and keep it; the block they refer
  to does not change, so every call returns the value defined here.
\<close>

definition getTransactionTreeHash :: "(bytes \<Rightarrow> bytes) \<Rightarrow> BlockTemplate \<Rightarrow> bytes option" where
  "getTransactionTreeHash cn_fast_hash b =
     tree_hash cn_fast_hash
       (fst (getObjectHash cn_fast_hash write_Transaction (baseTransaction b)) # transactionHashes b)"

definition getBlockHashingBinaryArray :: "(bytes \<Rightarrow> bytes) \<Rightarrow> BlockTemplate \<Rightarrow> ser_error + bytes" where
  "getBlockHashingBinaryArray cn_fast_hash b =
     bind_e (write_BlockHeader b) (\<lambda>result.
       case getTransactionTreeHash cn_fast_hash b of
         None \<Rightarrow> Inl TransactionHashError
       | Some treeHash \<Rightarrow>
           Inr (result @ treeHash @ get_varint_data (of_nat (length (transactionHashes b) + 1))))"

definition getParentBlockBinaryArray :: "(bytes \<Rightarrow> bytes) \<Rightarrow> bool \<Rightarrow> BlockTemplate \<Rightarrow> ser_error + bytes" where
  "getParentBlockBinaryArray cn_fast_hash headerOnly b =
     write_ParentBlock cn_fast_hash False headerOnly (timestamp b) (nonce b) (parentBlock b)"

definition getParentBlockHashingBinaryArray ::
  "(bytes \<Rightarrow> bytes) \<Rightarrow> bool \<Rightarrow> BlockTemplate \<Rightarrow> ser_error + bytes" where
  "getParentBlockHashingBinaryArray cn_fast_hash headerOnly b =
     write_ParentBlock cn_fast_hash True headerOnly (timestamp b) (nonce b) (parentBlock b)"

text \<open>\<open>getObjectHash\<close> of a byte array hashes the array with its size in front.\<close>

definition getBlockHash :: "(bytes \<Rightarrow> bytes) \<Rightarrow> BlockTemplate \<Rightarrow> ser_error + bytes" where
  "getBlockHash cn_fast_hash b =
     bind_e (getBlockHashingBinaryArray cn_fast_hash b) (\<lambda>blockBinaryArray.
     bind_e (if BLOCK_MAJOR_VERSION_2 \<le> majorVersion b
             then getParentBlockHashingBinaryArray cn_fast_hash False b else Inr []) (\<lambda>parent.
     Inr (cn_fast_hash (write_string (blockBinaryArray @ parent)))))"

definition getAuxiliaryBlockHeaderHash :: "(bytes \<Rightarrow> bytes) \<Rightarrow> BlockTemplate \<Rightarrow> ser_error + bytes" where
  "getAuxiliaryBlockHeaderHash cn_fast_hash b =
     bind_e (getBlockHashingBinaryArray cn_fast_hash b) (\<lambda>a. Inr (cn_fast_hash (write_string a)))"

text \<open>The three proof of work hashes are the arguments after \<open>cn_fast_hash\<close>.\<close>

definition getBlockLongHash ::
  "(bytes \<Rightarrow> bytes) \<Rightarrow> (bytes \<Rightarrow> bytes) \<Rightarrow> (bytes \<Rightarrow> bytes) \<Rightarrow> (bytes \<Rightarrow> bytes) \<Rightarrow> BlockTemplate
   \<Rightarrow> ser_error + bytes" where
  "getBlockLongHash cn_fast_hash slow_v0 lite_v1 turtle_lite_v2 b =
     (if majorVersion b = BLOCK_MAJOR_VERSION_1
      then bind_e (getBlockHashingBinaryArray cn_fast_hash b) (\<lambda>a. Inr (slow_v0 a))
      else if majorVersion b = BLOCK_MAJOR_VERSION_2 \<or> majorVersion b = BLOCK_MAJOR_VERSION_3
      then bind_e (getParentBlockHashingBinaryArray cn_fast_hash True b) (\<lambda>a. Inr (slow_v0 a))
      else if majorVersion b = BLOCK_MAJOR_VERSION_4
      then bind_e (getParentBlockHashingBinaryArray cn_fast_hash True b) (\<lambda>a. Inr (lite_v1 a))
      else if BLOCK_MAJOR_VERSION_5 \<le> majorVersion b
      then bind_e (getParentBlockHashingBinaryArray cn_fast_hash True b) (\<lambda>a. Inr (turtle_lite_v2 a))
      else Inl WrongMajorVersion)"

definition getBlockIndex :: "BlockTemplate \<Rightarrow> u32" where
  "getBlockIndex b =
     (if length (inputs (baseTransaction b)) \<noteq> 1 then 0
      else case inputs (baseTransaction b) ! 0 of BaseInput index \<Rightarrow> index | KeyInput _ _ _ \<Rightarrow> 0)"

section \<open>Well formed blocks\<close>

definition valid_ParentBlock :: "ParentBlock \<Rightarrow> bool" where
  "valid_ParentBlock pb \<longleftrightarrow>
     length (pb_previousBlockHash pb) = KEY_SIZE \<and> 1 \<le> transactionCount pb \<and>
     length (baseTransactionBranch pb) = tree_depth (unat (transactionCount pb)) \<and>
     list_all (\<lambda>x. length x = KEY_SIZE) (baseTransactionBranch pb) \<and>
     valid_prefix_body (pb_baseTransaction pb) \<and>
     (case getMergeMiningTagFromExtra (extra (pb_baseTransaction pb)) of
        None \<Rightarrow> False
      | Some (d, _) \<Rightarrow> unat d \<le> 8 * KEY_SIZE \<and> unat d = length (blockchainBranch pb)) \<and>
     list_all (\<lambda>x. length x = KEY_SIZE) (blockchainBranch pb)"

text \<open>In a block of version 1 the parent block is what it was in the object that is read into.\<close>

definition valid_BlockTemplate :: "BlockTemplate \<Rightarrow> BlockTemplate \<Rightarrow> bool" where
  "valid_BlockTemplate init b \<longleftrightarrow>
     BLOCK_MAJOR_VERSION_1 \<le> majorVersion b \<and> majorVersion b \<le> BLOCK_MAJOR_VERSION_5 \<and>
     length (previousBlockHash b) = KEY_SIZE \<and>
     (if majorVersion b = BLOCK_MAJOR_VERSION_1 then parentBlock b = parentBlock init
      else valid_ParentBlock (parentBlock b)) \<and>
     valid_Transaction (baseTransaction b) \<and>
     length (transactionHashes b) < 2 ^ 64 \<and> list_all (\<lambda>x. length x = KEY_SIZE) (transactionHashes b)"

section \<open>Round trips\<close>

text \<open>A parent block with its transaction count written as \<open>txNum\<close>.\<close>

definition parent_bytes :: "u64 \<Rightarrow> u64 \<Rightarrow> u32 \<Rightarrow> ParentBlock \<Rightarrow> bytes" where
  "parent_bytes txNum ts n pb =
     writeVarint (ucast (pb_majorVersion pb)) @ writeVarint (ucast (pb_minorVersion pb)) @
     writeVarint ts @ pb_previousBlockHash pb @ write_int n @ writeVarint txNum @
     concat (baseTransactionBranch pb) @ write_BaseTransaction (pb_baseTransaction pb) @
     concat (blockchainBranch pb)"

lemma write_ParentBlock_eq:
  "valid_ParentBlock pb \<Longrightarrow>
   write_ParentBlock h False False ts n pb = Inr (parent_bytes (ucast (transactionCount pb)) ts n pb)"
  by (auto simp: write_ParentBlock_def valid_ParentBlock_def parent_bytes_def Let_def not_less
      split: option.splits)

lemma read_hashes:
  "list_all (\<lambda>x. length x = n) xs \<Longrightarrow> read_many (read_bytes n) (length xs) (concat xs @ rest) = Inr (xs, rest)"
  using fixed_bytes.read_many_roundtrip [of xs n rest] by (simp add: list_all_iff)

lemma read_ParentBlock_eq:
  assumes "valid_ParentBlock pb" "ucast txNum = transactionCount pb"
  shows "read_ParentBlock (parent_bytes txNum ts n pb @ rest) = Inr ((ts, n, pb), rest)"
proof -
  obtain d root where tag: "getMergeMiningTagFromExtra (extra (pb_baseTransaction pb)) = Some (d, root)"
    "unat d \<le> 8 * KEY_SIZE" "unat d = length (blockchainBranch pb)"
    using assms(1) by (auto simp: valid_ParentBlock_def split: option.splits)
  have "transactionCount pb \<noteq> 0" using assms(1) by (auto simp: valid_ParentBlock_def)
  then have "read_ParentBlock_tail (pb_majorVersion pb) (pb_minorVersion pb) (pb_previousBlockHash pb)
      (writeVarint txNum @ concat (baseTransactionBranch pb) @
       write_BaseTransaction (pb_baseTransaction pb) @ concat (blockchainBranch pb) @ rest) = Inr (pb, rest)"
    using assms tag read_hashes [of KEY_SIZE "blockchainBranch pb" rest]
      read_hashes [of KEY_SIZE "baseTransactionBranch pb"
        "write_BaseTransaction (pb_baseTransaction pb) @ concat (blockchainBranch pb) @ rest"]
    by (simp add: read_ParentBlock_tail_def valid_ParentBlock_def varint64.bind_enc bind_r_Inr
        base_transaction_codec.bind_enc Let_def return_r_def leD)
  then show ?thesis using assms(1)
    by (simp add: read_ParentBlock_def parent_bytes_def varint8.bind_enc varint64.bind_enc
        fixed_bytes.bind_enc int32.bind_enc bind_r_Inr return_r_def valid_ParentBlock_def)
qed

lemma version_cases:
  "BLOCK_MAJOR_VERSION_1 \<le> v \<Longrightarrow> v = BLOCK_MAJOR_VERSION_1 \<or> BLOCK_MAJOR_VERSION_2 \<le> v"
  by (simp add: block_versions word_le_nat_alt word_unat_eq_iff) linarith

lemma version_order [simp]:
  "\<not> BLOCK_MAJOR_VERSION_2 \<le> BLOCK_MAJOR_VERSION_1" "\<not> BLOCK_MAJOR_VERSION_5 < BLOCK_MAJOR_VERSION_1"
  by (simp_all add: block_versions word_le_nat_alt word_less_nat_alt)

lemma header_simps [simp]:
  "majorVersion (BlockHeader.truncate b) = majorVersion b" "timestamp (BlockHeader.truncate b) = timestamp b"
  "nonce (BlockHeader.truncate b) = nonce b"
  "BlockHeader.extend (BlockHeader.truncate b)
     (BlockTemplate.fields (parentBlock b) (baseTransaction b) (transactionHashes b)) = b"
  "BlockHeader.truncate b\<lparr>timestamp := timestamp b, nonce := nonce b\<rparr> = BlockHeader.truncate b"
  "i\<lparr>majorVersion := majorVersion b, minorVersion := minorVersion b,
     previousBlockHash := previousBlockHash b, timestamp := timestamp b, nonce := nonce b\<rparr> =
   BlockHeader.truncate b"
  by (simp_all add: BlockHeader.defs BlockTemplate.defs)

definition block_bytes :: "(u64 \<Rightarrow> u64) \<Rightarrow> BlockTemplate \<Rightarrow> bytes \<Rightarrow> bytes" where
  "block_bytes f b miner_tx =
     writeVarint (ucast (majorVersion b)) @ writeVarint (ucast (minorVersion b)) @
     (if majorVersion b = BLOCK_MAJOR_VERSION_1
      then writeVarint (timestamp b) @ previousBlockHash b @ write_int (nonce b)
      else previousBlockHash b @
        parent_bytes (f (ucast (transactionCount (parentBlock b)))) (timestamp b) (nonce b) (parentBlock b)) @
     miner_tx @ writeContainer (\<lambda>x. x) (transactionHashes b)"

lemma write_BlockTemplate_eq:
  assumes "valid_BlockTemplate init b" "write_Transaction (baseTransaction b) = Inr miner_tx"
  shows "write_BlockTemplate h b = Inr (block_bytes (\<lambda>x. x) b miner_tx)"
proof -
  show ?thesis
    using assms version_cases [of "majorVersion b"]
    by (auto simp: write_BlockTemplate_def write_BlockHeader_def valid_BlockTemplate_def bind_e_def
        block_bytes_def write_ParentBlock_eq not_less Let_def)
qed

lemma read_BlockHeader_1:
  assumes "majorVersion b = BLOCK_MAJOR_VERSION_1" "length (previousBlockHash b) = KEY_SIZE"
  shows "read_BlockHeader init (writeVarint (ucast (majorVersion b)) @ writeVarint (ucast (minorVersion b)) @
     writeVarint (timestamp b) @ previousBlockHash b @ write_int (nonce b) @ rest) =
    Inr (BlockHeader.truncate b, rest)"
  using assms
  by (simp add: read_BlockHeader_def varint8.bind_enc varint64.bind_enc fixed_bytes.bind_enc int32.bind_enc
      return_r_def BlockHeader.defs)

lemma read_BlockHeader_2:
  assumes "BLOCK_MAJOR_VERSION_2 \<le> majorVersion b" "majorVersion b \<le> BLOCK_MAJOR_VERSION_5"
    "length (previousBlockHash b) = KEY_SIZE"
  shows "read_BlockHeader init (writeVarint (ucast (majorVersion b)) @ writeVarint (ucast (minorVersion b)) @
     previousBlockHash b @ rest) =
    Inr (init\<lparr>majorVersion := majorVersion b, minorVersion := minorVersion b,
      previousBlockHash := previousBlockHash b\<rparr>, rest)"
proof -
  have "majorVersion b \<noteq> BLOCK_MAJOR_VERSION_1" using assms(1) by auto
  then show ?thesis using assms
    by (simp add: read_BlockHeader_def varint8.bind_enc fixed_bytes.bind_enc return_r_def leD)
qed

lemma read_BlockTemplate_eq:
  assumes "valid_BlockTemplate init b" "\<And>rest. read_Transaction (miner_tx @ rest) = Inr (baseTransaction b, rest)"
    "majorVersion b = BLOCK_MAJOR_VERSION_1 \<or> ucast (f (ucast (transactionCount (parentBlock b)))) = transactionCount (parentBlock b)"
  shows "read_BlockTemplate init (block_bytes f b miner_tx @ rest) = Inr (b, rest)"
proof -
  note v = assms(1) [unfolded valid_BlockTemplate_def]
  let ?tail = "miner_tx @ writeContainer (\<lambda>x. x) (transactionHashes b) @ rest"
  have hashes: "readContainer (read_bytes KEY_SIZE) (writeContainer (\<lambda>x. x) (transactionHashes b) @ rest) =
      Inr (transactionHashes b, rest)"
    using v fixed_bytes.container_roundtrip [of "transactionHashes b" KEY_SIZE rest] by (simp add: list_all_iff)
  show ?thesis
  proof (cases "majorVersion b = BLOCK_MAJOR_VERSION_1")
    case True
    then show ?thesis
      using v hashes read_BlockHeader_1 [OF True, of "BlockHeader.truncate init" ?tail] header_simps(4) [of b]
      by (simp add: read_BlockTemplate_def block_bytes_def assms(2) bind_r_Inr return_r_def)
  next
    case False
    then have "BLOCK_MAJOR_VERSION_2 \<le> majorVersion b" using v version_cases by blast
    moreover from this False v assms(3)
    have "read_ParentBlock (parent_bytes (f (ucast (transactionCount (parentBlock b)))) (timestamp b) (nonce b)
        (parentBlock b) @ ?tail) = Inr ((timestamp b, nonce b, parentBlock b), ?tail)"
      by (intro read_ParentBlock_eq) simp_all
    ultimately show ?thesis
      using False v hashes
        read_BlockHeader_2 [of b "BlockHeader.truncate init" "parent_bytes (f (ucast (transactionCount (parentBlock b)))) (timestamp b) (nonce b)
        (parentBlock b) @ ?tail"]
      by (simp add: read_BlockTemplate_def block_bytes_def assms(2) bind_r_Inr return_r_def)
  qed
qed

interpretation blob_codec: canonical_codec write_blob read_blob "\<lambda>b. length b < 2 ^ 64"
proof unfold_locales
  fix b rest :: bytes assume "length b < 2 ^ 64"
  then show "read_blob (write_blob b @ rest) = Inr (b, rest)"
    by (simp add: read_blob_def write_blob_def varint64.bind_enc unat_of_nat_u64 read_bytes_eq)
next
  fix bs b rest assume "read_blob bs = Inr (b, rest)"
  then obtain n :: u64 where "bs = writeVarint n @ b @ rest" "length b = unat n"
    by (auto simp: read_blob_def bind_r_Inr_iff varint64.dec_iff fixed_bytes.dec_iff)
  then show "length b < 2 ^ 64 \<and> bs = write_blob b @ rest" by (simp add: write_blob_def)
qed

interpretation raw_block_codec: canonical_codec write_RawBlock read_RawBlock
  "\<lambda>b. length (raw_block b) < 2 ^ 64 \<and> length (raw_transactions b) < 2 ^ 64 \<and>
    (\<forall>t \<in> set (raw_transactions b). length t < 2 ^ 64)"
proof unfold_locales
  fix b :: RawBlock and rest
  assume "length (raw_block b) < 2 ^ 64 \<and> length (raw_transactions b) < 2 ^ 64 \<and>
    (\<forall>t \<in> set (raw_transactions b). length t < 2 ^ 64)"
  then show "read_RawBlock (write_RawBlock b @ rest) = Inr (b, rest)"
    by (simp add: read_RawBlock_def write_RawBlock_def blob_codec.bind_enc blob_codec.container_bind return_r_def)
next
  fix bs :: bytes and b :: RawBlock and rest
  assume "read_RawBlock bs = Inr (b, rest)"
  then show "(length (raw_block b) < 2 ^ 64 \<and> length (raw_transactions b) < 2 ^ 64 \<and>
    (\<forall>t \<in> set (raw_transactions b). length t < 2 ^ 64)) \<and> bs = write_RawBlock b @ rest"
    by (auto simp: read_RawBlock_def write_RawBlock_def bind_r_Inr_iff blob_codec.dec_iff return_r_def
        dest!: blob_codec.container_canonical)
qed

interpretation address_codec: canonical_codec write_AccountPublicAddress read_AccountPublicAddress
  "\<lambda>a. length (spendPublicKey a) = KEY_SIZE \<and> length (viewPublicKey a) = KEY_SIZE"
  by unfold_locales
    (auto simp: write_AccountPublicAddress_def read_AccountPublicAddress_def fixed_bytes.bind_enc
      bind_r_Inr_iff fixed_bytes.dec_iff return_r_def)

interpretation account_codec: canonical_codec write_AccountKeys read_AccountKeys
  "\<lambda>k. (length (spendPublicKey (address k)) = KEY_SIZE \<and> length (viewPublicKey (address k)) = KEY_SIZE) \<and>
    length (spendSecretKey k) = KEY_SIZE \<and> length (viewSecretKey k) = KEY_SIZE"
  by unfold_locales
    (auto simp: write_AccountKeys_def read_AccountKeys_def fixed_bytes.bind_enc address_codec.bind_enc
      bind_r_Inr_iff fixed_bytes.dec_iff address_codec.dec_iff return_r_def)

interpretation key_pair_codec: canonical_codec write_KeyPair read_KeyPair
  "\<lambda>k. length (kp_publicKey k) = KEY_SIZE \<and> length (kp_secretKey k) = KEY_SIZE"
  by unfold_locales
    (auto simp: write_KeyPair_def read_KeyPair_def fixed_bytes.bind_enc bind_r_Inr_iff fixed_bytes.dec_iff
      return_r_def)

lemma ucast_u16_u64 [simp]: "ucast (ucast (c :: u16) :: u64) = c" "ucast (ucast c + 0x10000 :: u64) = c"
proof -
  have c: "unat c < 2 ^ 16" using unsigned_less [of c, where ?'a = nat] by simp
  have u: "unat (ucast c :: u64) = unat c" by (simp add: unat_ucast_up)
  then have "unat (ucast c + 0x10000 :: u64) = unat c + 0x10000"
    using c by (subst unat_add_no_overflow) simp_all
  then show "ucast (ucast c :: u64) = c" "ucast (ucast c + 0x10000 :: u64) = c"
    using u c by (simp_all add: word_unat_eq_iff unsigned_ucast_eq [where ?'c = 16] unsigned_take_bit_eq take_bit_nat_def)
qed

text \<open>A merge mined block with one transaction in the parent block.\<close>

definition sample_tx :: Transaction where
  "sample_tx = \<lparr>version = 1, unlockTime = 50, inputs = [BaseInput 10], outputs = [], extra = [],
     signatures = []\<rparr>"

definition sample_parent :: ParentBlock where
  "sample_parent = \<lparr>pb_majorVersion = 1, pb_minorVersion = 0, pb_previousBlockHash = replicate 32 5,
     transactionCount = 1, baseTransactionBranch = [],
     pb_baseTransaction = \<lparr>version = 1, unlockTime = 0, inputs = [BaseInput 3], outputs = [],
       extra = TX_EXTRA_MERGE_MINING_TAG # write_MergeMiningTag 0 (replicate 32 7)\<rparr>,
     blockchainBranch = []\<rparr>"

definition sample_block :: BlockTemplate where
  "sample_block = \<lparr>majorVersion = 2, minorVersion = 0, nonce = 9, timestamp = 1700000000,
     previousBlockHash = replicate 32 1, parentBlock = sample_parent, baseTransaction = sample_tx,
     transactionHashes = [replicate 32 2]\<rparr>"

lemma getMergeMiningTag_append:
  assumes "length root = KEY_SIZE"
  shows "getMergeMiningTagFromExtra (TX_EXTRA_MERGE_MINING_TAG # write_MergeMiningTag d root) = Some (d, root)"
proof -
  have "writable_fields [ExtraMergeMiningTag d root]" using assms by (simp add: writable_fields_def)
  then obtain bs where "writeTransactionExtra [] [ExtraMergeMiningTag d root] = Some ([] @ bs)"
    "parseTransactionExtra bs = (True, [ExtraMergeMiningTag d root])"
    using write_then_parse by metis
  then show ?thesis
    by (simp add: writeExtraField_def appendMergeMiningTagToExtra_def getMergeMiningTagFromExtra_def)
qed

lemma sample_block_valid: "valid_BlockTemplate init sample_block"
proof -
  have t: "tree_depth (Suc 0) = 0" by (simp add: tree_depth_def depth_step_def drop_bit_eq_div)
  have l: "length (write_MergeMiningTag 0 (replicate 32 7)) \<le> 52"
    using length_writeVarint [of 0] length_writeVarint [of "of_nat (length (writeVarint 0 @ replicate 32 7))"]
    by (simp add: write_MergeMiningTag_def write_string_def)
  have tag: "getMergeMiningTagFromExtra (TX_EXTRA_MERGE_MINING_TAG # write_MergeMiningTag 0 (replicate 32 7)) =
      Some (0, replicate 32 7)"
    by (rule getMergeMiningTag_append) (simp add: KEY_SIZE_def)
  have "valid_Transaction sample_tx"
    by (simp add: sample_tx_def valid_Transaction_def valid_TransactionPrefix_def valid_prefix_body_def
        valid_signatures_def single_base_input_def CURRENT_TRANSACTION_VERSION_def)
  moreover have "valid_ParentBlock sample_parent"
    using l by (simp add: sample_parent_def valid_ParentBlock_def valid_prefix_body_def tag KEY_SIZE_def t)
  ultimately show ?thesis
    by (simp add: valid_BlockTemplate_def sample_block_def block_versions KEY_SIZE_def)
qed

text \<open>C22: Every well formed block template is serialized without an exception, and reading the byte
  array gives the same block, for all the major versions that the format supports.\<close>

theorem block_template_roundtrip:
  assumes "valid_BlockTemplate init b"
  shows "\<exists>ba. write_BlockTemplate cn_fast_hash b = Inr ba \<and>
    fromBinaryArray (read_BlockTemplate init) ba = Inr b"
proof -
  have "valid_Transaction (baseTransaction b)" using assms by (simp add: valid_BlockTemplate_def)
  then obtain tx where tx: "write_Transaction (baseTransaction b) = Inr tx"
    "\<And>rest. read_Transaction (tx @ rest) = Inr (baseTransaction b, rest)"
    by (rule transaction_roundtrip) blast
  have "read_BlockTemplate init (block_bytes (\<lambda>x. x) b tx @ []) = Inr (b, [])"
    by (rule read_BlockTemplate_eq [OF assms tx(2)]) simp
  then show ?thesis
    using write_BlockTemplate_eq [OF assms tx(1)] by (simp add: fromBinaryArray_def endOfStream_def)
qed

lemma block_template_roundtrip_witness:
  "\<exists>ba. write_BlockTemplate rev sample_block = Inr ba \<and>
    fromBinaryArray (read_BlockTemplate sample_block) ba = Inr sample_block"
  by (rule block_template_roundtrip [OF sample_block_valid])

text \<open>C38: The encoding of a merge mined block is not unique: the number of transactions of the parent
  block is read as a 64 bit number and cut to 16 bits, so a second byte array is read as the same block.\<close>

theorem block_template_malleable:
  assumes "valid_BlockTemplate init b" "BLOCK_MAJOR_VERSION_2 \<le> majorVersion b"
  shows "\<exists>ba ba'. write_BlockTemplate cn_fast_hash b = Inr ba \<and> ba' \<noteq> ba \<and>
    fromBinaryArray (read_BlockTemplate init) ba' = Inr b"
proof -
  have "valid_Transaction (baseTransaction b)" using assms by (simp add: valid_BlockTemplate_def)
  then obtain tx where tx: "write_Transaction (baseTransaction b) = Inr tx"
    "\<And>rest. read_Transaction (tx @ rest) = Inr (baseTransaction b, rest)"
    by (rule transaction_roundtrip) blast
  let ?f = "\<lambda>x :: u64. x + 0x10000"
  have "read_BlockTemplate init (block_bytes ?f b tx @ []) = Inr (b, [])"
    by (intro read_BlockTemplate_eq [OF assms(1) tx(2)]) simp
  moreover have "block_bytes ?f b tx \<noteq> block_bytes (\<lambda>x. x) b tx"
  proof
    assume "block_bytes ?f b tx = block_bytes (\<lambda>x. x) b tx"
    moreover have "majorVersion b \<noteq> BLOCK_MAJOR_VERSION_1" using assms(2) by auto
    ultimately show False
      using varint64.enc_prefix_free [where r = "[]" and r' = "[]"] by (fastforce simp: block_bytes_def parent_bytes_def)
  qed
  ultimately show ?thesis
    using write_BlockTemplate_eq [OF assms(1) tx(1)] by (auto simp: fromBinaryArray_def endOfStream_def)
qed

lemma block_template_malleable_witness:
  "\<exists>ba ba'. write_BlockTemplate rev sample_block = Inr ba \<and> ba' \<noteq> ba \<and>
    fromBinaryArray (read_BlockTemplate sample_block) ba' = Inr sample_block"
  by (rule block_template_malleable [OF sample_block_valid]) (simp add: sample_block_def block_versions)

end
