(* ===== verification/Amounts.thy ===== *)
theory Amounts
  imports Transactions Int_Util
begin

text \<open>
  Amounts and output indexes of transactions:
  \<^verbatim>\<open>src/mevacoin_core/mevacoin_format_utils.cpp\<close> with its header,
  \<^verbatim>\<open>src/mevacoin_core/mevacoin_tools.cpp\<close> and the block reward penalty of
  \<^verbatim>\<open>src/mevacoin_core/mevacoin_basic_impl.cpp\<close>.  All sums are sums of 64 bit words.
\<close>

section \<open>Sums and fees\<close>

definition getInputsAmounts :: "'z TransactionPrefix_scheme \<Rightarrow> u64 list" where
  "getInputsAmounts tx = map in_amount (filter is_KeyInput (inputs tx))"

definition getInputAmount :: "'z TransactionPrefix_scheme \<Rightarrow> u64" where
  "getInputAmount tx =
     foldl (\<lambda>amount input. if is_KeyInput input then amount + in_amount input else amount) 0 (inputs tx)"

definition getOutputAmount :: "'z TransactionPrefix_scheme \<Rightarrow> u64" where
  "getOutputAmount tx = foldl (\<lambda>amount out. amount + out_amount out) 0 (outputs tx)"

definition get_tx_fee :: "'z TransactionPrefix_scheme \<Rightarrow> u64 option" where
  "get_tx_fee tx =
     (let amount_in = foldl (\<lambda>a i. if is_KeyInput i then a + in_amount i else a) 0 (inputs tx);
          amount_out = foldl (\<lambda>a out. a + out_amount out) 0 (outputs tx)
      in if \<not> amount_out \<le> amount_in then None else Some (amount_in - amount_out))"

definition get_tx_fee_or_zero :: "'z TransactionPrefix_scheme \<Rightarrow> u64" where
  "get_tx_fee_or_zero tx = (case get_tx_fee tx of None \<Rightarrow> 0 | Some r \<Rightarrow> r)"

section \<open>Checks\<close>

definition checkInputTypesSupported :: "'z TransactionPrefix_scheme \<Rightarrow> bool" where
  "checkInputTypesSupported tx = list_all is_KeyInput (inputs tx)"

text \<open>The error text, or \<open>None\<close> when all outputs are valid; \<open>check_key\<close> is an argument.\<close>

fun check_outs :: "(bytes \<Rightarrow> bool) \<Rightarrow> TransactionOutput list \<Rightarrow> string option" where
  "check_outs check_key [] = None"
| "check_outs check_key (out # outs) =
     (if out_amount out = 0 then Some ''Zero amount ouput''
      else if \<not> check_key (out_key (target out)) then Some ''Output with invalid key''
      else check_outs check_key outs)"

definition checkOutsValid :: "(bytes \<Rightarrow> bool) \<Rightarrow> 'z TransactionPrefix_scheme \<Rightarrow> string option" where
  "checkOutsValid check_key tx = check_outs check_key (outputs tx)"

fun overflow_loop :: "u64 \<Rightarrow> u64 list \<Rightarrow> bool" where
  "overflow_loop money [] = True"
| "overflow_loop money (amount # amounts) =
     (if amount + money < money then False else overflow_loop (money + amount) amounts)"

definition checkInputsOverflow :: "'z TransactionPrefix_scheme \<Rightarrow> bool" where
  "checkInputsOverflow tx =
     overflow_loop 0 (map (\<lambda>i. if is_KeyInput i then in_amount i else 0) (inputs tx))"

definition checkOutsOverflow :: "'z TransactionPrefix_scheme \<Rightarrow> bool" where
  "checkOutsOverflow tx = overflow_loop 0 (map out_amount (outputs tx))"

section \<open>Output indexes\<close>

fun add_previous :: "u32 \<Rightarrow> u32 list \<Rightarrow> u32 list" where
  "add_previous prev [] = []"
| "add_previous prev (x # xs) = (x + prev) # add_previous (x + prev) xs"

definition relativeOutputOffsetsToAbsolute :: "u32 list \<Rightarrow> u32 list" where
  "relativeOutputOffsetsToAbsolute off = (case off of [] \<Rightarrow> [] | x # xs \<Rightarrow> x # add_previous x xs)"

fun subtract_previous :: "u32 \<Rightarrow> u32 list \<Rightarrow> u32 list" where
  "subtract_previous prev [] = []"
| "subtract_previous prev (x # xs) = (x - prev) # subtract_previous x xs"

definition absolute_output_offsets_to_relative :: "u32 list \<Rightarrow> u32 list" where
  "absolute_output_offsets_to_relative off =
     (case off of [] \<Rightarrow> [] | x # xs \<Rightarrow> x # subtract_previous x xs)"

section \<open>Keys of outputs\<close>

text \<open>The operations of the curve are arguments; the ones that can fail return an option.\<close>

definition generate_key_image_helper ::
  "(bytes \<Rightarrow> bytes \<Rightarrow> bytes option) \<Rightarrow> (bytes \<Rightarrow> nat \<Rightarrow> bytes \<Rightarrow> bytes option) \<Rightarrow> (bytes \<Rightarrow> nat \<Rightarrow> bytes \<Rightarrow> bytes)
   \<Rightarrow> (bytes \<Rightarrow> bytes \<Rightarrow> bytes) \<Rightarrow> bytes \<Rightarrow> bytes \<Rightarrow> bytes \<Rightarrow> bytes \<Rightarrow> nat \<Rightarrow> (bytes \<times> bytes \<times> bytes) option" where
  "generate_key_image_helper generate_key_derivation derive_public_key derive_secret_key generate_key_image
     viewSecretKey spendSecretKey spendPublicKey tx_public_key real_output_index =
     do {
       recv_derivation \<leftarrow> generate_key_derivation tx_public_key viewSecretKey;
       public \<leftarrow> derive_public_key recv_derivation real_output_index spendPublicKey;
       let secret = derive_secret_key recv_derivation real_output_index spendSecretKey;
       Some (public, secret, generate_key_image public secret)
     }"

definition is_out_to_acc ::
  "(bytes \<Rightarrow> nat \<Rightarrow> bytes \<Rightarrow> bytes option) \<Rightarrow> bytes \<Rightarrow> bytes \<Rightarrow> bytes \<Rightarrow> nat \<Rightarrow> bool option" where
  "is_out_to_acc derive_public_key spendPublicKey key derivation keyIndex =
     do { pk \<leftarrow> derive_public_key derivation keyIndex spendPublicKey; Some (pk = key) }"

section \<open>Decomposition into digits\<close>

datatype digit_event = Chunk (event_amount: u64) | Dust (event_amount: u64)

function decompose_loop :: "u64 \<Rightarrow> u64 \<Rightarrow> u64 \<Rightarrow> bool \<Rightarrow> u64 \<Rightarrow> digit_event list" where
  "decompose_loop amount order dust is_dust_handled dust_threshold =
     (if amount = 0
      then if \<not> is_dust_handled \<and> dust \<noteq> 0 then [Dust dust] else []
      else let chunk = (amount mod 10) * order
           in if dust + chunk \<le> dust_threshold
              then decompose_loop (amount div 10) (order * 10) (dust + chunk) is_dust_handled dust_threshold
              else let emit_dust = (\<not> is_dust_handled \<and> dust \<noteq> 0)
                   in (if emit_dust then [Dust dust] else []) @
                      (if chunk \<noteq> 0 then [Chunk chunk] else []) @
                      decompose_loop (amount div 10) (order * 10) dust (is_dust_handled \<or> emit_dust) dust_threshold)"
  by pat_completeness auto
termination
proof (relation "measure (\<lambda>(amount, _). unat amount)")
  fix amount :: u64
  have "unat (amount div 10) < unat amount" if "amount \<noteq> 0"
    using that by (simp add: unat_div unat_gt_0)
  then show "\<And>order dust h t chunk. amount \<noteq> 0 \<Longrightarrow> chunk = amount mod 10 * order \<Longrightarrow> dust + chunk \<le> t \<Longrightarrow>
      ((amount div 10, order * 10, dust + chunk, h, t), (amount, order, dust, h, t)) \<in> measure (\<lambda>(amount, _). unat amount)"
    and "\<And>order dust h t chunk e. amount \<noteq> 0 \<Longrightarrow> chunk = amount mod 10 * order \<Longrightarrow> \<not> dust + chunk \<le> t \<Longrightarrow>
      e = (\<not> h \<and> dust \<noteq> 0) \<Longrightarrow>
      ((amount div 10, order * 10, dust, h \<or> e, t), (amount, order, dust, h, t)) \<in> measure (\<lambda>(amount, _). unat amount)"
    by simp_all
qed simp

declare decompose_loop.simps [simp del]

definition decompose_amount_into_digits :: "u64 \<Rightarrow> u64 \<Rightarrow> digit_event list" where
  "decompose_amount_into_digits amount dust_threshold =
     (if amount = 0 then [] else decompose_loop amount 1 0 False dust_threshold)"

definition decomposeAmount :: "u64 \<Rightarrow> u64 \<Rightarrow> u64 list" where
  "decomposeAmount amount dustThreshold = map event_amount (decompose_amount_into_digits amount dustThreshold)"

section \<open>The penalty of large blocks\<close>

definition getPenalizedAmount :: "u64 \<Rightarrow> u64 \<Rightarrow> u64 \<Rightarrow> u64 option" where
  "getPenalizedAmount amount medianSize currentBlockSize =
     (if amount = 0 then Some 0
      else if currentBlockSize \<le> medianSize then Some amount
      else let (productHi, productLo) = mul128 amount (currentBlockSize * (2 * medianSize - currentBlockSize))
           in do {
                (hi, lo, _) \<leftarrow> div128_32 productHi productLo (ucast medianSize);
                (hi, lo, _) \<leftarrow> div128_32 hi lo (ucast medianSize);
                Some lo
              })"

section \<open>Sums without overflow\<close>

lemma overflow_loop_iff:
  "overflow_loop money amounts \<longleftrightarrow> unat money + sum_list (map unat amounts) < 2 ^ 64"
proof (induction amounts arbitrary: money)
  case (Cons a as)
  have over: "a + money < money \<longleftrightarrow> 2 ^ 64 \<le> unat money + unat a"
    using add_overflow_iff [of money a] by (simp add: add.commute [of a money])
  show ?case
  proof (cases "unat money + unat a < 2 ^ 64")
    case True
    then have "unat (money + a) = unat money + unat a" by (simp add: unat_add_no_overflow)
    with True over Cons [of "money + a"] show ?thesis by (simp add: not_le [symmetric] add.assoc)
  next
    case False
    with over show ?thesis by simp
  qed
qed simp

lemma foldl_amounts:
  fixes money :: u64
  shows "unat money + sum_list (map unat amounts) < 2 ^ 64 \<Longrightarrow>
   unat (foldl (+) money amounts) = unat money + sum_list (map unat amounts)"
proof (induction amounts arbitrary: money)
  case (Cons a as)
  then have "unat (money + a) = unat money + unat a" by (intro unat_add_no_overflow) simp
  then show ?case using Cons.IH [of "money + a"] Cons.prems by simp
qed simp

abbreviation input_amounts :: "'z TransactionPrefix_scheme \<Rightarrow> u64 list" where
  "input_amounts tx \<equiv> map (\<lambda>i. if is_KeyInput i then in_amount i else 0) (inputs tx)"

abbreviation output_amounts :: "'z TransactionPrefix_scheme \<Rightarrow> u64 list" where
  "output_amounts tx \<equiv> map out_amount (outputs tx)"

lemma foldl_inputs:
  "foldl (\<lambda>a i. if is_KeyInput i then a + in_amount i else a) m is =
   foldl (+) m (map (\<lambda>i. if is_KeyInput i then in_amount i else 0) is)"
  by (induction "is" arbitrary: m) simp_all

lemma foldl_outputs: "foldl (\<lambda>a out. a + out_amount out) m os = foldl (+) m (map out_amount os)"
  by (induction os arbitrary: m) simp_all

text \<open>C28: The two overflow checks accept exactly the transactions whose input sum and output sum, as
  natural numbers, are below \<open>2 ^ 64\<close>; for these the fee is exact: it is refused when the
  outputs exceed the inputs and is their difference otherwise.\<close>

theorem tx_fee_exact:
  "checkInputsOverflow tx = (sum_list (map unat (input_amounts tx)) < 2 ^ 64) \<and>
   checkOutsOverflow tx = (sum_list (map unat (output_amounts tx)) < 2 ^ 64) \<and>
   (checkInputsOverflow tx \<and> checkOutsOverflow tx \<longrightarrow>
    map_option unat (get_tx_fee tx) =
      (if sum_list (map unat (input_amounts tx)) < sum_list (map unat (output_amounts tx)) then None
       else Some (sum_list (map unat (input_amounts tx)) - sum_list (map unat (output_amounts tx)))))"
  (is "?i \<and> ?o \<and> (_ \<longrightarrow> ?fee)")
proof (intro conjI impI)
  show i: ?i and o: ?o
    by (simp_all add: checkInputsOverflow_def checkOutsOverflow_def overflow_loop_iff)
  assume "checkInputsOverflow tx \<and> checkOutsOverflow tx"
  then have "unat (foldl (+) 0 (input_amounts tx)) = sum_list (map unat (input_amounts tx))"
    "unat (foldl (+) 0 (output_amounts tx)) = sum_list (map unat (output_amounts tx))"
    using i o foldl_amounts [of 0 "input_amounts tx"] foldl_amounts [of 0 "output_amounts tx"] by simp_all
  then show ?fee
    unfolding get_tx_fee_def foldl_inputs foldl_outputs Let_def
    by (simp only: word_le_nat_alt) (auto simp: unat_sub word_le_nat_alt)
qed

lemma tx_fee_exact_witness:
  "map_option unat (get_tx_fee \<lparr>version = 1, unlockTime = 0, inputs = [KeyInput 70 [1] [], KeyInput 50 [4] []],
     outputs = [\<lparr>out_amount = 100, target = KeyOutput []\<rparr>], extra = []\<rparr>) = Some 20"
proof -
  let ?tx = "\<lparr>version = 1, unlockTime = 0, inputs = [KeyInput 70 [1] [], KeyInput 50 [4] []],
     outputs = [\<lparr>out_amount = 100, target = KeyOutput []\<rparr>], extra = []\<rparr>"
  have "checkInputsOverflow ?tx \<and> checkOutsOverflow ?tx"
    by (simp add: checkInputsOverflow_def checkOutsOverflow_def)
  with tx_fee_exact [of ?tx] show ?thesis by simp
qed

section \<open>Indexes\<close>

lemma add_subtract_previous:
  "add_previous p (subtract_previous p xs) = xs" "subtract_previous p (add_previous p xs) = xs"
  by (induction xs arbitrary: p) simp_all

lemma offsets_inverse:
  "relativeOutputOffsetsToAbsolute (absolute_output_offsets_to_relative off) = off"
  "absolute_output_offsets_to_relative (relativeOutputOffsetsToAbsolute off) = off"
  by (cases off; simp add: relativeOutputOffsetsToAbsolute_def absolute_output_offsets_to_relative_def
      add_subtract_previous)+

text \<open>The two conversions of output indexes are inverse to each other on all lists, wrap-around included.\<close>

theorem output_offsets_inverse:
  "relativeOutputOffsetsToAbsolute (absolute_output_offsets_to_relative off) = off \<and>
   absolute_output_offsets_to_relative (relativeOutputOffsetsToAbsolute off) = off"
  using offsets_inverse by blast

section \<open>The decomposition adds up\<close>

definition events_sum :: "digit_event list \<Rightarrow> nat" where
  "events_sum es = sum_list (map (\<lambda>e. unat (event_amount e)) es)"

lemma events_sum_simps [simp]:
  "events_sum [] = 0" "events_sum (e # es) = unat (event_amount e) + events_sum es"
  "events_sum (es @ fs) = events_sum es + events_sum fs"
  by (simp_all add: events_sum_def)

text \<open>
  \<open>ord\<close> is the order as a number; the word holds it as long as digits are left.  Dust that
  has been handed out is not increased: the next digits are too large to fit below the threshold.
\<close>

lemma decompose_loop_sum:
  assumes "amount \<noteq> 0 \<Longrightarrow> unat order = ord" "unat amount * ord + unat dust < 2 ^ 64"
    "handled \<Longrightarrow> unat dust_threshold < unat dust + ord"
  shows "events_sum (decompose_loop amount order dust handled dust_threshold) =
    unat amount * ord + (if handled then 0 else unat dust)"
  using assms
proof (induction amount order dust handled dust_threshold arbitrary: ord rule: decompose_loop.induct)
  case (1 amount order dust handled thr)
  show ?case
  proof (cases "amount = 0")
    case True
    then show ?thesis by (subst decompose_loop.simps) auto
  next
    case False
    let ?d = "unat amount mod 10" and ?chunk = "amount mod 10 * order"
    have order: "unat order = ord" using 1(3) False .
    have split: "unat amount * ord = ?d * ord + unat amount div 10 * (10 * ord)"
      by (metis (no_types) add.commute distrib_right div_mult_mod_eq mult.assoc)
    have fits: "?d * ord + unat dust < 2 ^ 64" using 1(4) split by linarith
    have chunk: "unat ?chunk = ?d * ord" using fits order by (simp add: unat_word_ariths unat_mod)
    have sum: "unat (dust + ?chunk) = unat dust + ?d * ord"
      using fits chunk by (subst unat_add_no_overflow) simp_all
    have a: "unat (amount div 10) = unat amount div 10" by (simp add: unat_div)
    have order': "unat (order * 10) = 10 * ord" if "amount div 10 \<noteq> 0"
    proof -
      have "1 \<le> unat amount div 10" using that a by (simp add: word_unat_eq_iff)
      then have "10 * ord \<le> unat amount div 10 * (10 * ord)" by simp
      then have "10 * ord < 2 ^ 64" using 1(4) split by linarith
      then show ?thesis using order by (simp add: unat_word_ariths)
    qed
    show ?thesis
    proof (cases "dust + ?chunk \<le> thr")
      case True
      then have le: "unat dust + ?d * ord \<le> unat thr" by (simp add: word_le_nat_alt sum)
      have h: "?d = 0" if "handled"
      proof -
        have "?d * ord < 1 * ord" using 1(5) [OF that] le by linarith
        then show ?thesis by (metis less_one mult_less_cancel2)
      qed
      have "events_sum (decompose_loop (amount div 10) (order * 10) (dust + ?chunk) handled thr) =
          unat (amount div 10) * (10 * ord) + (if handled then 0 else unat (dust + ?chunk))"
      proof (rule 1(1) [OF False refl True order'])
        show "unat (amount div 10) * (10 * ord) + unat (dust + ?chunk) < 2 ^ 64"
          unfolding a sum using 1(4) split by linarith
        show "handled \<Longrightarrow> unat thr < unat (dust + ?chunk) + 10 * ord"
          unfolding sum using 1(5) by linarith
      qed
      then show ?thesis using False True split sum a h
        by (subst decompose_loop.simps) (simp add: Let_def)
    next
      case gt: False
      let ?e = "\<not> handled \<and> dust \<noteq> 0"
      have "unat thr < unat dust + ?d * ord" using gt by (simp add: word_le_nat_alt sum)
      moreover have "?d * ord \<le> 10 * ord" by (intro mult_le_mono1) simp
      ultimately have thr: "unat thr < unat dust + 10 * ord" by linarith
      have "events_sum (decompose_loop (amount div 10) (order * 10) dust (handled \<or> ?e) thr) =
          unat (amount div 10) * (10 * ord) + (if handled \<or> ?e then 0 else unat dust)"
      proof (rule 1(2) [OF False refl gt refl order'])
        show "unat (amount div 10) * (10 * ord) + unat dust < 2 ^ 64"
          unfolding a using 1(4) split by linarith
      qed (simp_all add: thr)
      then show ?thesis using False gt split chunk a
        by (subst decompose_loop.simps) (auto simp: Let_def)
    qed
  qed
qed

lemma decomposeAmount_total:
  "sum_list (map unat (decomposeAmount amount dustThreshold)) = unat amount"
proof (cases "amount = 0")
  case False
  have "events_sum (decompose_loop amount 1 0 False dustThreshold) = unat amount"
    using decompose_loop_sum [of amount 1 1 0 False dustThreshold] by simp
  then show ?thesis using False
    by (simp add: decomposeAmount_def decompose_amount_into_digits_def events_sum_def comp_def)
qed (simp add: decomposeAmount_def decompose_amount_into_digits_def)

text \<open>Decomposing an amount, for any dust threshold, gives amounts that add up to it, without overflow
  in any step.\<close>

theorem decomposeAmount_sum:
  "sum_list (map unat (decomposeAmount amount dustThreshold)) = unat amount"
  by (rule decomposeAmount_total)

section \<open>The penalty\<close>

lemma penalty_factor:
  assumes "m < c" "c \<le> 2 * (m :: nat)"
  shows "c * (2 * m - c) < m * m"
proof -
  obtain d where d: "c = m + d" "0 < d" "d \<le> m" using assms by (metis add_diff_inverse_nat add_le_cancel_left less_imp_add_positive mult_2 not_less)
  then have "d * d \<le> m * m" by (simp add: mult_le_mono)
  with d have "c * (2 * m - c) + d * d = m * m"
    by (simp add: algebra_simps diff_mult_distrib2)
  moreover have "0 < d * d" using d(2) by simp
  ultimately show ?thesis by linarith
qed

lemma div128_32_twice:
  assumes "d \<noteq> 0"
  shows "\<exists>h1 l1 r1 h2 l2 r2. div128_32 hi lo d = Some (h1, l1, r1) \<and> div128_32 h1 l1 d = Some (h2, l2, r2) \<and>
    unat h2 * 2 ^ 64 + unat l2 = (unat hi * 2 ^ 64 + unat lo) div (unat d)\<^sup>2"
proof -
  obtain h1 l1 r1 where 1: "div128_32 hi lo d = Some (h1, l1, r1)"
    "unat h1 * 2 ^ 64 + unat l1 = (unat hi * 2 ^ 64 + unat lo) div unat d"
    using div128_32_exact [OF assms, of hi lo] by blast
  obtain h2 l2 r2 where 2: "div128_32 h1 l1 d = Some (h2, l2, r2)"
    "unat h2 * 2 ^ 64 + unat l2 = (unat hi * 2 ^ 64 + unat lo) div unat d div unat d"
    using div128_32_exact [OF assms, of h1 l1] unfolding 1(2) by blast
  then show ?thesis using 1 by (auto simp: div_mult2_eq power2_eq_square)
qed

lemma getPenalizedAmount_Some:
  assumes "unat medianSize < 2 ^ 32" "unat currentBlockSize \<le> 2 * unat medianSize"
  shows "\<exists>r. getPenalizedAmount amount medianSize currentBlockSize = Some r \<and>
    unat r = (if unat currentBlockSize \<le> unat medianSize then unat amount
      else unat amount * (unat currentBlockSize * (2 * unat medianSize - unat currentBlockSize)) div (unat medianSize)\<^sup>2) \<and>
    (amount \<noteq> 0 \<and> medianSize < currentBlockSize \<longrightarrow> r < amount)"
proof (cases "amount = 0 \<or> currentBlockSize \<le> medianSize")
  case True
  then show ?thesis by (auto simp: getPenalizedAmount_def word_le_nat_alt word_less_nat_alt)
next
  case False
  let ?m = "unat medianSize" and ?c = "unat currentBlockSize"
  let ?f = "?c * (2 * ?m - ?c)" and ?factor = "currentBlockSize * (2 * medianSize - currentBlockSize)"
  have gt: "?m < ?c" using False by (simp add: word_le_nat_alt)
  note f = penalty_factor [OF gt assms(2)]
  have f64: "?f < 2 ^ 64"
  proof -
    have "?m * ?m \<le> 2 ^ 32 * 2 ^ 32" using assms(1) by (intro mult_le_mono) simp_all
    with f show ?thesis by simp
  qed
  have m2: "unat (2 * medianSize) = 2 * ?m" using assms(1) by (simp add: unat_word_ariths)
  then have "unat (2 * medianSize - currentBlockSize) = 2 * ?m - ?c"
    using assms(2) by (simp add: unat_sub word_le_nat_alt)
  then have factor: "unat ?factor = ?f" using f64 by (simp add: unat_word_ariths)
  have d: "unat (ucast medianSize :: u32) = ?m" using assms(1) by (simp add: unsigned_ucast_eq take_bit_eq_mod)
  have m0: "0 < ?m" using gt assms(2) by linarith
  then have d0: "(ucast medianSize :: u32) \<noteq> 0" using d by auto
  obtain hi lo where mul: "mul128 amount ?factor = (hi, lo)" by (metis prod.exhaust)
  then have p: "unat hi * 2 ^ 64 + unat lo = unat amount * ?f"
    using mul128_exact [of amount ?factor] factor by simp
  obtain h1 l1 r1 h2 l2 r2 where div: "div128_32 hi lo (ucast medianSize) = Some (h1, l1, r1)"
    "div128_32 h1 l1 (ucast medianSize) = Some (h2, l2, r2)"
    and q: "unat h2 * 2 ^ 64 + unat l2 = unat amount * ?f div ?m\<^sup>2"
    using div128_32_twice [OF d0, of hi lo] unfolding p d by blast
  have "unat amount * ?f < unat amount * (?m * ?m)" using f False by (simp add: unat_gt_0)
  then have less: "unat amount * ?f div ?m\<^sup>2 < unat amount"
    using m0 by (simp add: div_less_iff_less_mult power2_eq_square)
  have "unat h2 * 2 ^ 64 \<le> unat amount" using q less by linarith
  then have "unat h2 * 2 ^ 64 < 1 * 2 ^ 64" using unat_lt_u64 [of amount] by linarith
  then have "unat h2 = 0" by simp
  then have "unat l2 = unat amount * ?f div ?m\<^sup>2" using q by simp
  then show ?thesis using False gt less mul div
    by (simp add: getPenalizedAmount_def word_less_nat_alt word_le_nat_alt)
qed

text \<open>C30: For a block of at most twice the median size, with a median below \<open>2 ^ 32\<close>, the penalised amount is
  computed: it is the whole amount up to the median, and the exact rounded down value of
  \<open>amount * c * (2 m - c) / m ^ 2\<close> above, which is strictly less than a positive amount.\<close>

theorem getPenalizedAmount_exact:
  assumes "unat medianSize < 2 ^ 32" "unat currentBlockSize \<le> 2 * unat medianSize"
  shows "\<exists>r. getPenalizedAmount amount medianSize currentBlockSize = Some r \<and>
    unat r = (if unat currentBlockSize \<le> unat medianSize then unat amount
      else unat amount * (unat currentBlockSize * (2 * unat medianSize - unat currentBlockSize)) div (unat medianSize)\<^sup>2) \<and>
    (amount \<noteq> 0 \<and> medianSize < currentBlockSize \<longrightarrow> r < amount)"
  using getPenalizedAmount_Some [OF assms] .

lemma getPenalizedAmount_exact_witness:
  "unat (150000 :: u64) \<le> 2 * unat (100000 :: u64) \<and>
   map_option unat (getPenalizedAmount 1000 100000 150000) = Some 750"
  using getPenalizedAmount_exact [of 100000 150000 1000] by (auto simp: power2_eq_square)

end
