(* ===== verification/Config.thy ===== *)
theory Config
  imports Prelude
begin

text \<open>
  The constants of \<^verbatim>\<open>src/config/mevacoin_config.h\<close> that the other theories use, in the order of
  that file and at the width they are declared with (\<^verbatim>\<open>size_t\<close> has 64 bits).
\<close>

definition DIFFICULTY_TARGET :: u64 where "DIFFICULTY_TARGET = 180"
definition MEVACOIN_MAX_BLOCK_NUMBER :: u32 where "MEVACOIN_MAX_BLOCK_NUMBER = 500000000"
definition MEVACOIN_PUBLIC_ADDRESS_BASE58_PREFIX :: u64 where "MEVACOIN_PUBLIC_ADDRESS_BASE58_PREFIX = 18511"
definition MEVACOIN_MAX_TX_SIZE :: u64 where "MEVACOIN_MAX_TX_SIZE = 1000000000"
definition MEVACOIN_MINED_MONEY_UNLOCK_WINDOW :: u32 where "MEVACOIN_MINED_MONEY_UNLOCK_WINDOW = 20"
definition MEVACOIN_BLOCK_FUTURE_TIME_LIMIT :: u64 where "MEVACOIN_BLOCK_FUTURE_TIME_LIMIT = 60 * 60 * 2"
definition MEVACOIN_BLOCK_FUTURE_TIME_LIMIT_V3 :: u64 where
  "MEVACOIN_BLOCK_FUTURE_TIME_LIMIT_V3 = 3 * DIFFICULTY_TARGET"
definition MEVACOIN_BLOCK_FUTURE_TIME_LIMIT_V4 :: u64 where
  "MEVACOIN_BLOCK_FUTURE_TIME_LIMIT_V4 = 6 * DIFFICULTY_TARGET"
definition BLOCKCHAIN_TIMESTAMP_CHECK_WINDOW :: u64 where "BLOCKCHAIN_TIMESTAMP_CHECK_WINDOW = 60"
definition BLOCKCHAIN_TIMESTAMP_CHECK_WINDOW_V3 :: u64 where "BLOCKCHAIN_TIMESTAMP_CHECK_WINDOW_V3 = 11"
definition MONEY_SUPPLY :: u64 where "MONEY_SUPPLY = 10000000000000000"
definition ZAWY_DIFFICULTY_BLOCK_INDEX :: u32 where "ZAWY_DIFFICULTY_BLOCK_INDEX = 187000"
definition ZAWY_DIFFICULTY_V2 :: u64 where "ZAWY_DIFFICULTY_V2 = 0"
definition ZAWY_DIFFICULTY_DIFFICULTY_BLOCK_VERSION :: u8 where "ZAWY_DIFFICULTY_DIFFICULTY_BLOCK_VERSION = 3"
definition LWMA_2_DIFFICULTY_BLOCK_INDEX :: u64 where "LWMA_2_DIFFICULTY_BLOCK_INDEX = 620000"
definition LWMA_2_DIFFICULTY_BLOCK_INDEX_V2 :: u64 where "LWMA_2_DIFFICULTY_BLOCK_INDEX_V2 = 700000"
definition LWMA_2_DIFFICULTY_BLOCK_INDEX_V3 :: u64 where "LWMA_2_DIFFICULTY_BLOCK_INDEX_V3 = 800000"
definition LWMA_3_DIFFICULTY_BLOCK_INDEX :: u64 where "LWMA_3_DIFFICULTY_BLOCK_INDEX = 2200000"
definition EMISSION_SPEED_FACTOR :: u32 where "EMISSION_SPEED_FACTOR = 28"
definition GENESIS_BLOCK_REWARD :: u64 where "GENESIS_BLOCK_REWARD = 0"
definition MEVACOIN_REWARD_BLOCKS_WINDOW :: u64 where "MEVACOIN_REWARD_BLOCKS_WINDOW = 100"
definition MEVACOIN_BLOCK_GRANTED_FULL_REWARD_ZONE :: u64 where "MEVACOIN_BLOCK_GRANTED_FULL_REWARD_ZONE = 100000"
definition MEVACOIN_BLOCK_GRANTED_FULL_REWARD_ZONE_V2 :: u64 where
  "MEVACOIN_BLOCK_GRANTED_FULL_REWARD_ZONE_V2 = 20000"
definition MEVACOIN_BLOCK_GRANTED_FULL_REWARD_ZONE_V1 :: u64 where
  "MEVACOIN_BLOCK_GRANTED_FULL_REWARD_ZONE_V1 = 10000"
definition MEVACOIN_BLOCK_GRANTED_FULL_REWARD_ZONE_CURRENT :: u64 where
  "MEVACOIN_BLOCK_GRANTED_FULL_REWARD_ZONE_CURRENT = MEVACOIN_BLOCK_GRANTED_FULL_REWARD_ZONE"
definition MEVACOIN_COINBASE_BLOB_RESERVED_SIZE :: u64 where "MEVACOIN_COINBASE_BLOB_RESERVED_SIZE = 600"
definition MEVACOIN_DISPLAY_DECIMAL_POINT :: u64 where "MEVACOIN_DISPLAY_DECIMAL_POINT = 5"
definition MINIMUM_FEE :: u64 where "MINIMUM_FEE = 10"
definition MINIMUM_MIXIN_V1 :: u64 where "MINIMUM_MIXIN_V1 = 0"
definition MAXIMUM_MIXIN_V1 :: u64 where "MAXIMUM_MIXIN_V1 = 100"
definition MINIMUM_MIXIN_V2 :: u64 where "MINIMUM_MIXIN_V2 = 7"
definition MAXIMUM_MIXIN_V2 :: u64 where "MAXIMUM_MIXIN_V2 = 7"
definition MINIMUM_MIXIN_V3 :: u64 where "MINIMUM_MIXIN_V3 = 3"
definition MAXIMUM_MIXIN_V3 :: u64 where "MAXIMUM_MIXIN_V3 = 3"
definition MINIMUM_MIXIN_V4 :: u64 where "MINIMUM_MIXIN_V4 = 1"
definition MAXIMUM_MIXIN_V4 :: u64 where "MAXIMUM_MIXIN_V4 = 5"
definition MIXIN_LIMITS_V1_HEIGHT :: u32 where "MIXIN_LIMITS_V1_HEIGHT = 440000"
definition MIXIN_LIMITS_V2_HEIGHT :: u32 where "MIXIN_LIMITS_V2_HEIGHT = 620000"
definition MIXIN_LIMITS_V3_HEIGHT :: u32 where "MIXIN_LIMITS_V3_HEIGHT = 800000"
definition MIXIN_LIMITS_V4_HEIGHT :: u32 where "MIXIN_LIMITS_V4_HEIGHT = 1250000"
definition DEFAULT_MIXIN_V0 :: u64 where "DEFAULT_MIXIN_V0 = 3"
definition DEFAULT_MIXIN_V1 :: u64 where "DEFAULT_MIXIN_V1 = MAXIMUM_MIXIN_V1"
definition DEFAULT_MIXIN_V2 :: u64 where "DEFAULT_MIXIN_V2 = MAXIMUM_MIXIN_V2"
definition DEFAULT_MIXIN_V3 :: u64 where "DEFAULT_MIXIN_V3 = MAXIMUM_MIXIN_V3"
definition DEFAULT_MIXIN_V4 :: u64 where "DEFAULT_MIXIN_V4 = MAXIMUM_MIXIN_V4"
definition DEFAULT_DUST_THRESHOLD :: u64 where "DEFAULT_DUST_THRESHOLD = 10"
definition DEFAULT_DUST_THRESHOLD_V2 :: u64 where "DEFAULT_DUST_THRESHOLD_V2 = 0"
definition DUST_THRESHOLD_V2_HEIGHT :: u32 where "DUST_THRESHOLD_V2_HEIGHT = MIXIN_LIMITS_V2_HEIGHT"
definition FUSION_DUST_THRESHOLD_HEIGHT_V2 :: u32 where "FUSION_DUST_THRESHOLD_HEIGHT_V2 = 800000"
definition EXPECTED_NUMBER_OF_BLOCKS_PER_DAY :: u64 where
  "EXPECTED_NUMBER_OF_BLOCKS_PER_DAY = 24 * 60 * 60 div DIFFICULTY_TARGET"
definition DIFFICULTY_WINDOW :: u64 where "DIFFICULTY_WINDOW = 17"
definition DIFFICULTY_WINDOW_V1 :: u64 where "DIFFICULTY_WINDOW_V1 = 2880"
definition DIFFICULTY_WINDOW_V2 :: u64 where "DIFFICULTY_WINDOW_V2 = 2880"
definition DIFFICULTY_WINDOW_V3 :: u64 where "DIFFICULTY_WINDOW_V3 = 60"
definition DIFFICULTY_BLOCKS_COUNT_V3 :: u64 where "DIFFICULTY_BLOCKS_COUNT_V3 = DIFFICULTY_WINDOW_V3 + 1"
definition DIFFICULTY_CUT :: u64 where "DIFFICULTY_CUT = 0"
definition DIFFICULTY_CUT_V1 :: u64 where "DIFFICULTY_CUT_V1 = 60"
definition DIFFICULTY_CUT_V2 :: u64 where "DIFFICULTY_CUT_V2 = 60"
definition DIFFICULTY_LAG :: u64 where "DIFFICULTY_LAG = 0"
definition DIFFICULTY_LAG_V1 :: u64 where "DIFFICULTY_LAG_V1 = 15"
definition DIFFICULTY_LAG_V2 :: u64 where "DIFFICULTY_LAG_V2 = 15"
definition MAX_BLOCK_SIZE_INITIAL :: u64 where "MAX_BLOCK_SIZE_INITIAL = 100000"
definition MAX_BLOCK_SIZE_GROWTH_SPEED_NUMERATOR :: u64 where
  "MAX_BLOCK_SIZE_GROWTH_SPEED_NUMERATOR = 100 * 1024"
definition MAX_BLOCK_SIZE_GROWTH_SPEED_DENOMINATOR :: u64 where
  "MAX_BLOCK_SIZE_GROWTH_SPEED_DENOMINATOR = 365 * 24 * 60 * 60 div DIFFICULTY_TARGET"
definition MEVACOIN_LOCKED_TX_ALLOWED_DELTA_BLOCKS :: u64 where "MEVACOIN_LOCKED_TX_ALLOWED_DELTA_BLOCKS = 1"
definition MEVACOIN_LOCKED_TX_ALLOWED_DELTA_SECONDS :: u64 where
  "MEVACOIN_LOCKED_TX_ALLOWED_DELTA_SECONDS = DIFFICULTY_TARGET * MEVACOIN_LOCKED_TX_ALLOWED_DELTA_BLOCKS"
definition MEVACOIN_MEMPOOL_TX_LIVETIME :: u64 where "MEVACOIN_MEMPOOL_TX_LIVETIME = 60 * 60 * 24"
definition MEVACOIN_MEMPOOL_TX_FROM_ALT_BLOCK_LIVETIME :: u64 where
  "MEVACOIN_MEMPOOL_TX_FROM_ALT_BLOCK_LIVETIME = 60 * 10"
definition MEVACOIN_NUMBER_OF_PERIODS_TO_FORGET_TX_DELETED_FROM_POOL :: u64 where
  "MEVACOIN_NUMBER_OF_PERIODS_TO_FORGET_TX_DELETED_FROM_POOL = 7"
definition FUSION_TX_MAX_SIZE :: u64 where
  "FUSION_TX_MAX_SIZE = MEVACOIN_BLOCK_GRANTED_FULL_REWARD_ZONE_CURRENT * 30 div 100"
definition FUSION_TX_MIN_INPUT_COUNT :: u64 where "FUSION_TX_MIN_INPUT_COUNT = 12"
definition FUSION_TX_MIN_IN_OUT_COUNT_RATIO :: u64 where "FUSION_TX_MIN_IN_OUT_COUNT_RATIO = 4"
definition UPGRADE_HEIGHT_V2 :: u32 where "UPGRADE_HEIGHT_V2 = 1"
definition UPGRADE_HEIGHT_V3 :: u32 where "UPGRADE_HEIGHT_V3 = 2"
definition UPGRADE_HEIGHT_V4 :: u32 where "UPGRADE_HEIGHT_V4 = 3"
definition UPGRADE_HEIGHT_V5 :: u32 where "UPGRADE_HEIGHT_V5 = 4"
definition UPGRADE_VOTING_THRESHOLD :: u32 where "UPGRADE_VOTING_THRESHOLD = 90"
definition UPGRADE_VOTING_WINDOW :: u32 where "UPGRADE_VOTING_WINDOW = ucast EXPECTED_NUMBER_OF_BLOCKS_PER_DAY"
definition UPGRADE_WINDOW :: u32 where "UPGRADE_WINDOW = ucast EXPECTED_NUMBER_OF_BLOCKS_PER_DAY"
definition MAX_EXTRA_SIZE_POOL :: u64 where "MAX_EXTRA_SIZE_POOL = 2200"
definition MAX_EXTRA_SIZE_BLOCK :: u64 where "MAX_EXTRA_SIZE_BLOCK = 128"
definition MAX_EXTRA_SIZE_V2 :: u64 where "MAX_EXTRA_SIZE_V2 = 1024"
definition MAX_EXTRA_SIZE_V2_HEIGHT :: u64 where "MAX_EXTRA_SIZE_V2_HEIGHT = 1300000"
definition TRANSACTION_SIGNATURE_COUNT_VALIDATION_HEIGHT :: u64 where
  "TRANSACTION_SIGNATURE_COUNT_VALIDATION_HEIGHT = 1750000"
definition BLOCK_BLOB_SHUFFLE_CHECK_HEIGHT :: u64 where "BLOCK_BLOB_SHUFFLE_CHECK_HEIGHT = 1750000"
definition BLOCK_MINOR_VERSION_0 :: u8 where "BLOCK_MINOR_VERSION_0 = 0"
definition BLOCK_MINOR_VERSION_1 :: u8 where "BLOCK_MINOR_VERSION_1 = 1"

lemmas mixin_config = MINIMUM_MIXIN_V1_def MAXIMUM_MIXIN_V1_def MINIMUM_MIXIN_V2_def MAXIMUM_MIXIN_V2_def
  MINIMUM_MIXIN_V3_def MAXIMUM_MIXIN_V3_def MINIMUM_MIXIN_V4_def MAXIMUM_MIXIN_V4_def
  MIXIN_LIMITS_V1_HEIGHT_def MIXIN_LIMITS_V2_HEIGHT_def MIXIN_LIMITS_V3_HEIGHT_def MIXIN_LIMITS_V4_HEIGHT_def
  DEFAULT_MIXIN_V0_def DEFAULT_MIXIN_V1_def DEFAULT_MIXIN_V2_def DEFAULT_MIXIN_V3_def DEFAULT_MIXIN_V4_def

lemmas difficulty_config = DIFFICULTY_TARGET_def DIFFICULTY_WINDOW_V3_def DIFFICULTY_BLOCKS_COUNT_V3_def
  MEVACOIN_BLOCK_FUTURE_TIME_LIMIT_V3_def

end
