(* ===== verification/Difficulty.thy ===== *)
theory Difficulty
  imports Config Int_Util Streams "HOL-Library.Signed_Division" "HOL-Library.Monad_Syntax"
begin

text \<open>
  The difficulty of the next block (\<^verbatim>\<open>src/mevacoin_core/difficulty.cpp\<close>, with the
  \<open>clamp\<close> of its header) and the test of a hash against a difficulty
  (\<^verbatim>\<open>src/mevacoin_core/check_difficulty.cpp\<close>).  The versions 3 to 5 compute with signed 64 bit
  integers: a value outside their range, a division by zero and an index past the end of a
  vector are undefined in the code and \<open>None\<close> here.
\<close>

section \<open>Vectors and signed integers\<close>

definition vec_at :: "'a list \<Rightarrow> nat \<Rightarrow> 'a option" where
  "vec_at xs i = (if i < length xs then Some (xs ! i) else None)"

definition i64 :: "int \<Rightarrow> int option" where
  "i64 x = (if - (2 ^ 63) \<le> x \<and> x < 2 ^ 63 then Some x else None)"

definition i64_div :: "int \<Rightarrow> int \<Rightarrow> int option" where
  "i64_div a b = (if b = 0 then None else i64 (a sdiv b))"

definition clamp :: "'a::linorder \<Rightarrow> 'a \<Rightarrow> 'a \<Rightarrow> 'a" where
  "clamp n lower upper = max lower (min n upper)"

section \<open>LWMA-3\<close>

text \<open>The body of the loop: the previous time stamp, \<open>L\<close> and \<open>sum_3_ST\<close>.\<close>

definition v6_step :: "u64 \<Rightarrow> u64 list \<Rightarrow> u64 \<times> u64 \<times> u64 \<Rightarrow> nat \<Rightarrow> u64 \<times> u64 \<times> u64" where
  "v6_step N timestamps = (\<lambda>(previousTimestamp, L, sum_3_ST) i.
     let thisTimestamp = (if previousTimestamp < timestamps ! i then timestamps ! i else previousTimestamp + 1);
         ST = min (6 * DIFFICULTY_TARGET) (thisTimestamp - previousTimestamp)
     in (thisTimestamp, L + ST * of_nat i, if N - 3 < of_nat i then sum_3_ST + ST else sum_3_ST))"

definition nextDifficultyV6 :: "u64 list \<Rightarrow> u64 list \<Rightarrow> u64 option" where
  "nextDifficultyV6 timestamps cumulativeDifficulties =
     (let T = DIFFICULTY_TARGET
      in if length timestamps \<le> 10 then Some 10000
         else do {
           let N = (if length timestamps < unat DIFFICULTY_BLOCKS_COUNT_V3 then of_nat (length timestamps) - 1
                    else DIFFICULTY_WINDOW_V3);
           let (_, L, sum_3_ST) = foldl (v6_step N timestamps) (timestamps ! 0, 0, 0) [1..<unat N + 1];
           last_cd \<leftarrow> vec_at cumulativeDifficulties (unat N);
           first_cd \<leftarrow> vec_at cumulativeDifficulties 0;
           before_cd \<leftarrow> vec_at cumulativeDifficulties (unat (N - 1));
           next_D \<leftarrow> (if 100 * 2 * L = 0 then None
                     else Some (((last_cd - first_cd) * T * (N + 1) * 99) div (100 * 2 * L)));
           let prev_D = last_cd - before_cd;
           let next_D = max ((prev_D * 67) div 100) (min next_D ((prev_D * 150) div 100));
           Some (if sum_3_ST < (8 * T) div 10 then max next_D ((prev_D * 108) div 100) else next_D)
         })"

section \<open>LWMA-2\<close>

text \<open>
  The loop that the versions 3 to 5 share: they differ in the function \<open>clip\<close> that limits a
  solve time.
\<close>

definition lwma2_step :: "(int \<Rightarrow> int) \<Rightarrow> int \<Rightarrow> u64 list \<Rightarrow> (int \<times> int) option \<Rightarrow> nat \<Rightarrow> (int \<times> int) option" where
  "lwma2_step clip N timestamps state i =
     do {
       (L, sum_3_ST) \<leftarrow> state;
       this \<leftarrow> vec_at timestamps i;
       previous \<leftarrow> vec_at timestamps (i - 1);
       ST \<leftarrow> i64 (sint this - sint previous);
       let ST = clip ST;
       weighted \<leftarrow> i64 (ST * int i);
       L \<leftarrow> i64 (L + weighted);
       sum_3_ST \<leftarrow> i64 (if N - 3 < int i then sum_3_ST + ST else sum_3_ST);
       Some (L, sum_3_ST)
     }"

definition lwma2_loop :: "(int \<Rightarrow> int) \<Rightarrow> u64 list \<Rightarrow> (int \<times> int) option" where
  "lwma2_loop clip timestamps =
     foldl (lwma2_step clip (sint DIFFICULTY_WINDOW_V3) timestamps) (Some (0, 0))
       [1..<unat DIFFICULTY_WINDOW_V3 + 1]"

text \<open>\<open>next_D\<close> and \<open>prev_D\<close> as they are computed after the loop.\<close>

definition lwma2_difficulties :: "u64 list \<Rightarrow> int \<Rightarrow> (int \<times> int) option" where
  "lwma2_difficulties cumulativeDifficulties L =
     do {
       let T = sint DIFFICULTY_TARGET;
       let N = unat DIFFICULTY_WINDOW_V3;
       last_cd \<leftarrow> vec_at cumulativeDifficulties N;
       first_cd \<leftarrow> vec_at cumulativeDifficulties 0;
       before_cd \<leftarrow> vec_at cumulativeDifficulties (N - 1);
       work \<leftarrow> i64 (sint (last_cd - first_cd) * T);
       work \<leftarrow> i64 (work * (int N + 1));
       work \<leftarrow> i64 (work * 99);
       divisor \<leftarrow> i64 (100 * 2 * L);
       next_D \<leftarrow> i64_div work divisor;
       Some (next_D, sint (last_cd - before_cd))
     }"

definition percent :: "int \<Rightarrow> int \<Rightarrow> int option" where
  "percent d p = do { x \<leftarrow> i64 (d * p); i64_div x 100 }"

definition nextDifficultyV5 :: "u64 list \<Rightarrow> u64 list \<Rightarrow> u64 option" where
  "nextDifficultyV5 timestamps cumulativeDifficulties =
     (let T = sint DIFFICULTY_TARGET
      in if length timestamps < unat DIFFICULTY_WINDOW_V3 + 1 then Some 10000
         else do {
           (L, sum_3_ST) \<leftarrow> lwma2_loop (\<lambda>ST. max (-4 * T) (min ST (6 * T))) timestamps;
           (next_D, prev_D) \<leftarrow> lwma2_difficulties cumulativeDifficulties L;
           low \<leftarrow> percent prev_D 67;
           high \<leftarrow> percent prev_D 150;
           let next_D = max low (min next_D high);
           if sum_3_ST < (8 * T) div 10
           then do { fast \<leftarrow> percent prev_D 108; Some (word_of_int (max next_D fast)) }
           else Some (word_of_int next_D)
         })"

definition nextDifficultyV4 :: "u64 list \<Rightarrow> u64 list \<Rightarrow> u64 option" where
  "nextDifficultyV4 timestamps cumulativeDifficulties =
     (let T = sint DIFFICULTY_TARGET
      in if length timestamps \<le> unat DIFFICULTY_WINDOW_V3 then Some 10000
         else do {
           (L, sum_3_ST) \<leftarrow> lwma2_loop (\<lambda>ST. clamp (-6 * T) ST (6 * T)) timestamps;
           (next_D, prev_D) \<leftarrow> lwma2_difficulties cumulativeDifficulties L;
           low \<leftarrow> percent prev_D 67;
           high \<leftarrow> percent prev_D 150;
           let next_D = max low (min next_D high);
           if sum_3_ST < (8 * T) div 10
           then do { fast \<leftarrow> percent prev_D 110; Some (word_of_int (max next_D fast)) }
           else Some (word_of_int next_D)
         })"

definition nextDifficultyV3 :: "u64 list \<Rightarrow> u64 list \<Rightarrow> u64 option" where
  "nextDifficultyV3 timestamps cumulativeDifficulties =
     (let T = sint DIFFICULTY_TARGET; FTL = sint MEVACOIN_BLOCK_FUTURE_TIME_LIMIT_V3
      in if length timestamps \<le> unat DIFFICULTY_WINDOW_V3 then Some 10000
         else do {
           (L, sum_3_ST) \<leftarrow> lwma2_loop (\<lambda>ST. max (- FTL) (min ST (6 * T))) timestamps;
           (next_D, prev_D) \<leftarrow> lwma2_difficulties cumulativeDifficulties L;
           low \<leftarrow> percent prev_D 70;
           high \<leftarrow> percent prev_D 107;
           let next_D = max low (min next_D high);
           if sum_3_ST < (8 * T) div 10
           then do { fast \<leftarrow> percent prev_D 110; Some (word_of_int fast) }
           else Some (word_of_int next_D)
         })"

section \<open>Testing a hash\<close>

text \<open>The product by the compiler's 128 bit integers: \<open>(low, high)\<close>.\<close>

definition mul :: "u64 \<Rightarrow> u64 \<Rightarrow> u64 \<times> u64" where
  "mul a b = (let res = (ucast a * ucast b :: 128 word) in (ucast res, ucast (drop_bit 64 res)))"

definition mul_portable :: "u64 \<Rightarrow> u64 \<Rightarrow> u64 \<times> u64" where
  "mul_portable a b = (let (high, low) = mul128 a b in (low, high))"

definition cadd :: "u64 \<Rightarrow> u64 \<Rightarrow> bool" where
  "cadd a b = (a + b < a)"

definition cadc :: "u64 \<Rightarrow> u64 \<Rightarrow> bool \<Rightarrow> bool" where
  "cadc a b c = (a + b < a \<or> c \<and> a + b = -1)"

text \<open>The \<open>i\<close>th 64 bit word of a hash; the machine is little endian.\<close>

definition hash_word :: "bytes \<Rightarrow> nat \<Rightarrow> u64" where
  "hash_word hash i = of_le_bytes (take 8 (drop (8 * i) hash))"

definition check_hash :: "bytes \<Rightarrow> u64 \<Rightarrow> bool" where
  "check_hash hash difficulty =
     (let (top, high) = mul (hash_word hash 3) difficulty
      in if high \<noteq> 0 then False
         else let (low, cur) = mul (hash_word hash 0) difficulty;
                  (low, high) = mul (hash_word hash 1) difficulty;
                  carry = cadd cur low;
                  cur = high;
                  (low, high) = mul (hash_word hash 2) difficulty;
                  carry = cadc cur low carry;
                  carry = cadc high top carry
              in \<not> carry)"

section \<open>The hash as a number\<close>

fun le_value :: "bytes \<Rightarrow> nat" where
  "le_value [] = 0"
| "le_value (b # bs) = unat b + 256 * le_value bs"

lemma le_value_bound: "le_value bs < 256 ^ length bs"
proof (induction bs)
  case (Cons b bs)
  have "unat b < 256" using unsigned_less [of b, where ?'a = nat] by simp
  with Cons show ?case by simp
qed simp

lemma le_value_append: "le_value (xs @ ys) = le_value xs + 256 ^ length xs * le_value ys"
  by (induction xs) (simp_all add: algebra_simps)

lemma unat_of_le_bytes: "length bs \<le> 8 \<Longrightarrow> unat (of_le_bytes bs :: u64) = le_value bs"
proof (induction bs)
  case (Cons b bs)
  let ?x = "of_le_bytes bs :: u64"
  have x: "unat ?x = le_value bs" using Cons by simp
  have "(256 :: nat) ^ length bs \<le> 256 ^ 7" using Cons.prems by (intro power_increasing) simp_all
  then have x56: "256 * unat ?x < 2 ^ 64" using le_value_bound [of bs] x by simp
  have "ucast b OR push_bit 8 ?x = ucast b + push_bit 8 ?x"
    by (rule disjunctive_add [symmetric]) (auto simp: bit_simps dest: bit_imp_le_length)
  moreover have "unat (push_bit 8 ?x) = 256 * unat ?x" using x56 by (simp add: unat_push_bit_eq)
  moreover have "unat (ucast b :: u64) = unat b" by (simp add: unat_ucast_up)
  moreover have "unat b + 256 * unat ?x < 2 ^ 64"
  proof -
    have "unat b < 256" using unsigned_less [of b, where ?'a = nat] by simp
    then show ?thesis using le_value_bound [of bs] \<open>256 ^ length bs \<le> 256 ^ 7\<close> x by simp
  qed
  ultimately show ?case using x by (simp add: unat_add_no_overflow)
qed simp

lemma le_value_words:
  assumes "length hash = 32"
  shows "le_value hash = unat (hash_word hash 0) + 2 ^ 64 * (unat (hash_word hash 1) +
    2 ^ 64 * (unat (hash_word hash 2) + 2 ^ 64 * unat (hash_word hash 3)))"
proof -
  define a b c d where "a = take 8 hash" and "b = take 8 (drop 8 hash)" and "c = take 8 (drop 16 hash)"
    and "d = drop 24 hash"
  have "drop 8 hash = b @ drop 16 hash" "drop 16 hash = c @ d"
    using append_take_drop_id [of 8 "drop 8 hash"] append_take_drop_id [of 8 "drop 16 hash"]
    unfolding b_def c_def d_def drop_drop by simp_all
  then have "hash = a @ b @ c @ d" unfolding a_def by (metis append_take_drop_id)
  then have "le_value hash = le_value (a @ b @ c @ d)" by (rule arg_cong)
  also have "\<dots> = le_value a + 2 ^ 64 * (le_value b + 2 ^ 64 * (le_value c + 2 ^ 64 * le_value d))"
    using assms by (simp add: le_value_append a_def b_def c_def d_def algebra_simps)
  finally show ?thesis
    using assms by (simp add: hash_word_def unat_of_le_bytes a_def b_def c_def d_def)
qed

section \<open>The carries of the product\<close>

lemma mul_hi_lo:
  "unat (snd (mul a b)) = unat a * unat b div 2 ^ 64" "unat (fst (mul a b)) = unat a * unat b mod 2 ^ 64"
proof -
  have less: "unat a * unat b < 2 ^ 64 * 2 ^ 64"
    using unat_lt_u64 [of a] unat_lt_u64 [of b] by (intro mult_strict_mono) simp_all
  then have r: "unat (ucast a * ucast b :: 128 word) = unat a * unat b"
    by (simp add: unat_word_ariths unat_ucast_up)
  from less have "unat a * unat b div 2 ^ 64 < 2 ^ 64" by (simp add: div_less_iff_less_mult)
  then show "unat (snd (mul a b)) = unat a * unat b div 2 ^ 64"
    unfolding mul_def Let_def snd_conv unsigned_ucast_eq unat_drop_bit_div r by (simp add: take_bit_eq_mod)
  show "unat (fst (mul a b)) = unat a * unat b mod 2 ^ 64"
    by (simp add: mul_def Let_def unsigned_ucast_eq take_bit_eq_mod r)
qed

lemma mul_exact: "unat (fst (mul a b)) + 2 ^ 64 * unat (snd (mul a b)) = unat a * unat b"
  unfolding mul_hi_lo by (rule mod_mult_div_eq)

lemma mul_eq_mul_portable: "mul a b = mul_portable a b"
  by (simp add: mul_portable_def prod_eq_iff word_unat_eq_iff mul_hi_lo mul128_hi_lo split_beta)

lemma cadd_iff: "cadd a b \<longleftrightarrow> 2 ^ 64 \<le> unat a + unat b"
  unfolding cadd_def using add_overflow_iff [of a b] by simp

lemma cadc_iff: "cadc a b c \<longleftrightarrow> 2 ^ 64 \<le> unat a + unat b + of_bool c"
proof (cases "cadd a b")
  case False
  then have "unat (a + b) = unat a + unat b"
    by (simp add: cadd_iff unat_add_no_overflow not_le)
  then have "a + b = -1 \<longleftrightarrow> unat a + unat b = 2 ^ 64 - 1"
    by (simp add: word_unat_eq_iff unsigned_minus_1_eq_mask mask_eq_exp_minus_1)
  with False show ?thesis using False by (auto simp: cadc_def cadd_def [symmetric] cadd_iff)
qed (auto simp: cadc_def cadd_def [symmetric] cadd_iff)

lemma div_carry:
  assumes "(y :: nat) < 2 * B"
  shows "(y + B * z) div B = z + of_bool (B \<le> y)"
proof -
  have "y div B = of_bool (B \<le> y)"
    using assms by (auto simp: of_bool_def div_eq_dividend_iff intro: div_nat_eqI)
  then show ?thesis using assms by (cases "B = 0") simp_all
qed

lemma check_hash_value:
  assumes "length hash = 32"
  shows "check_hash hash difficulty \<longleftrightarrow> le_value hash * unat difficulty < 2 ^ 256"
proof -
  define B :: nat where "B = 2 ^ 64"
  define l h where "l i = unat (fst (mul (hash_word hash i) difficulty))"
    and "h i = unat (snd (mul (hash_word hash i) difficulty))" for i
  define c1 c2 c3 where "c1 = cadd (snd (mul (hash_word hash 0) difficulty)) (fst (mul (hash_word hash 1) difficulty))"
    and "c2 = cadc (snd (mul (hash_word hash 1) difficulty)) (fst (mul (hash_word hash 2) difficulty)) c1"
    and "c3 = cadc (snd (mul (hash_word hash 2) difficulty)) (fst (mul (hash_word hash 3) difficulty)) c2"
  have c: "c1 \<longleftrightarrow> B \<le> h 0 + l 1" "c2 \<longleftrightarrow> B \<le> h 1 + l 2 + of_bool c1" "c3 \<longleftrightarrow> B \<le> h 2 + l 3 + of_bool c2"
    by (simp_all only: c1_def c2_def c3_def cadd_iff cadc_iff l_def h_def B_def)
  have less: "l i < B" "h i < B" for i using unat_lt_u64 by (simp_all add: l_def h_def B_def)
  have bounds: "h 0 + l 1 < 2 * B" "h 1 + l 2 + of_bool c1 < 2 * B" "h 2 + l 3 + of_bool c2 < 2 * B"
    using less(1) [of 1] less(2) [of 0] less(1) [of 2] less(2) [of 1] less(1) [of 3] less(2) [of 2] by simp_all
  have w: "unat (hash_word hash i) * unat difficulty = l i + B * h i" for i
    by (simp only: l_def h_def B_def mul_exact)
  have "le_value hash * unat difficulty =
      l 0 + B * ((h 0 + l 1) + B * ((h 1 + l 2) + B * ((h 2 + l 3) + B * h 3)))"
    unfolding le_value_words [OF assms] B_def [symmetric]
    by (simp only: distrib_right distrib_left mult.assoc w)
  then have "le_value hash * unat difficulty div B = (h 0 + l 1) + B * ((h 1 + l 2) + B * ((h 2 + l 3) + B * h 3))"
    using less(1) [of 0] div_carry [of "l 0" B] by simp
  then have "le_value hash * unat difficulty div B div B = (h 1 + l 2 + of_bool c1) + B * ((h 2 + l 3) + B * h 3)"
    using div_carry [OF bounds(1)] c(1) by simp
  then have "le_value hash * unat difficulty div B div B div B = h 2 + l 3 + of_bool c2 + B * h 3"
    using div_carry [OF bounds(2)] c(2) by simp
  moreover have "le_value hash * unat difficulty < B * B * B * B \<longleftrightarrow>
      le_value hash * unat difficulty div B div B div B < B"
    by (simp add: div_less_iff_less_mult B_def)
  ultimately have "le_value hash * unat difficulty < B * B * B * B \<longleftrightarrow> h 2 + l 3 + of_bool c2 + B * h 3 < B"
    by simp
  also have "\<dots> \<longleftrightarrow> h 3 = 0 \<and> \<not> c3" unfolding c(3) by (cases "h 3") auto
  also have "\<dots> \<longleftrightarrow> check_hash hash difficulty"
    by (auto simp: check_hash_def h_def c1_def c2_def c3_def word_unat_eq_iff split_beta Let_def)
  finally show ?thesis by (simp add: B_def)
qed

text \<open>C21: A hash passes the test for a difficulty exactly when the product of the hash, read as a little
  endian number, and the difficulty does not reach \<open>2 ^ 256\<close>.\<close>

theorem check_hash_iff:
  assumes "length hash = 32"
  shows "check_hash hash difficulty \<longleftrightarrow> le_value hash * unat difficulty < 2 ^ 256"
  using assms by (rule check_hash_value)

lemma le_value_zeros: "le_value (replicate n 0) = 0"
  by (induction n) simp_all

lemma check_hash_iff_witness:
  "length (replicate 31 0 @ [16 :: u8]) = 32 \<and>
   check_hash (replicate 31 0 @ [16]) 15 \<and> \<not> check_hash (replicate 31 0 @ [16]) 16"
proof -
  have "le_value (replicate 31 0 @ [16]) = 16 * 256 ^ 31" by (simp add: le_value_append le_value_zeros)
  then show ?thesis
    using check_hash_iff [of "replicate 31 0 @ [16]" 15] check_hash_iff [of "replicate 31 0 @ [16]" 16] by simp
qed

section \<open>The next difficulty\<close>

text \<open>A solve time is at least one second, because time stamps are made increasing, and at most six targets.\<close>

lemma v6_step_bounds:
  assumes "v6_step N ts (p, L, s) i = (p', L', s')" "i \<le> 60" "unat L \<le> 64800 * k" "k < 60"
  shows "unat L' \<le> 64800 * Suc k \<and> unat L + i \<le> unat L'"
proof -
  define this where "this = (if p < ts ! i then ts ! i else p + 1)"
  define ST :: u64 where "ST = min 1080 (this - p)"
  have "this - p \<noteq> 0" by (auto simp: this_def)
  then have ST: "1 \<le> unat ST" "unat ST \<le> 1080"
    by (auto simp: ST_def min_def word_le_nat_alt unat_gt_0 Suc_le_eq)
  have le: "unat ST * i \<le> 1080 * 60" using ST assms(2) by (intro mult_le_mono) simp_all
  then have m: "unat (ST * of_nat i) = unat ST * i"
    using assms(2) by (simp add: unat_word_ariths unat_of_nat)
  moreover have "L' = L + ST * of_nat i"
    using assms(1) by (auto simp: v6_step_def Let_def ST_def this_def DIFFICULTY_TARGET_def)
  moreover have "unat L + unat ST * i < 2 ^ 64" using le assms(3,4) by simp
  ultimately have "unat L' = unat L + unat ST * i" by (simp add: unat_add_no_overflow)
  moreover have "i \<le> unat ST * i" using ST by simp
  ultimately show ?thesis using le assms(3) by simp
qed

lemma v6_loop_bounds:
  "k \<le> 60 \<Longrightarrow> foldl (v6_step N ts) (p, 0, 0) [1..<k + 1] = (p', L', s') \<Longrightarrow> unat L' \<le> 64800 * k \<and> k \<le> unat L'"
proof (induction k arbitrary: p' L' s')
  case (Suc k)
  obtain q M t where fold: "foldl (v6_step N ts) (p, 0, 0) [1..<k + 1] = (q, M, t)" by (metis prod_cases3)
  with Suc.prems have "v6_step N ts (q, M, t) (Suc k) = (p', L', s')" by simp
  from v6_step_bounds [OF this, of k] Suc.IH [OF _ fold] Suc.prems show ?case by simp
qed simp

lemma percent_word:
  assumes "unat (d :: u64) * 150 < 2 ^ 64" "p \<le> 150"
  shows "unat ((d * of_nat p) div 100) = unat d * p div 100"
proof -
  have "unat d * p \<le> unat d * 150" using assms(2) by simp
  then have "unat d * p < 2 ^ 64" using assms(1) by linarith
  moreover have "unat (of_nat p :: u64) = p" using assms(2) by (simp add: unat_of_nat)
  ultimately have "unat (d * of_nat p) = unat d * p" by (simp add: unat_word_ariths)
  then show ?thesis by (simp add: unat_div)
qed

text \<open>The number of blocks the computation looks back.\<close>

abbreviation v6_window :: "u64 list \<Rightarrow> nat" where
  "v6_window timestamps \<equiv> min (length timestamps - 1) 60"

text \<open>C23: With more than ten blocks the LWMA-3 computation never divides by zero, whatever the time stamps
  are (they may decrease, and repeat), and the next difficulty is between 67 and 150 percent of the
  difficulty of the last block.\<close>

theorem nextDifficultyV6_bounds:
  assumes "10 < length timestamps" "length cumulativeDifficulties = length timestamps"
    and "prev = unat (cumulativeDifficulties ! v6_window timestamps - cumulativeDifficulties ! (v6_window timestamps - 1))"
    and "prev * 150 < 2 ^ 64"
  shows "\<exists>d. nextDifficultyV6 timestamps cumulativeDifficulties = Some d \<and>
    prev * 67 div 100 \<le> unat d \<and> unat d \<le> prev * 150 div 100"
proof -
  let ?n = "v6_window timestamps" and ?cd = cumulativeDifficulties
  define N :: u64 where "N = (if length timestamps < unat DIFFICULTY_BLOCKS_COUNT_V3 then of_nat (length timestamps) - 1
                    else DIFFICULTY_WINDOW_V3)"
  have N: "unat N = ?n" "unat (N - 1) = ?n - 1"
  proof -
    have "of_nat (length timestamps) - 1 = (of_nat (length timestamps - 1) :: u64)" using assms(1) by simp
    then have "N = of_nat ?n" by (auto simp: N_def difficulty_config)
    moreover from this have "N - 1 = of_nat (?n - 1)" using assms(1) by (simp add: of_nat_diff)
    moreover have "?n < 2 ^ 64" by simp
    ultimately show "unat N = ?n" "unat (N - 1) = ?n - 1" by (simp_all add: unat_of_nat)
  qed
  obtain q L sum where fold: "foldl (v6_step N timestamps) (timestamps ! 0, 0, 0) [1..<unat N + 1] = (q, L, sum)"
    by (metis prod_cases3)
  then have L: "unat L \<le> 64800 * 60" "0 < unat L"
    using v6_loop_bounds [of ?n N timestamps "timestamps ! 0" q L sum] assms(1) unfolding N by linarith+
  then have L200: "100 * 2 * L \<noteq> 0" by (simp add: word_unat_eq_iff unat_word_ariths)
  define D where "D = ?cd ! ?n - ?cd ! (?n - 1)"
  have D: "prev = unat D" using assms(3) by (simp add: D_def)
  note pct = percent_word [of D, folded D, OF assms(4)]
  have p: "unat ((D * 67) div 100) = prev * 67 div 100" "unat ((D * 150) div 100) = prev * 150 div 100"
    "unat ((D * 108) div 100) = prev * 108 div 100"
    using pct [of 67] pct [of 150] pct [of 108] by simp_all
  have mono: "prev * 67 div 100 \<le> prev * 150 div 100" "prev * 108 div 100 \<le> prev * 150 div 100"
    by (simp_all add: div_le_mono)
  have idx: "(length timestamps \<le> 10) = False" "(?n < length ?cd) = True" "(0 < length ?cd) = True"
    "(?n - 1 < length ?cd) = True"
    using assms(1,2) by auto
  define x where "x = ((?cd ! ?n - ?cd ! 0) * DIFFICULTY_TARGET * (N + 1) * 99) div (100 * 2 * L)"
  define m where "m = max ((D * 67) div 100) (min x ((D * 150) div 100))"
  have "nextDifficultyV6 timestamps ?cd =
      Some (if sum < (8 * DIFFICULTY_TARGET) div 10 then max m ((D * 108) div 100) else m)"
    unfolding nextDifficultyV6_def Let_def N_def [symmetric] N vec_at_def
    by (simp only: idx fold [unfolded N] L200 if_True if_False prod.case Option.bind.simps m_def x_def D_def)
  moreover have "prev * 67 div 100 \<le> unat m \<and> unat m \<le> prev * 150 div 100"
    using mono unfolding m_def by (simp add: max_def min_def word_le_nat_alt p)
  ultimately show ?thesis using mono by (simp add: max_def word_le_nat_alt p)
qed

lemma nextDifficultyV6_bounds_witness:
  "10 < length (map (\<lambda>i. of_nat (180 * i) :: u64) [0..<12]) \<and>
   (\<exists>d. nextDifficultyV6 (map (\<lambda>i. of_nat (180 * i)) [0..<12]) (map (\<lambda>i. of_nat (1000 * i)) [0..<12]) = Some d \<and>
     670 \<le> unat d \<and> unat d \<le> 1500)"
  using nextDifficultyV6_bounds [of "map (\<lambda>i. of_nat (180 * i)) [0..<12]" "map (\<lambda>i. of_nat (1000 * i)) [0..<12]" 1000]
  by simp

text \<open>When all solve times are zero, the weighted sum of the versions 3 to 5 is zero.\<close>

lemma lwma2_loop_constant:
  assumes "clip 0 = 0" "60 < n"
  shows "lwma2_loop clip (replicate n t) = Some (0, 0)"
proof -
  have "foldl (lwma2_step clip (sint DIFFICULTY_WINDOW_V3) (replicate n t)) (Some (0, 0)) [1..<k + 1] = Some (0, 0)"
    if "k < n" for k
    using that by (induction k) (simp_all add: lwma2_step_def vec_at_def i64_def assms(1))
  from this [of 60] show ?thesis using assms(2) by (simp add: lwma2_loop_def DIFFICULTY_WINDOW_V3_def)
qed

lemma lwma2_difficulties_zero: "lwma2_difficulties cd 0 = None"
  by (simp add: lwma2_difficulties_def i64_def i64_div_def split: bind_splits)

text \<open>C40: The versions 3, 4 and 5 divide by zero when the last 61 blocks have the same time stamp.\<close>

theorem lwma2_division_by_zero:
  "60 < n \<Longrightarrow> nextDifficultyV3 (replicate n t) cd = None \<and> nextDifficultyV4 (replicate n t) cd = None \<and>
     nextDifficultyV5 (replicate n t) cd = None"
  by (simp add: nextDifficultyV3_def nextDifficultyV4_def nextDifficultyV5_def lwma2_loop_constant clamp_def
      lwma2_difficulties_zero difficulty_config)

lemma lwma2_division_by_zero_witness:
  "60 < (61 :: nat) \<and> nextDifficultyV5 (replicate 61 1700000000) (map of_nat [0..<61]) = None"
proof -
  have n: "60 < (61 :: nat)" by simp
  with lwma2_division_by_zero [OF n] show ?thesis by blast
qed

text \<open>Version 4 passes the arguments of \<open>clamp\<close> in the wrong order, so its loop is the one with a lower
  limit only: a solve time of any length counts in full, where the versions 3 and 5 cut it to six targets.\<close>

theorem nextDifficultyV4_no_upper_limit:
  "lwma2_loop (\<lambda>ST. clamp (-6 * sint DIFFICULTY_TARGET) ST (6 * sint DIFFICULTY_TARGET)) timestamps =
   lwma2_loop (\<lambda>ST. max ST (-6 * sint DIFFICULTY_TARGET)) timestamps"
  by (simp add: clamp_def DIFFICULTY_TARGET_def)

end
