(* ===== verification/Currency.thy ===== *)
theory Currency
  imports Blocks Amounts Config Text_Utils
begin

text \<open>
  The rules of the currency: \<^verbatim>\<open>src/mevacoin_core/currency.h\<close> and
  \<^verbatim>\<open>src/mevacoin_core/currency.cpp\<close>, except for the text forms (theory \<open>Currency_Text\<close>) and the
  difficulty and proof of work (theory \<open>Consensus\<close>).  The parameters of a \<open>Currency\<close> object are
  a record; file names and the logger are left out.
\<close>

section \<open>Parameters\<close>

record Currency =
  m_maxBlockHeight :: u32
  m_maxTxSize :: u64
  m_publicAddressBase58Prefix :: u64
  m_minedMoneyUnlockWindow :: u32
  m_timestampCheckWindow :: u64
  m_blockFutureTimeLimit :: u64
  m_moneySupply :: u64
  m_emissionSpeedFactor :: u32
  m_genesisBlockReward :: u64
  m_rewardBlocksWindow :: u64
  m_zawyDifficultyBlockIndex :: u32
  m_zawyDifficultyV2 :: u64
  m_zawyDifficultyBlockVersion :: u8
  m_blockGrantedFullRewardZone :: u64
  m_minerTxBlobReservedSize :: u64
  m_numberOfDecimalPlaces :: u64
  m_coin :: u64
  m_mininumFee :: u64
  m_defaultDustThreshold :: u64
  m_difficultyTarget :: u64
  m_difficultyWindow :: u64
  m_difficultyLag :: u64
  m_difficultyCut :: u64
  m_maxBlockSizeInitial :: u64
  m_maxBlockSizeGrowthSpeedNumerator :: u64
  m_maxBlockSizeGrowthSpeedDenominator :: u64
  m_lockedTxAllowedDeltaSeconds :: u64
  m_lockedTxAllowedDeltaBlocks :: u64
  m_mempoolTxLiveTime :: u64
  m_mempoolTxFromAltBlockLiveTime :: u64
  m_numberOfPeriodsToForgetTxDeletedFromPool :: u64
  m_fusionTxMaxSize :: u64
  m_fusionTxMinInputCount :: u64
  m_fusionTxMinInOutCountRatio :: u64
  m_upgradeHeightV2 :: u32
  m_upgradeHeightV3 :: u32
  m_upgradeHeightV4 :: u32
  m_upgradeHeightV5 :: u32
  m_upgradeVotingThreshold :: u32
  m_upgradeVotingWindow :: u32
  m_upgradeWindow :: u32
  m_testnet :: bool

text \<open>The setters of \<open>CurrencyBuilder\<close> that check their argument; \<open>None\<close> is the exception.\<close>

definition emissionSpeedFactor :: "u32 \<Rightarrow> Currency \<Rightarrow> Currency option" where
  "emissionSpeedFactor val c =
     (if val \<le> 0 \<or> 8 * 8 < val then None else Some (c\<lparr>m_emissionSpeedFactor := val\<rparr>))"

definition numberOfDecimalPlaces :: "u64 \<Rightarrow> Currency \<Rightarrow> Currency" where
  "numberOfDecimalPlaces val c =
     c\<lparr>m_numberOfDecimalPlaces := val, m_coin := ((\<lambda>x. x * 10) ^^ unat val) 1\<rparr>"

definition difficultyWindow :: "u64 \<Rightarrow> Currency \<Rightarrow> Currency option" where
  "difficultyWindow val c = (if val < 2 then None else Some (c\<lparr>m_difficultyWindow := val\<rparr>))"

definition upgradeVotingThreshold :: "u32 \<Rightarrow> Currency \<Rightarrow> Currency option" where
  "upgradeVotingThreshold val c =
     (if val \<le> 0 \<or> 100 < val then None else Some (c\<lparr>m_upgradeVotingThreshold := val\<rparr>))"

definition upgradeWindow :: "u32 \<Rightarrow> Currency \<Rightarrow> Currency option" where
  "upgradeWindow val c = (if val \<le> 0 then None else Some (c\<lparr>m_upgradeWindow := val\<rparr>))"

text \<open>
  The constructor of \<open>CurrencyBuilder\<close> on an object \<open>c\<close> with arbitrary fields: every parameter
  is set.
\<close>

definition CurrencyBuilder :: "Currency \<Rightarrow> Currency option" where
  "CurrencyBuilder c =
     do {
       c \<leftarrow> emissionSpeedFactor EMISSION_SPEED_FACTOR (c\<lparr>
         m_maxBlockHeight := MEVACOIN_MAX_BLOCK_NUMBER,
         m_maxTxSize := MEVACOIN_MAX_TX_SIZE,
         m_publicAddressBase58Prefix := MEVACOIN_PUBLIC_ADDRESS_BASE58_PREFIX,
         m_minedMoneyUnlockWindow := MEVACOIN_MINED_MONEY_UNLOCK_WINDOW,
         m_timestampCheckWindow := BLOCKCHAIN_TIMESTAMP_CHECK_WINDOW,
         m_blockFutureTimeLimit := MEVACOIN_BLOCK_FUTURE_TIME_LIMIT,
         m_moneySupply := MONEY_SUPPLY\<rparr>);
       c \<leftarrow> difficultyWindow DIFFICULTY_WINDOW (numberOfDecimalPlaces MEVACOIN_DISPLAY_DECIMAL_POINT (c\<lparr>
         m_genesisBlockReward := GENESIS_BLOCK_REWARD,
         m_rewardBlocksWindow := MEVACOIN_REWARD_BLOCKS_WINDOW,
         m_zawyDifficultyBlockIndex := ZAWY_DIFFICULTY_BLOCK_INDEX,
         m_zawyDifficultyV2 := ZAWY_DIFFICULTY_V2,
         m_zawyDifficultyBlockVersion := ZAWY_DIFFICULTY_DIFFICULTY_BLOCK_VERSION,
         m_blockGrantedFullRewardZone := MEVACOIN_BLOCK_GRANTED_FULL_REWARD_ZONE,
         m_minerTxBlobReservedSize := MEVACOIN_COINBASE_BLOB_RESERVED_SIZE,
         m_mininumFee := MINIMUM_FEE,
         m_defaultDustThreshold := DEFAULT_DUST_THRESHOLD,
         m_difficultyTarget := DIFFICULTY_TARGET\<rparr>));
       c \<leftarrow> upgradeVotingThreshold UPGRADE_VOTING_THRESHOLD (c\<lparr>
         m_difficultyLag := DIFFICULTY_LAG,
         m_difficultyCut := DIFFICULTY_CUT,
         m_maxBlockSizeInitial := MAX_BLOCK_SIZE_INITIAL,
         m_maxBlockSizeGrowthSpeedNumerator := MAX_BLOCK_SIZE_GROWTH_SPEED_NUMERATOR,
         m_maxBlockSizeGrowthSpeedDenominator := MAX_BLOCK_SIZE_GROWTH_SPEED_DENOMINATOR,
         m_lockedTxAllowedDeltaSeconds := MEVACOIN_LOCKED_TX_ALLOWED_DELTA_SECONDS,
         m_lockedTxAllowedDeltaBlocks := MEVACOIN_LOCKED_TX_ALLOWED_DELTA_BLOCKS,
         m_mempoolTxLiveTime := MEVACOIN_MEMPOOL_TX_LIVETIME,
         m_mempoolTxFromAltBlockLiveTime := MEVACOIN_MEMPOOL_TX_FROM_ALT_BLOCK_LIVETIME,
         m_numberOfPeriodsToForgetTxDeletedFromPool := MEVACOIN_NUMBER_OF_PERIODS_TO_FORGET_TX_DELETED_FROM_POOL,
         m_fusionTxMaxSize := FUSION_TX_MAX_SIZE,
         m_fusionTxMinInputCount := FUSION_TX_MIN_INPUT_COUNT,
         m_fusionTxMinInOutCountRatio := FUSION_TX_MIN_IN_OUT_COUNT_RATIO,
         m_upgradeHeightV2 := UPGRADE_HEIGHT_V2,
         m_upgradeHeightV3 := UPGRADE_HEIGHT_V3,
         m_upgradeHeightV4 := UPGRADE_HEIGHT_V4,
         m_upgradeHeightV5 := UPGRADE_HEIGHT_V5\<rparr>);
       upgradeWindow UPGRADE_WINDOW (c\<lparr>m_upgradeVotingWindow := UPGRADE_VOTING_WINDOW, m_testnet := False\<rparr>)
     }"

text \<open>
  The move constructor copies every parameter except \<open>m_mempoolTxFromAltBlockLiveTime\<close>, which keeps
  the arbitrary value \<open>uninitialised\<close>.
\<close>

definition Currency_move :: "u64 \<Rightarrow> Currency \<Rightarrow> Currency" where
  "Currency_move uninitialised c = c\<lparr>m_mempoolTxFromAltBlockLiveTime := uninitialised\<rparr>"

section \<open>The genesis block\<close>

definition GENESIS_COINBASE_TX_HEX :: string where
  "GENESIS_COINBASE_TX_HEX =
     ''011401ff000100024e8627e5eb3afae39f847029dda8986de3175e6ec043317a0c45065f4a5898c221011616e1e1a1f7bfe50cd57213f01bfde3cad7813181bf2e940d34ed8de42c9d46''"

definition empty_prefix :: TransactionPrefix where
  "empty_prefix = \<lparr>version = 0, unlockTime = 0, inputs = [], outputs = [], extra = []\<rparr>"

definition zero_key :: bytes where
  "zero_key = replicate 32 0"

definition empty_ParentBlock :: ParentBlock where
  "empty_ParentBlock = \<lparr>pb_majorVersion = 0, pb_minorVersion = 0, pb_previousBlockHash = zero_key,
     transactionCount = 0, baseTransactionBranch = [], pb_baseTransaction = empty_prefix, blockchainBranch = []\<rparr>"

definition generateGenesisBlock :: "Currency \<Rightarrow> BlockTemplate option" where
  "generateGenesisBlock c =
     do {
       minerTxBlob \<leftarrow> fromHex GENESIS_COINBASE_TX_HEX;
       tx \<leftarrow> (case fromBinaryArray read_Transaction minerTxBlob of Inl _ \<Rightarrow> None | Inr tx \<Rightarrow> Some tx);
       Some \<lparr>majorVersion = BLOCK_MAJOR_VERSION_1, minorVersion = BLOCK_MINOR_VERSION_0,
         nonce = (if m_testnet c then 71 else 70), timestamp = 0, previousBlockHash = zero_key,
         parentBlock = empty_ParentBlock, baseTransaction = tx, transactionHashes = []\<rparr>
     }"

definition Currency_init :: "(bytes \<Rightarrow> bytes) \<Rightarrow> Currency \<Rightarrow> Currency option" where
  "Currency_init cn_fast_hash c =
     do {
       genesis \<leftarrow> generateGenesisBlock c;
       _ \<leftarrow> (case getBlockHash cn_fast_hash genesis of Inl _ \<Rightarrow> None | Inr hash \<Rightarrow> Some hash);
       Some (if m_testnet c then c\<lparr>m_upgradeHeightV2 := 0, m_upgradeHeightV3 := -1\<rparr> else c)
     }"

section \<open>Rules that depend on version and height\<close>

definition timestampCheckWindow :: "Currency \<Rightarrow> u32 \<Rightarrow> u64" where
  "timestampCheckWindow c blockHeight =
     (if LWMA_2_DIFFICULTY_BLOCK_INDEX_V3 \<le> ucast blockHeight then BLOCKCHAIN_TIMESTAMP_CHECK_WINDOW_V3
      else m_timestampCheckWindow c)"

definition blockFutureTimeLimit :: "Currency \<Rightarrow> u32 \<Rightarrow> u64" where
  "blockFutureTimeLimit c blockHeight =
     (if LWMA_2_DIFFICULTY_BLOCK_INDEX_V2 \<le> ucast blockHeight then MEVACOIN_BLOCK_FUTURE_TIME_LIMIT_V4
      else if LWMA_2_DIFFICULTY_BLOCK_INDEX \<le> ucast blockHeight then MEVACOIN_BLOCK_FUTURE_TIME_LIMIT_V3
      else m_blockFutureTimeLimit c)"

definition defaultDustThreshold :: "Currency \<Rightarrow> u32 \<Rightarrow> u64" where
  "defaultDustThreshold c height =
     (if DUST_THRESHOLD_V2_HEIGHT \<le> height then DEFAULT_DUST_THRESHOLD_V2 else m_defaultDustThreshold c)"

definition defaultFusionDustThreshold :: "Currency \<Rightarrow> u32 \<Rightarrow> u64" where
  "defaultFusionDustThreshold c height =
     (if FUSION_DUST_THRESHOLD_HEIGHT_V2 \<le> height then DEFAULT_DUST_THRESHOLD_V2 else m_defaultDustThreshold c)"

definition minNumberVotingBlocks :: "Currency \<Rightarrow> u32" where
  "minNumberVotingBlocks c = (m_upgradeVotingWindow c * m_upgradeVotingThreshold c + 99) div 100"

definition maxUpgradeDistance :: "Currency \<Rightarrow> u32" where
  "maxUpgradeDistance c = 7 * m_upgradeWindow c"

definition calculateUpgradeHeight :: "Currency \<Rightarrow> u32 \<Rightarrow> u32" where
  "calculateUpgradeHeight c voteCompleteHeight = voteCompleteHeight + m_upgradeWindow c"

definition by_block_version :: "u64 \<Rightarrow> u64 \<Rightarrow> u64 \<Rightarrow> u8 \<Rightarrow> u64" where
  "by_block_version v3 v2 v1 blockMajorVersion =
     (if BLOCK_MAJOR_VERSION_3 \<le> blockMajorVersion then v3
      else if blockMajorVersion = BLOCK_MAJOR_VERSION_2 then v2
      else v1)"

definition difficultyWindowByBlockVersion :: "Currency \<Rightarrow> u8 \<Rightarrow> u64" where
  "difficultyWindowByBlockVersion c = by_block_version (m_difficultyWindow c) DIFFICULTY_WINDOW_V2 DIFFICULTY_WINDOW_V1"

definition difficultyLagByBlockVersion :: "Currency \<Rightarrow> u8 \<Rightarrow> u64" where
  "difficultyLagByBlockVersion c = by_block_version (m_difficultyLag c) DIFFICULTY_LAG_V2 DIFFICULTY_LAG_V1"

definition difficultyCutByBlockVersion :: "Currency \<Rightarrow> u8 \<Rightarrow> u64" where
  "difficultyCutByBlockVersion c = by_block_version (m_difficultyCut c) DIFFICULTY_CUT_V2 DIFFICULTY_CUT_V1"

definition difficultyBlocksCountByBlockVersion :: "Currency \<Rightarrow> u8 \<Rightarrow> u32 \<Rightarrow> u64" where
  "difficultyBlocksCountByBlockVersion c blockMajorVersion height =
     (if LWMA_2_DIFFICULTY_BLOCK_INDEX \<le> ucast height then DIFFICULTY_BLOCKS_COUNT_V3
      else difficultyWindowByBlockVersion c blockMajorVersion + difficultyLagByBlockVersion c blockMajorVersion)"

definition blockGrantedFullRewardZoneByBlockVersion :: "Currency \<Rightarrow> u8 \<Rightarrow> u64" where
  "blockGrantedFullRewardZoneByBlockVersion c =
     by_block_version (m_blockGrantedFullRewardZone c) MEVACOIN_BLOCK_GRANTED_FULL_REWARD_ZONE_V2
       MEVACOIN_BLOCK_GRANTED_FULL_REWARD_ZONE_V1"

definition upgradeHeight :: "Currency \<Rightarrow> u8 \<Rightarrow> u32" where
  "upgradeHeight c major =
     (if major = BLOCK_MAJOR_VERSION_2 then m_upgradeHeightV2 c
      else if major = BLOCK_MAJOR_VERSION_3 then m_upgradeHeightV3 c
      else if major = BLOCK_MAJOR_VERSION_4 then m_upgradeHeightV4 c
      else if major = BLOCK_MAJOR_VERSION_5 then m_upgradeHeightV5 c
      else -1)"

section \<open>Rewards\<close>

text \<open>
  The reward and the emission change.  The outer \<open>None\<close> stands for undefined behaviour (a shift by the width of
  the word, a median that is zero modulo \<open>2 ^ 32\<close>), the inner one for the result \<open>false\<close>.
\<close>

definition getBlockReward :: "Currency \<Rightarrow> u8 \<Rightarrow> u64 \<Rightarrow> u64 \<Rightarrow> u64 \<Rightarrow> u64 \<Rightarrow> (u64 \<times> int) option option" where
  "getBlockReward c blockMajorVersion medianSize currentBlockSize alreadyGeneratedCoins fee =
     (if 64 \<le> m_emissionSpeedFactor c then None
      else let baseReward = (if alreadyGeneratedCoins = 0 \<and> m_genesisBlockReward c \<noteq> 0 then m_genesisBlockReward c
             else drop_bit (unat (m_emissionSpeedFactor c)) (m_moneySupply c - alreadyGeneratedCoins));
           medianSize = max medianSize (blockGrantedFullRewardZoneByBlockVersion c blockMajorVersion)
      in if 2 * medianSize < currentBlockSize then Some None
         else do {
           penalizedBaseReward \<leftarrow> getPenalizedAmount baseReward medianSize currentBlockSize;
           penalizedFee \<leftarrow> (if BLOCK_MAJOR_VERSION_2 \<le> blockMajorVersion
             then getPenalizedAmount fee medianSize currentBlockSize else Some fee);
           Some (Some (penalizedBaseReward + penalizedFee, sint (penalizedBaseReward - (fee - penalizedFee))))
         })"

definition maxBlockCumulativeSize :: "Currency \<Rightarrow> u64 \<Rightarrow> u64 option" where
  "maxBlockCumulativeSize c height =
     (if m_maxBlockSizeGrowthSpeedDenominator c = 0 then None
      else Some (m_maxBlockSizeInitial c +
             (height * m_maxBlockSizeGrowthSpeedNumerator c) div m_maxBlockSizeGrowthSpeedDenominator c))"

section \<open>Miner transactions\<close>

text \<open>The loop that adds the last amount to the one before it until there are at most \<open>maxOuts\<close> amounts.\<close>

function merge_outs :: "nat \<Rightarrow> u64 list \<Rightarrow> u64 list" where
  "merge_outs maxOuts outAmounts =
     (if maxOuts < length outAmounts \<and> 2 \<le> length outAmounts
      then merge_outs maxOuts (butlast (outAmounts[length outAmounts - 2 :=
             outAmounts ! (length outAmounts - 2) + last outAmounts]))
      else outAmounts)"
  by pat_completeness auto
termination by (relation "measure (\<lambda>(_, outAmounts). length outAmounts)") auto

declare merge_outs.simps [simp del]

fun make_outs ::
  "(nat \<Rightarrow> bytes option) \<Rightarrow> nat \<Rightarrow> u64 list \<Rightarrow> TransactionOutput list option" where
  "make_outs out_pub_key no [] = Some []"
| "make_outs out_pub_key no (amount # amounts) =
     do {
       key \<leftarrow> out_pub_key no;
       outs \<leftarrow> make_outs out_pub_key (no + 1) amounts;
       Some (\<lparr>out_amount = amount, target = KeyOutput key\<rparr> # outs)
     }"

text \<open>
  The operations of the curve and the fresh key pair \<open>txkey\<close> are arguments.  The inner \<open>None\<close> is again the
  result \<open>false\<close>; the fields of \<open>tx\<close> that the function does not set keep their values.
\<close>

definition constructMinerTx ::
  "(bytes \<Rightarrow> bytes \<Rightarrow> bytes option) \<Rightarrow> (bytes \<Rightarrow> nat \<Rightarrow> bytes \<Rightarrow> bytes option) \<Rightarrow> KeyPair \<Rightarrow> Currency \<Rightarrow>
   u8 \<Rightarrow> u32 \<Rightarrow> u64 \<Rightarrow> u64 \<Rightarrow> u64 \<Rightarrow> u64 \<Rightarrow> AccountPublicAddress \<Rightarrow> Transaction \<Rightarrow> bytes \<Rightarrow> nat \<Rightarrow>
   Transaction option option" where
  "constructMinerTx generate_key_derivation derive_public_key txkey c blockMajorVersion height medianSize
     alreadyGeneratedCoins currentBlockSize fee minerAddress tx extraNonce maxOuts =
     (let key_extra = addTransactionPublicKeyToExtra [] (kp_publicKey txkey)
      in case (if extraNonce \<noteq> [] then addExtraNonceToTransactionExtra key_extra extraNonce else Some key_extra) of
           None \<Rightarrow> Some None
         | Some extra' \<Rightarrow> (case getBlockReward c blockMajorVersion medianSize currentBlockSize alreadyGeneratedCoins fee of
           None \<Rightarrow> None
         | Some None \<Rightarrow> Some None
         | Some (Some (blockReward, _)) \<Rightarrow>
             if \<not> 1 \<le> maxOuts then Some None
             else let outAmounts = merge_outs maxOuts
                        (map event_amount (decompose_amount_into_digits blockReward (defaultDustThreshold c height)));
                      out_pub_key = (\<lambda>no. do {
                        derivation \<leftarrow> generate_key_derivation (viewPublicKey minerAddress) (kp_secretKey txkey);
                        derive_public_key derivation no (spendPublicKey minerAddress) })
                  in case make_outs out_pub_key 0 outAmounts of
                       None \<Rightarrow> Some None
                     | Some outs \<Rightarrow>
                         if foldl (+) 0 outAmounts \<noteq> blockReward then Some None
                         else Some (Some (tx\<lparr>version := CURRENT_TRANSACTION_VERSION,
                                unlockTime := ucast (height + m_minedMoneyUnlockWindow c),
                                inputs := [BaseInput height], outputs := outs, extra := extra'\<rparr>))))"

section \<open>Fusion transactions\<close>

definition isFusionAmounts :: "Currency \<Rightarrow> u64 list \<Rightarrow> u64 list \<Rightarrow> u64 \<Rightarrow> u32 \<Rightarrow> bool" where
  "isFusionAmounts c inputsAmounts outputsAmounts sz height =
     (if m_fusionTxMaxSize c < sz then False
      else if of_nat (length inputsAmounts) < m_fusionTxMinInputCount c then False
      else if of_nat (length inputsAmounts) < of_nat (length outputsAmounts) * m_fusionTxMinInOutCountRatio c then False
      else if list_ex (\<lambda>amount. amount < defaultFusionDustThreshold c height) inputsAmounts then False
      else let inputAmount = foldl (+) 0 inputsAmounts
           in sort (decomposeAmount inputAmount (defaultFusionDustThreshold c height)) = outputsAmounts)"

definition isFusionTransaction :: "Currency \<Rightarrow> Transaction \<Rightarrow> u64 \<Rightarrow> u32 \<Rightarrow> bool" where
  "isFusionTransaction c transaction sz height =
     isFusionAmounts c (getInputsAmounts transaction) (map out_amount (outputs transaction)) sz height"

definition PRETTY_AMOUNTS :: "u64 list" where
  "PRETTY_AMOUNTS =
     [1, 2, 3, 4, 5, 6, 7, 8, 9,
      10, 20, 30, 40, 50, 60, 70, 80, 90,
      100, 200, 300, 400, 500, 600, 700, 800, 900,
      1000, 2000, 3000, 4000, 5000, 6000, 7000, 8000, 9000,
      10000, 20000, 30000, 40000, 50000, 60000, 70000, 80000, 90000,
      100000, 200000, 300000, 400000, 500000, 600000, 700000, 800000, 900000,
      1000000, 2000000, 3000000, 4000000, 5000000, 6000000, 7000000, 8000000, 9000000,
      10000000, 20000000, 30000000, 40000000, 50000000, 60000000, 70000000, 80000000, 90000000,
      100000000, 200000000, 300000000, 400000000, 500000000, 600000000, 700000000, 800000000, 900000000,
      1000000000, 2000000000, 3000000000, 4000000000, 5000000000, 6000000000, 7000000000, 8000000000, 9000000000,
      10000000000, 20000000000, 30000000000, 40000000000, 50000000000, 60000000000, 70000000000, 80000000000, 90000000000,
      100000000000, 200000000000, 300000000000, 400000000000, 500000000000, 600000000000, 700000000000, 800000000000, 900000000000,
      1000000000000, 2000000000000, 3000000000000, 4000000000000, 5000000000000, 6000000000000, 7000000000000, 8000000000000, 9000000000000,
      10000000000000, 20000000000000, 30000000000000, 40000000000000, 50000000000000, 60000000000000, 70000000000000, 80000000000000, 90000000000000,
      100000000000000, 200000000000000, 300000000000000, 400000000000000, 500000000000000, 600000000000000, 700000000000000, 800000000000000, 900000000000000,
      1000000000000000, 2000000000000000, 3000000000000000, 4000000000000000, 5000000000000000, 6000000000000000, 7000000000000000, 8000000000000000, 9000000000000000,
      10000000000000000, 20000000000000000, 30000000000000000, 40000000000000000, 50000000000000000, 60000000000000000, 70000000000000000, 80000000000000000, 90000000000000000,
      100000000000000000, 200000000000000000, 300000000000000000, 400000000000000000, 500000000000000000, 600000000000000000, 700000000000000000, 800000000000000000, 900000000000000000,
      1000000000000000000, 2000000000000000000, 3000000000000000000, 4000000000000000000, 5000000000000000000, 6000000000000000000, 7000000000000000000, 8000000000000000000, 9000000000000000000,
      10000000000000000000]"

text \<open>The index is the one of \<^verbatim>\<open>std::lower_bound\<close>: the first amount of the table that is not less.\<close>

definition isAmountApplicableInFusionTransactionInput :: "Currency \<Rightarrow> u64 \<Rightarrow> u64 \<Rightarrow> u32 \<Rightarrow> u8 option" where
  "isAmountApplicableInFusionTransactionInput c amount threshold height =
     (if threshold \<le> amount then None
      else if amount < defaultFusionDustThreshold c height then None
      else let it = length (takeWhile (\<lambda>a. a < amount) PRETTY_AMOUNTS)
           in if it = length PRETTY_AMOUNTS \<or> amount \<noteq> PRETTY_AMOUNTS ! it then None
              else Some (of_nat (it div 9)))"

section \<open>Sizes\<close>

definition getApproximateMaximumInputCount :: "u64 \<Rightarrow> u64 \<Rightarrow> u64 \<Rightarrow> u64 option" where
  "getApproximateMaximumInputCount transactionSize outputCount mixinCount =
     (let outputsSize = outputCount * (1 + 32 + (8 + 2));
          headerSize = 1 + 8 + 1 + 32;
          inputSize = 1 + (8 + 2) + 32 + 64 + 1 + 4 + mixinCount * (4 + 64)
      in if inputSize = 0 then None else Some ((transactionSize - headerSize - outputsSize) div inputSize))"

section \<open>The parameters of the main network\<close>

definition mainnet :: Currency where
  "mainnet = \<lparr>m_maxBlockHeight = MEVACOIN_MAX_BLOCK_NUMBER,
     m_maxTxSize = MEVACOIN_MAX_TX_SIZE,
     m_publicAddressBase58Prefix = MEVACOIN_PUBLIC_ADDRESS_BASE58_PREFIX,
     m_minedMoneyUnlockWindow = MEVACOIN_MINED_MONEY_UNLOCK_WINDOW,
     m_timestampCheckWindow = BLOCKCHAIN_TIMESTAMP_CHECK_WINDOW,
     m_blockFutureTimeLimit = MEVACOIN_BLOCK_FUTURE_TIME_LIMIT,
     m_moneySupply = MONEY_SUPPLY,
     m_emissionSpeedFactor = EMISSION_SPEED_FACTOR,
     m_genesisBlockReward = GENESIS_BLOCK_REWARD,
     m_rewardBlocksWindow = MEVACOIN_REWARD_BLOCKS_WINDOW,
     m_zawyDifficultyBlockIndex = ZAWY_DIFFICULTY_BLOCK_INDEX,
     m_zawyDifficultyV2 = ZAWY_DIFFICULTY_V2,
     m_zawyDifficultyBlockVersion = ZAWY_DIFFICULTY_DIFFICULTY_BLOCK_VERSION,
     m_blockGrantedFullRewardZone = MEVACOIN_BLOCK_GRANTED_FULL_REWARD_ZONE,
     m_minerTxBlobReservedSize = MEVACOIN_COINBASE_BLOB_RESERVED_SIZE,
     m_numberOfDecimalPlaces = MEVACOIN_DISPLAY_DECIMAL_POINT,
     m_coin = 100000,
     m_mininumFee = MINIMUM_FEE,
     m_defaultDustThreshold = DEFAULT_DUST_THRESHOLD,
     m_difficultyTarget = DIFFICULTY_TARGET,
     m_difficultyWindow = DIFFICULTY_WINDOW,
     m_difficultyLag = DIFFICULTY_LAG,
     m_difficultyCut = DIFFICULTY_CUT,
     m_maxBlockSizeInitial = MAX_BLOCK_SIZE_INITIAL,
     m_maxBlockSizeGrowthSpeedNumerator = MAX_BLOCK_SIZE_GROWTH_SPEED_NUMERATOR,
     m_maxBlockSizeGrowthSpeedDenominator = MAX_BLOCK_SIZE_GROWTH_SPEED_DENOMINATOR,
     m_lockedTxAllowedDeltaSeconds = MEVACOIN_LOCKED_TX_ALLOWED_DELTA_SECONDS,
     m_lockedTxAllowedDeltaBlocks = MEVACOIN_LOCKED_TX_ALLOWED_DELTA_BLOCKS,
     m_mempoolTxLiveTime = MEVACOIN_MEMPOOL_TX_LIVETIME,
     m_mempoolTxFromAltBlockLiveTime = MEVACOIN_MEMPOOL_TX_FROM_ALT_BLOCK_LIVETIME,
     m_numberOfPeriodsToForgetTxDeletedFromPool = MEVACOIN_NUMBER_OF_PERIODS_TO_FORGET_TX_DELETED_FROM_POOL,
     m_fusionTxMaxSize = FUSION_TX_MAX_SIZE,
     m_fusionTxMinInputCount = FUSION_TX_MIN_INPUT_COUNT,
     m_fusionTxMinInOutCountRatio = FUSION_TX_MIN_IN_OUT_COUNT_RATIO,
     m_upgradeHeightV2 = UPGRADE_HEIGHT_V2,
     m_upgradeHeightV3 = UPGRADE_HEIGHT_V3,
     m_upgradeHeightV4 = UPGRADE_HEIGHT_V4,
     m_upgradeHeightV5 = UPGRADE_HEIGHT_V5,
     m_upgradeVotingThreshold = UPGRADE_VOTING_THRESHOLD,
     m_upgradeVotingWindow = UPGRADE_VOTING_WINDOW,
     m_upgradeWindow = UPGRADE_WINDOW,
     m_testnet = False\<rparr>"

lemma funpow_coin: "((\<lambda>x. x * 10) ^^ 5) 1 = (100000 :: u64)"
  by (simp add: numeral_eq_Suc)

text \<open>The constructor of the builder does not throw and sets every parameter, whatever the object held before.\<close>

theorem CurrencyBuilder_mainnet: "CurrencyBuilder c = Some mainnet"
  by (simp add: CurrencyBuilder_def emissionSpeedFactor_def numberOfDecimalPlaces_def difficultyWindow_def
      upgradeVotingThreshold_def upgradeWindow_def mainnet_def EMISSION_SPEED_FACTOR_def DIFFICULTY_WINDOW_def
      UPGRADE_VOTING_THRESHOLD_def UPGRADE_WINDOW_def EXPECTED_NUMBER_OF_BLOCKS_PER_DAY_def DIFFICULTY_TARGET_def
      MEVACOIN_DISPLAY_DECIMAL_POINT_def funpow_coin)

section \<open>The genesis block of the network\<close>

definition genesis_bytes :: bytes where
  "genesis_bytes =
     [1, 20, 1, 255, 0, 1, 0, 2, 78, 134, 39, 229, 235, 58, 250, 227,
      159, 132, 112, 41, 221, 168, 152, 109, 227, 23, 94, 110, 192, 67, 49, 122,
      12, 69, 6, 95, 74, 88, 152, 194, 33, 1, 22, 22, 225, 225, 161, 247,
      191, 229, 12, 213, 114, 19, 240, 27, 253, 227, 202, 215, 129, 49, 129, 191,
      46, 148, 13, 52, 237, 141, 228, 44, 157, 70]"

definition genesis_tx :: Transaction where
  "genesis_tx = \<lparr>version = 1, unlockTime = 20, inputs = [BaseInput 0],
     outputs = [\<lparr>out_amount = 0, target = KeyOutput
       [78, 134, 39, 229, 235, 58, 250, 227, 159, 132, 112, 41, 221, 168, 152, 109,
        227, 23, 94, 110, 192, 67, 49, 122, 12, 69, 6, 95, 74, 88, 152, 194]\<rparr>],
     extra =
       [1, 22, 22, 225, 225, 161, 247, 191, 229, 12, 213, 114, 19, 240, 27, 253,
        227, 202, 215, 129, 49, 129, 191, 46, 148, 13, 52, 237, 141, 228, 44, 157,
        70],
     signatures = []\<rparr>"

lemma genesis_hex: "fromHex GENESIS_COINBASE_TX_HEX = Some genesis_bytes"
proof -
  have "toHex genesis_bytes = GENESIS_COINBASE_TX_HEX"
    unfolding toHex_def genesis_bytes_def GENESIS_COINBASE_TX_HEX_def hex_digits_def
    by (simp add: drop_bit_eq_div)
  then show ?thesis using fromHex_toHex [of genesis_bytes] by simp
qed

lemma genesis_tx_bytes: "write_Transaction genesis_tx = Inr genesis_bytes"
  by (simp add: write_Transaction_def genesis_tx_def genesis_bytes_def write_TransactionPrefix_def writeContainer_def
      write_TransactionInput_def write_TransactionOutput_def write_TransactionOutputTarget_def input_tag_def
      writeAsBinary_def byte_pod_def getSignaturesCount_def write_int_def write_string_def writeVarint_small)

lemma read_genesis: "fromBinaryArray read_Transaction genesis_bytes = Inr genesis_tx"
proof -
  have "valid_Transaction genesis_tx"
    by (simp add: genesis_tx_def valid_Transaction_def valid_TransactionPrefix_def valid_prefix_body_def
        valid_signatures_def single_base_input_def CURRENT_TRANSACTION_VERSION_def KEY_SIZE_def valid_TransactionOutput_def)
  then have "read_Transaction (genesis_bytes @ []) = Inr (genesis_tx, [])"
    using genesis_tx_bytes transaction_roundtrip by (metis Inr_inject)
  then show ?thesis by (simp add: fromBinaryArray_def endOfStream_def)
qed

definition genesis_block :: "bool \<Rightarrow> BlockTemplate" where
  "genesis_block testnet = \<lparr>majorVersion = 1, minorVersion = 0, nonce = (if testnet then 71 else 70), timestamp = 0,
     previousBlockHash = zero_key, parentBlock = empty_ParentBlock, baseTransaction = genesis_tx, transactionHashes = []\<rparr>"

lemma generateGenesisBlock_eq: "generateGenesisBlock c = Some (genesis_block (m_testnet c))"
  by (simp add: generateGenesisBlock_def genesis_hex read_genesis genesis_block_def BLOCK_MAJOR_VERSION_1_def
      BLOCK_MINOR_VERSION_0_def)

text \<open>The coinbase transaction of the genesis block, given as hexadecimal text in the configuration, is parsed: it
  has the unlock time 20, one base input of index 0 and one output; the initialisation of a currency
  succeeds for every hash function, and changes the upgrade heights of the test network only.\<close>

theorem Currency_init_genesis:
  "generateGenesisBlock c = Some (genesis_block (m_testnet c)) \<and>
   Currency_init cn_fast_hash c =
     Some (if m_testnet c then c\<lparr>m_upgradeHeightV2 := 0, m_upgradeHeightV3 := -1\<rparr> else c)"
proof -
  have "\<exists>hash. getBlockHash cn_fast_hash (genesis_block t) = Inr hash" for t
    by (simp add: getBlockHash_def getBlockHashingBinaryArray_def write_BlockHeader_def block_versions genesis_block_def
        bind_e_def getTransactionTreeHash_def tree_hash_def word_le_nat_alt word_less_nat_alt)
  then obtain hash where "getBlockHash cn_fast_hash (genesis_block (m_testnet c)) = Inr hash" by blast
  then show ?thesis by (simp add: Currency_init_def generateGenesisBlock_eq)
qed

section \<open>Emission\<close>

lemma sint_word_of_int: "- (2 ^ 63) \<le> x \<Longrightarrow> x < 2 ^ 63 \<Longrightarrow> sint (word_of_int x :: u64) = x"
  by (simp add: sint_sbintrunc' signed_take_bit_int_eq_self)

lemma sint_diff_unat:
  assumes "unat (b :: u64) < 2 ^ 63" "unat a < 2 ^ 63"
  shows "sint (a - b) = int (unat a) - int (unat b)"
proof -
  have lt: "x < 2 ^ 63 \<Longrightarrow> int x < 2 ^ 63" for x :: nat by simp
  have "a - b = word_of_int (int (unat a) - int (unat b))" by simp
  moreover have "sint (word_of_int (int (unat a) - int (unat b)) :: u64) = int (unat a) - int (unat b)"
    using lt [OF assms(1)] lt [OF assms(2)] by (intro sint_word_of_int) linarith+
  ultimately show ?thesis by simp
qed

lemma getPenalizedAmount_le:
  assumes "unat medianSize < 2 ^ 32" "unat currentBlockSize \<le> 2 * unat medianSize"
  obtains r where "getPenalizedAmount amount medianSize currentBlockSize = Some r" "unat r \<le> unat amount"
proof -
  obtain r where r: "getPenalizedAmount amount medianSize currentBlockSize = Some r"
    "unat currentBlockSize \<le> unat medianSize \<longrightarrow> unat r = unat amount"
    "amount \<noteq> 0 \<and> medianSize < currentBlockSize \<longrightarrow> r < amount"
    using getPenalizedAmount_Some [OF assms, of amount] by (metis (no_types))
  have "unat r \<le> unat amount"
  proof (cases "amount = 0")
    case True
    then show ?thesis using r(1) by (simp add: getPenalizedAmount_def)
  next
    case False
    then show ?thesis using r(2,3) by (cases "unat currentBlockSize \<le> unat medianSize") (simp_all add: word_less_nat_alt)
  qed
  with r(1) show thesis by (rule that)
qed

text \<open>The reward before the penalty.\<close>

definition base_reward :: "Currency \<Rightarrow> u64 \<Rightarrow> u64" where
  "base_reward c alreadyGeneratedCoins =
     (if alreadyGeneratedCoins = 0 \<and> m_genesisBlockReward c \<noteq> 0 then m_genesisBlockReward c
      else drop_bit (unat (m_emissionSpeedFactor c)) (m_moneySupply c - alreadyGeneratedCoins))"

lemma base_reward_le:
  assumes "alreadyGeneratedCoins \<le> m_moneySupply c" "m_genesisBlockReward c \<le> m_moneySupply c"
  shows "unat (base_reward c alreadyGeneratedCoins) \<le> unat (m_moneySupply c) - unat alreadyGeneratedCoins"
proof (cases "alreadyGeneratedCoins = 0 \<and> m_genesisBlockReward c \<noteq> 0")
  case False
  have "unat (base_reward c alreadyGeneratedCoins) \<le> unat (m_moneySupply c - alreadyGeneratedCoins)"
    unfolding base_reward_def if_not_P [OF False] unat_drop_bit_div by (rule div_le_dividend)
  also have "\<dots> = unat (m_moneySupply c) - unat alreadyGeneratedCoins" using assms(1) by (rule unat_sub)
  finally show ?thesis .
qed (use assms(2) in \<open>simp add: base_reward_def word_le_nat_alt\<close>)

lemma getBlockReward_eq:
  assumes "m_emissionSpeedFactor c < 64"
    "median = max medianSize (blockGrantedFullRewardZoneByBlockVersion c blockMajorVersion)"
  shows "getBlockReward c blockMajorVersion medianSize currentBlockSize alreadyGeneratedCoins fee =
    (if 2 * median < currentBlockSize then Some None
     else do {
       b \<leftarrow> getPenalizedAmount (base_reward c alreadyGeneratedCoins) median currentBlockSize;
       f \<leftarrow> (if BLOCK_MAJOR_VERSION_2 \<le> blockMajorVersion then getPenalizedAmount fee median currentBlockSize else Some fee);
       Some (Some (b + f, sint (b - (fee - f))))
     })"
  unfolding getBlockReward_def Let_def base_reward_def [symmetric] assms(2) [symmetric]
  using assms(1) by (simp only: not_le [symmetric] if_False)

text \<open>C10: For a block that is at most twice the effective median the reward is computed, the emission change is
  exactly the reward minus the fees, and the coins generated afterwards do not exceed the money supply; a
  larger block is refused.\<close>

theorem getBlockReward_emission:
  assumes "m_emissionSpeedFactor c < 64" "alreadyGeneratedCoins \<le> m_moneySupply c"
    "m_genesisBlockReward c \<le> m_moneySupply c" "unat (m_moneySupply c) + unat fee < 2 ^ 63"
    "median = max medianSize (blockGrantedFullRewardZoneByBlockVersion c blockMajorVersion)" "unat median < 2 ^ 32"
  shows "if 2 * unat median < unat currentBlockSize
    then getBlockReward c blockMajorVersion medianSize currentBlockSize alreadyGeneratedCoins fee = Some None
    else \<exists>reward emissionChange.
      getBlockReward c blockMajorVersion medianSize currentBlockSize alreadyGeneratedCoins fee = Some (Some (reward, emissionChange)) \<and>
      emissionChange = int (unat reward) - int (unat fee) \<and>
      int (unat alreadyGeneratedCoins) + emissionChange \<le> int (unat (m_moneySupply c))"
proof -
  have m2: "unat (2 * median) = 2 * unat median" using assms(6) by (simp add: unat_word_ariths)
  note unfolded = getBlockReward_eq [OF assms(1,5)]
  show ?thesis
  proof (cases "2 * unat median < unat currentBlockSize")
    case True
    then show ?thesis by (simp add: unfolded word_less_nat_alt m2)
  next
    case False
    then have size: "unat currentBlockSize \<le> 2 * unat median" by simp
    obtain b where b: "getPenalizedAmount (base_reward c alreadyGeneratedCoins) median currentBlockSize = Some b"
      "unat b \<le> unat (base_reward c alreadyGeneratedCoins)" by (rule getPenalizedAmount_le [OF assms(6) size])
    obtain f where f: "(if BLOCK_MAJOR_VERSION_2 \<le> blockMajorVersion then getPenalizedAmount fee median currentBlockSize
        else Some fee) = Some f" "unat f \<le> unat fee"
      by (rule getPenalizedAmount_le [OF assms(6) size, of fee]) (metis order_refl)
    have le: "unat b \<le> unat (m_moneySupply c) - unat alreadyGeneratedCoins"
      using b(2) base_reward_le [OF assms(2,3)] by (rule order_trans)
    have ff: "unat (fee - f) = unat fee - unat f" using f(2) by (simp add: unat_sub word_le_nat_alt)
    have reward: "unat (b + f) = unat b + unat f" using le f(2) assms(4) by (intro unat_add_no_overflow) simp
    have emission: "sint (b - (fee - f)) = int (unat b) - int (unat fee - unat f)"
      using le f(2) assms(4) by (subst sint_diff_unat) (simp_all add: ff)
    have "unat alreadyGeneratedCoins \<le> unat (m_moneySupply c)" using assms(2) by (simp add: word_le_nat_alt)
    then have "int (unat alreadyGeneratedCoins) + sint (b - (fee - f)) \<le> int (unat (m_moneySupply c))"
      unfolding emission using le by linarith
    moreover have "sint (b - (fee - f)) = int (unat (b + f)) - int (unat fee)"
      unfolding emission reward using f(2) by linarith
    ultimately show ?thesis using False b(1) f(1) by (simp add: unfolded word_less_nat_alt m2)
  qed
qed

lemma mainnet_reward_parameters:
  "m_emissionSpeedFactor mainnet = 28" "m_moneySupply mainnet = 10000000000000000" "m_genesisBlockReward mainnet = 0"
  "blockGrantedFullRewardZoneByBlockVersion mainnet 5 = 100000"
  by (simp_all add: mainnet_def blockGrantedFullRewardZoneByBlockVersion_def by_block_version_def block_versions
      EMISSION_SPEED_FACTOR_def MONEY_SUPPLY_def GENESIS_BLOCK_REWARD_def MEVACOIN_BLOCK_GRANTED_FULL_REWARD_ZONE_def)

lemma getBlockReward_emission_witness:
  "\<exists>reward. getBlockReward mainnet 5 90000 150000 1000000 500 = Some (Some (reward, int (unat reward) - 500))"
proof -
  have no: "\<not> 2 * unat (100000 :: u64) < unat (150000 :: u64)" by simp
  have fee: "int (unat (500 :: u64)) = 500" by simp
  from getBlockReward_emission [of mainnet 1000000 500 100000 90000 5 150000, unfolded mainnet_reward_parameters if_not_P [OF no] fee]
  show ?thesis by (auto simp: max_def)
qed

section \<open>Miner transactions pay the reward\<close>

text \<open>Adding the last amount to the one before it keeps the sum, as long as the sum fits into a word.\<close>

lemma merge_last_sum:
  assumes "2 \<le> length (xs :: u64 list)" "sum_list (map unat xs) < 2 ^ 64"
  shows "sum_list (map unat (butlast (xs[length xs - 2 := xs ! (length xs - 2) + last xs]))) = sum_list (map unat xs)"
proof -
  obtain zs b where z: "xs = zs @ [b]" using assms(1) by (cases xs rule: rev_cases) auto
  then obtain ys a where "zs = ys @ [a]" using assms(1) by (cases zs rule: rev_cases) auto
  with z have xs: "xs = ys @ [a, b]" by simp
  have "unat (a + b) = unat a + unat b" using assms(2) xs by (intro unat_add_no_overflow) simp
  then show ?thesis by (simp add: xs list_update_append nth_append butlast_append)
qed

lemma merge_outs_sum:
  "sum_list (map unat xs) < 2 ^ 64 \<Longrightarrow> sum_list (map unat (merge_outs n xs)) = sum_list (map unat xs)"
proof (induction n xs rule: merge_outs.induct)
  case (1 n xs)
  show ?case
  proof (cases "n < length xs \<and> 2 \<le> length xs")
    case True
    then show ?thesis using 1(1) [OF True] 1(2) by (simp add: merge_outs.simps [of n xs] merge_last_sum)
  qed (simp only: merge_outs.simps [of n xs] if_False)
qed

lemma length_merge_outs: "1 \<le> n \<Longrightarrow> length (merge_outs n xs) \<le> n"
proof (induction n xs rule: merge_outs.induct)
  case (1 n xs)
  show ?case
  proof (cases "n < length xs \<and> 2 \<le> length xs")
    case True
    then show ?thesis using 1(1) [OF True 1(2)] by (simp only: merge_outs.simps [of n xs] if_P)
  next
    case False
    then show ?thesis using 1(2) by (simp only: merge_outs.simps [of n xs] if_False) linarith
  qed
qed

lemma make_outs_amounts: "make_outs k no amounts = Some outs \<Longrightarrow> map out_amount outs = amounts"
  by (induction amounts arbitrary: no outs) (auto split: bind_splits)

lemma make_outs_total: "(\<And>no. \<exists>key. k no = Some key) \<Longrightarrow> \<exists>outs. make_outs k no amounts = Some outs"
proof (induction amounts arbitrary: no)
  case (Cons amount amounts)
  obtain key outs where "k no = Some key" "make_outs k (no + 1) amounts = Some outs"
    using Cons.prems Cons.IH [of "no + 1"] by blast
  then show ?case by simp
qed simp

text \<open>The extra field of a miner transaction, and the key found in it.\<close>

definition miner_extra :: "bytes \<Rightarrow> bytes \<Rightarrow> bytes" where
  "miner_extra key n = TX_EXTRA_TAG_PUBKEY # key @ (if n = [] then [] else TX_EXTRA_NONCE # of_nat (length n) # n)"

lemma miner_extra_key:
  assumes "length key = KEY_SIZE" "length n \<le> TX_EXTRA_NONCE_MAX_COUNT"
  shows "getTransactionPublicKeyFromExtra (miner_extra key n) = key"
proof -
  let ?fs = "ExtraPublicKey key # (if n = [] then [] else [ExtraNonce n])"
  have "writable_fields ?fs" using assms by (simp add: writable_fields_def same_kind_def)
  then obtain bs where bs: "writeTransactionExtra [] ?fs = Some ([] @ bs)" "parseTransactionExtra bs = (True, ?fs)"
    by (metis write_then_parse)
  then have "bs = miner_extra key n"
    using assms(2) by (auto simp: miner_extra_def writeExtraField_def addTransactionPublicKeyToExtra_def
        addExtraNonceToTransactionExtra_def split: if_splits)
  with bs(2) show ?thesis by (simp add: getTransactionPublicKeyFromExtra_def)
qed

text \<open>C26: When the block reward is defined and the operations on keys succeed, the miner transaction is constructed:
  its outputs add up to exactly the reward, there are at most \<open>maxOuts\<close> of them, its only input
  carries the height, and its public key is the one found in the extra field.\<close>

theorem constructMinerTx_pays_reward:
  assumes "getBlockReward c blockMajorVersion medianSize currentBlockSize alreadyGeneratedCoins fee = Some (Some (reward, emission))"
    and "generate_key_derivation (viewPublicKey minerAddress) (kp_secretKey txkey) = Some derivation"
    and "\<forall>no. derive_public_key derivation no (spendPublicKey minerAddress) \<noteq> None"
    and "length (kp_publicKey txkey) = KEY_SIZE" "length extraNonce \<le> TX_EXTRA_NONCE_MAX_COUNT" "1 \<le> maxOuts"
  shows "\<exists>tx'. constructMinerTx generate_key_derivation derive_public_key txkey c blockMajorVersion height medianSize
      alreadyGeneratedCoins currentBlockSize fee minerAddress tx extraNonce maxOuts = Some (Some tx') \<and>
    sum_list (map unat (map out_amount (outputs tx'))) = unat reward \<and> length (outputs tx') \<le> maxOuts \<and>
    inputs tx' = [BaseInput height] \<and> getTransactionPublicKeyFromExtra (extra tx') = kp_publicKey txkey"
proof -
  define amounts where "amounts = decomposeAmount reward (defaultDustThreshold c height)"
  define k where "k no = do { d \<leftarrow> generate_key_derivation (viewPublicKey minerAddress) (kp_secretKey txkey);
    derive_public_key d no (spendPublicKey minerAddress) }" for no
  have "\<exists>key. k no = Some key" for no using assms(2,3) by (simp add: k_def)
  then obtain outs where outs: "make_outs k 0 (merge_outs maxOuts amounts) = Some outs" using make_outs_total by blast
  then have amts: "map out_amount outs = merge_outs maxOuts amounts" by (rule make_outs_amounts)
  have total: "sum_list (map unat amounts) = unat reward" unfolding amounts_def by (rule decomposeAmount_total)
  then have sum: "sum_list (map unat (merge_outs maxOuts amounts)) = unat reward"
    by (simp only: merge_outs_sum unat_lt_u64)
  then have "unat (foldl (+) 0 (merge_outs maxOuts amounts)) = unat reward"
    using foldl_amounts [of 0 "merge_outs maxOuts amounts"] by simp
  then have fold: "foldl (+) 0 (merge_outs maxOuts amounts) = reward" by (simp add: word_unat_eq_iff)
  have extra': "(if extraNonce \<noteq> [] then addExtraNonceToTransactionExtra
        (addTransactionPublicKeyToExtra [] (kp_publicKey txkey)) extraNonce
      else Some (addTransactionPublicKeyToExtra [] (kp_publicKey txkey))) = Some (miner_extra (kp_publicKey txkey) extraNonce)"
    using assms(5) by (simp add: miner_extra_def addTransactionPublicKeyToExtra_def addExtraNonceToTransactionExtra_def)
  have "length outs \<le> maxOuts"
    using length_merge_outs [OF assms(6), of amounts] amts by (metis length_map)
  moreover have "sum_list (map unat (map out_amount outs)) = unat reward" using sum amts by simp
  ultimately show ?thesis
    using assms(1,6) fold outs miner_extra_key [OF assms(4,5)]
    by (simp add: constructMinerTx_def extra' k_def [symmetric] decomposeAmount_def [symmetric] amounts_def [symmetric]
        Let_def)
qed

lemma constructMinerTx_pays_reward_witness:
  "\<exists>tx'. constructMinerTx (\<lambda>p s. Some p) (\<lambda>d no k. Some (of_nat no # tl k)) \<lparr>kp_publicKey = replicate 32 7, kp_secretKey = zero_key\<rparr>
      mainnet 5 1000 90000 1000000 500 0 \<lparr>spendPublicKey = replicate 32 1, viewPublicKey = replicate 32 2\<rparr> genesis_tx [1, 2, 3] 1 =
      Some (Some tx') \<and> length (outputs tx') \<le> 1 \<and> getTransactionPublicKeyFromExtra (extra tx') = replicate 32 7"
proof -
  have size: "\<not> 2 * 100000 < (500 :: u64)" "(500 :: u64) \<le> 100000" by simp_all
  have max: "(100000 :: u64) = max 90000 (blockGrantedFullRewardZoneByBlockVersion mainnet 5)"
    by (simp add: mainnet_reward_parameters max_def)
  have "getBlockReward mainnet 5 90000 500 1000000 0 = Some (Some (base_reward mainnet 1000000, sint (base_reward mainnet 1000000)))"
    using size mainnet_reward_parameters
    by (subst getBlockReward_eq [OF _ max]) (auto simp: getPenalizedAmount_def)
  from constructMinerTx_pays_reward [OF this, where generate_key_derivation = "\<lambda>p s. Some p"
      and derive_public_key = "\<lambda>d no k. Some (of_nat no # tl k)" and maxOuts = 1 and extraNonce = "[1, 2, 3]"
      and txkey = "\<lparr>kp_publicKey = replicate 32 7, kp_secretKey = zero_key\<rparr>"
      and minerAddress = "\<lparr>spendPublicKey = replicate 32 1, viewPublicKey = replicate 32 2\<rparr>"
      and height = 1000 and tx = genesis_tx]
  show ?thesis by (auto simp: KEY_SIZE_def TX_EXTRA_NONCE_MAX_COUNT_def)
qed

section \<open>Fusion transactions pay no fee\<close>

lemma foldl_filter_inputs:
  "foldl (\<lambda>a i. if is_KeyInput i then a + in_amount i else a) m is = foldl (+) m (map in_amount (filter is_KeyInput is))"
  by (induction "is" arbitrary: m) simp_all

lemma sum_list_sort: "sum_list (map unat (sort xs)) = sum_list (map unat (xs :: u64 list))"
proof -
  have insort: "sum_list (map unat (insort x ys)) = unat x + sum_list (map unat ys)" for x and ys :: "u64 list"
    by (induction ys) simp_all
  show ?thesis by (induction xs) (simp_all add: insort)
qed

text \<open>A transaction that is accepted as a fusion transaction has exactly the fee zero, and its outputs are the
  sorted decomposition of its input sum.\<close>

theorem isFusionTransaction_no_fee:
  assumes "isFusionTransaction c tx sz height"
  shows "get_tx_fee tx = Some 0 \<and> checkOutsOverflow tx \<and> sorted (map out_amount (outputs tx))"
proof -
  define total where "total = foldl (+) 0 (map in_amount (filter is_KeyInput (inputs tx)))"
  have outs: "map out_amount (outputs tx) = sort (decomposeAmount total (defaultFusionDustThreshold c height))"
    using assms by (simp add: isFusionTransaction_def isFusionAmounts_def getInputsAmounts_def total_def Let_def
        split: if_splits)
  have sum: "sum_list (map unat (map out_amount (outputs tx))) = unat total"
    unfolding outs sum_list_sort by (rule decomposeAmount_total)
  then have "foldl (+) 0 (map out_amount (outputs tx)) = total"
    using foldl_amounts [of 0 "map out_amount (outputs tx)"] by (simp add: word_unat_eq_iff)
  then have "get_tx_fee tx = Some 0"
    by (simp add: get_tx_fee_def foldl_filter_inputs foldl_outputs total_def)
  moreover have "checkOutsOverflow tx" using sum by (simp add: checkOutsOverflow_def overflow_loop_iff)
  ultimately show ?thesis using outs by simp
qed

lemma foldl_add_replicate: "foldl (+) m (replicate n x) = m + of_nat n * (x :: u64)"
  by (induction n arbitrary: m) (simp_all add: algebra_simps)

lemma isFusionTransaction_no_fee_witness:
  "isFusionTransaction mainnet \<lparr>version = 1, unlockTime = 0, inputs = replicate 12 (KeyInput 1000 [1] []),
     outputs = [\<lparr>out_amount = 2000, target = KeyOutput []\<rparr>, \<lparr>out_amount = 10000, target = KeyOutput []\<rparr>],
     extra = [], signatures = []\<rparr> 5000 800000 \<and>
   get_tx_fee \<lparr>version = 1, unlockTime = 0, inputs = replicate 12 (KeyInput 1000 [1] []),
     outputs = [\<lparr>out_amount = 2000, target = KeyOutput []\<rparr>, \<lparr>out_amount = 10000, target = KeyOutput []\<rparr>],
     extra = [], signatures = []\<rparr> = Some 0"
proof -
  let ?tx = "\<lparr>version = 1, unlockTime = 0, inputs = replicate 12 (KeyInput 1000 [1] []),
     outputs = [\<lparr>out_amount = 2000, target = KeyOutput []\<rparr>, \<lparr>out_amount = 10000, target = KeyOutput []\<rparr>],
     extra = [], signatures = []\<rparr>"
  have "decomposeAmount 12000 0 = [2000, 10000]"
    by (simp add: decomposeAmount_def decompose_amount_into_digits_def decompose_loop.simps)
  then have "isFusionTransaction mainnet ?tx 5000 800000"
    by (simp add: isFusionTransaction_def isFusionAmounts_def getInputsAmounts_def mainnet_def FUSION_TX_MAX_SIZE_def
        MEVACOIN_BLOCK_GRANTED_FULL_REWARD_ZONE_CURRENT_def MEVACOIN_BLOCK_GRANTED_FULL_REWARD_ZONE_def foldl_add_replicate filter_replicate list_ex_iff
        FUSION_TX_MIN_INPUT_COUNT_def FUSION_TX_MIN_IN_OUT_COUNT_RATIO_def defaultFusionDustThreshold_def
        FUSION_DUST_THRESHOLD_HEIGHT_V2_def DEFAULT_DUST_THRESHOLD_V2_def)
  with isFusionTransaction_no_fee [OF this] show ?thesis by blast
qed

section \<open>The table of amounts with one digit\<close>

definition pretty_amount :: "nat \<Rightarrow> nat" where
  "pretty_amount i = (i mod 9 + 1) * 10 ^ (i div 9)"

lemma PRETTY_AMOUNTS_eq: "PRETTY_AMOUNTS = map (\<lambda>i. of_nat (pretty_amount i)) [0..<172]"
  unfolding PRETTY_AMOUNTS_def by (simp add: upt_rec pretty_amount_def)

lemma pretty_amount_strict: "i < j \<Longrightarrow> pretty_amount i < pretty_amount j"
proof (rule lift_Suc_mono_less [of pretty_amount])
  fix n
  show "pretty_amount n < pretty_amount (Suc n)"
  proof (cases "n mod 9 = 8")
    case True
    then have "Suc n mod 9 = 0" "Suc n div 9 = Suc (n div 9)" by (simp_all add: mod_Suc div_Suc)
    then show ?thesis using True by (simp add: pretty_amount_def)
  next
    case False
    then have "Suc n mod 9 = Suc (n mod 9)" "Suc n div 9 = n div 9" by (simp_all add: mod_Suc div_Suc)
    then show ?thesis by (simp add: pretty_amount_def)
  qed
qed

lemma pretty_amount_mono: "i \<le> j \<Longrightarrow> pretty_amount i \<le> pretty_amount j"
  by (metis le_less pretty_amount_strict)

lemma unat_pretty: "i < 172 \<Longrightarrow> unat (of_nat (pretty_amount i) :: u64) = pretty_amount i"
proof -
  assume "i < 172"
  then have "pretty_amount i \<le> pretty_amount 171"
    by (intro pretty_amount_mono) simp
  also have "\<dots> < 2 ^ 64" by (simp add: pretty_amount_def)
  finally show ?thesis by (rule unat_of_nat_u64)
qed

lemma lower_bound_pretty:
  assumes "i < 172"
  shows "length (takeWhile (\<lambda>a. a < of_nat (pretty_amount i)) PRETTY_AMOUNTS) = i"
proof -
  have "[0..<172] = [0..<i] @ i # [Suc i..<172]"
    using assms by (metis upt_add_eq_append upt_conv_Cons le0 less_imp_le_nat le_add_diff_inverse)
  then have eq: "PRETTY_AMOUNTS = map (\<lambda>i. of_nat (pretty_amount i)) [0..<i] @ of_nat (pretty_amount i) #
      map (\<lambda>i. of_nat (pretty_amount i)) [Suc i..<172]" unfolding PRETTY_AMOUNTS_eq by simp
  have less: "of_nat (pretty_amount j) < (of_nat (pretty_amount i) :: u64)" if "j < i" for j
    using that assms pretty_amount_strict [OF that] by (simp add: word_less_nat_alt unat_pretty)
  have "takeWhile (\<lambda>a. a < of_nat (pretty_amount i)) PRETTY_AMOUNTS = map (\<lambda>i. of_nat (pretty_amount i)) [0..<i]"
    unfolding eq by (subst takeWhile_tail) (auto simp: takeWhile_eq_all_conv less)
  then show ?thesis by simp
qed

lemma pretty_index_iff:
  "(\<exists>i < 172. pretty_amount i = unat (amount :: u64) \<and> i div 9 = e) \<longleftrightarrow> (\<exists>d. 1 \<le> d \<and> d \<le> 9 \<and> unat amount = d * 10 ^ e)"
proof
  assume "\<exists>i < 172. pretty_amount i = unat amount \<and> i div 9 = e"
  then obtain i where "pretty_amount i = unat amount" "i div 9 = e" by blast
  moreover have "i mod 9 + 1 \<le> 9" by simp
  ultimately show "\<exists>d. 1 \<le> d \<and> d \<le> 9 \<and> unat amount = d * 10 ^ e"
    by (intro exI [of _ "i mod 9 + 1"]) (simp add: pretty_amount_def)
next
  assume "\<exists>d. 1 \<le> d \<and> d \<le> 9 \<and> unat amount = d * 10 ^ e"
  then obtain d where d: "1 \<le> d" "d \<le> 9" "unat amount = d * 10 ^ e" by blast
  define k where "k = d - 1"
  then have k: "d = Suc k" "k < 9" using d by simp_all
  let ?i = "9 * e + k"
  have i: "pretty_amount ?i = unat amount" "?i div 9 = e" using d(3) k by (simp_all add: pretty_amount_def)
  have "\<not> 172 \<le> ?i"
  proof
    assume "172 \<le> ?i"
    then have "pretty_amount 172 \<le> pretty_amount ?i" by (rule pretty_amount_mono)
    moreover have "pretty_amount 172 = 20000000000000000000" by (simp add: pretty_amount_def)
    moreover have "unat amount < 18446744073709551616" using unat_lt_u64 [of amount] by simp
    ultimately show False unfolding i(1) by linarith
  qed
  then have "?i < 172" by (simp only: not_le)
  with i show "\<exists>i < 172. pretty_amount i = unat amount \<and> i div 9 = e" by blast
qed

text \<open>An amount can be an input of a fusion transaction exactly when it lies between the dust threshold and the given
  limit and has a single non-zero digit; the result is the number of zeros after it.\<close>

theorem isAmountApplicable_iff:
  "isAmountApplicableInFusionTransactionInput c amount threshold height = Some p \<longleftrightarrow>
     defaultFusionDustThreshold c height \<le> amount \<and> amount < threshold \<and>
     (\<exists>e. (\<exists>d. 1 \<le> d \<and> d \<le> 9 \<and> unat amount = d * 10 ^ e) \<and> p = of_nat e)"
proof -
  let ?it = "length (takeWhile (\<lambda>a. a < amount) PRETTY_AMOUNTS)"
  have len: "length PRETTY_AMOUNTS = 172" by (simp add: PRETTY_AMOUNTS_eq)
  have nth: "PRETTY_AMOUNTS ! i = of_nat (pretty_amount i)" if "i < 172" for i
    using that by (simp add: PRETTY_AMOUNTS_eq)
  have "(?it < 172 \<and> amount = PRETTY_AMOUNTS ! ?it \<and> ?it div 9 = e) \<longleftrightarrow>
      (\<exists>i < 172. pretty_amount i = unat amount \<and> i div 9 = e)" for e
  proof
    assume "?it < 172 \<and> amount = PRETTY_AMOUNTS ! ?it \<and> ?it div 9 = e"
    then show "\<exists>i < 172. pretty_amount i = unat amount \<and> i div 9 = e" using nth unat_pretty by metis
  next
    assume "\<exists>i < 172. pretty_amount i = unat amount \<and> i div 9 = e"
    then obtain i where i: "i < 172" "pretty_amount i = unat amount" "i div 9 = e" by blast
    then have "amount = of_nat (pretty_amount i)" by simp
    then show "?it < 172 \<and> amount = PRETTY_AMOUNTS ! ?it \<and> ?it div 9 = e"
      using lower_bound_pretty [OF i(1)] nth [OF i(1)] i by simp
  qed
  note index = this [unfolded pretty_index_iff]
  have it: "?it \<le> 172" using length_takeWhile_le [of _ PRETTY_AMOUNTS] unfolding len .
  have "isAmountApplicableInFusionTransactionInput c amount threshold height = Some p \<longleftrightarrow>
      defaultFusionDustThreshold c height \<le> amount \<and> amount < threshold \<and>
      (\<exists>e. (?it < 172 \<and> amount = PRETTY_AMOUNTS ! ?it \<and> ?it div 9 = e) \<and> p = of_nat e)"
    unfolding isAmountApplicableInFusionTransactionInput_def Let_def len using it by auto
  then show ?thesis by (simp only: index)
qed

end
