(* ===== verification/Currency_Text.thy ===== *)
theory Currency_Text
  imports Currency Base58
begin

text \<open>
  Addresses and amounts as text: \<open>getAccountAddressAsStr\<close> and \<open>parseAccountAddressString\<close> of
  \<^verbatim>\<open>src/mevacoin_core/mevacoin_basic_impl.cpp\<close> and the text functions of
  \<^verbatim>\<open>src/mevacoin_core/currency.cpp\<close>.  The hash function, the test of a point of the curve and the
  trimming function of Boost are arguments.
\<close>

section \<open>Addresses\<close>

definition getAccountAddressAsStr :: "(bytes \<Rightarrow> bytes) \<Rightarrow> u64 \<Rightarrow> AccountPublicAddress \<Rightarrow> bytes option" where
  "getAccountAddressAsStr cn_fast_hash prefix adr = encode_addr cn_fast_hash prefix (write_AccountPublicAddress adr)"

definition parseAccountAddress ::
  "(bytes \<Rightarrow> bytes) \<Rightarrow> (bytes \<Rightarrow> bool) \<Rightarrow> bytes \<Rightarrow> (u64 \<times> AccountPublicAddress) option" where
  "parseAccountAddress cn_fast_hash check_key str =
     do {
       (prefix, data) \<leftarrow> decode_addr cn_fast_hash str;
       adr \<leftarrow> (case fromBinaryArray read_AccountPublicAddress data of Inl _ \<Rightarrow> None | Inr adr \<Rightarrow> Some adr);
       if check_key (spendPublicKey adr) \<and> check_key (viewPublicKey adr) then Some (prefix, adr) else None
     }"

definition accountAddressAsString :: "(bytes \<Rightarrow> bytes) \<Rightarrow> Currency \<Rightarrow> AccountPublicAddress \<Rightarrow> bytes option" where
  "accountAddressAsString cn_fast_hash c = getAccountAddressAsStr cn_fast_hash (m_publicAddressBase58Prefix c)"

definition parseAccountAddressString ::
  "(bytes \<Rightarrow> bytes) \<Rightarrow> (bytes \<Rightarrow> bool) \<Rightarrow> Currency \<Rightarrow> bytes \<Rightarrow> AccountPublicAddress option" where
  "parseAccountAddressString cn_fast_hash check_key c str =
     do {
       (prefix, addr) \<leftarrow> parseAccountAddress cn_fast_hash check_key str;
       if prefix \<noteq> m_publicAddressBase58Prefix c then None else Some addr
     }"

section \<open>Amounts\<close>

text \<open>The number of decimal places plus one is taken to fit into 64 bits.\<close>

definition formatAmount :: "Currency \<Rightarrow> u64 \<Rightarrow> string" where
  "formatAmount c amount =
     (let places = unat (m_numberOfDecimalPlaces c);
          s = to_string (unat amount);
          s = (if length s < places + 1 then replicate (places + 1 - length s) CHR ''0'' @ s else s)
      in take (length s - places) s @ ''.'' @ drop (length s - places) s)"

text \<open>The signed variant; the absolute value of the least integer is undefined.\<close>

definition formatAmount_signed :: "Currency \<Rightarrow> int \<Rightarrow> string option" where
  "formatAmount_signed c amount =
     (if amount < - (2 ^ 63) + 1 \<or> 2 ^ 63 \<le> amount then None
      else let s = formatAmount c (word_of_int \<bar>amount\<bar>) in Some (if amount < 0 then CHR ''-'' # s else s))"

function strip_zeros :: "nat \<Rightarrow> string \<Rightarrow> string" where
  "strip_zeros places fraction =
     (if places < length fraction \<and> last fraction = CHR ''0'' then strip_zeros places (butlast fraction) else fraction)"
  by pat_completeness auto
termination by (relation "measure (\<lambda>(_, fraction). length fraction)") auto

declare strip_zeros.simps [simp del]

text \<open>\<open>stream >> value\<close> on a text of digits: the number, unless it is too large.\<close>

definition digits_value :: "string \<Rightarrow> nat" where
  "digits_value s = foldl (\<lambda>v ch. 10 * v + unat (digit_value ch)) 0 s"

definition fromString_u64 :: "string \<Rightarrow> u64 option" where
  "fromString_u64 s = (if digits_value s < 2 ^ 64 then Some (of_nat (digits_value s)) else None)"

definition parseAmount :: "(string \<Rightarrow> string) \<Rightarrow> Currency \<Rightarrow> string \<Rightarrow> u64 option" where
  "parseAmount boost_trim c str =
     (let places = unat (m_numberOfDecimalPlaces c);
          strAmount = boost_trim str;
          has_point = (CHR ''.'' \<in> set strAmount);
          whole = takeWhile (\<lambda>ch. ch \<noteq> CHR ''.'') strAmount;
          fraction = (if has_point then strip_zeros places (drop (length whole + 1) strAmount) else []);
          strAmount = whole @ fraction
      in if places < length fraction then None
         else if strAmount = [] then None
         else if \<not> list_all is_digit strAmount then None
         else fromString_u64 (strAmount @ replicate (places - length fraction) CHR ''0''))"

section \<open>Addresses are canonical\<close>

lemma read_varint_loop_mono:
  "read_varint_loop shift read i bs = (r, x) \<Longrightarrow> 0 \<le> read \<Longrightarrow> 0 \<le> r \<Longrightarrow> read \<le> r"
proof (induction shift read i bs rule: read_varint_loop.induct)
  case (2 shift read i byte bs)
  then show ?case by (force simp: Let_def split: if_splits)
qed simp

lemma readVarint_of_read_varint:
  fixes i :: "'w::len word"
  assumes "7 < LENGTH('w)"
  shows "read_varint_loop shift read i bs = (r, x) \<Longrightarrow> 0 \<le> read \<Longrightarrow> 0 \<le> r \<Longrightarrow> drop (nat (r - read)) bs \<noteq> [] \<Longrightarrow>
    readVarint_loop shift i bs = Inr (x, drop (nat (r - read)) bs)"
proof (induction bs arbitrary: shift read i)
  case (Cons b bs)
  have e: "LENGTH('w) - 7 \<le> shift \<longleftrightarrow> LENGTH('w) \<le> shift + 7" by auto
  let ?i = "i OR push_bit shift (ucast (b AND 0x7f)) :: 'w word"
  have ok: "\<not> (LENGTH('w) \<le> shift + 7 \<and> 2 ^ (LENGTH('w) - shift) \<le> unat b)" "\<not> (b = 0 \<and> shift \<noteq> 0)"
    using Cons.prems(1,3) by (auto split: if_splits)
  show ?case
  proof (cases "b AND 0x80 = 0")
    case True
    then show ?thesis using Cons.prems ok by (auto simp: e Let_def)
  next
    case False
    then have rec: "read_varint_loop (shift + 7) (read + 1) ?i bs = (r, x)" using Cons.prems(1) ok by (auto simp: Let_def)
    have "read + 1 \<le> r" using read_varint_loop_mono [OF rec] Cons.prems(2,3) by simp
    then have "nat (r - read) = Suc (nat (r - (read + 1)))" by linarith
    then show ?thesis using Cons.IH [OF rec] Cons.prems False ok by (auto simp: e Let_def)
  qed
qed simp

lemma decode_addr_canonical:
  assumes "decode_addr cn_fast_hash str = Some (tag, data)" "data \<noteq> []"
  shows "encode_addr cn_fast_hash tag data = Some str"
proof -
  obtain all where all: "base58_decode str = Some all" "\<not> length all \<le> 4"
    using assms(1) by (auto simp: decode_addr_def addr_checksum_size_def split: bind_splits if_splits)
  define buf where "buf = take (length all - 4) all"
  obtain r where r: "read_varint buf = (r, tag)" "0 < r" "data = drop (nat r) buf"
    and sum: "take 4 (cn_fast_hash buf) = drop (length all - 4) all"
    using assms(1) all by (auto simp: decode_addr_def addr_checksum_size_def buf_def Let_def split: if_splits prod.splits)
  have "readVarint_loop 0 0 buf = Inr (tag, data)"
    using readVarint_of_read_varint [of 0 0 "0 :: u64" buf r tag] r assms(2) by (simp add: read_varint_def)
  then have "buf = writeVarint tag @ data"
    using readVarint_canonical [of buf tag data] by (simp add: readVarint_def)
  then have "get_varint_data tag @ data = buf" by (simp add: get_varint_data_def write_varint_eq)
  moreover have "buf @ take 4 (cn_fast_hash buf) = all" by (simp only: sum) (simp add: buf_def)
  ultimately show ?thesis
    using base58_encode_decode [OF all(1)] by (simp add: encode_addr_def addr_checksum_size_def Let_def)
qed

text \<open>C18: A text is parsed as an address of the currency exactly when it is the text form of that address, and both keys
  have the right size and are points of the curve; so no address has two text forms.  The hash function may be
  any with at least four bytes of output.\<close>

theorem account_address_iff:
  assumes "\<forall>x. 4 \<le> length (cn_fast_hash x)"
  shows "parseAccountAddressString cn_fast_hash check_key c str = Some adr \<longleftrightarrow>
    accountAddressAsString cn_fast_hash c adr = Some str \<and>
    length (spendPublicKey adr) = KEY_SIZE \<and> length (viewPublicKey adr) = KEY_SIZE \<and>
    check_key (spendPublicKey adr) \<and> check_key (viewPublicKey adr)"
    (is "?parse \<longleftrightarrow> ?print \<and> ?valid")
proof
  assume ?parse
  then obtain data where d: "decode_addr cn_fast_hash str = Some (m_publicAddressBase58Prefix c, data)"
    "fromBinaryArray read_AccountPublicAddress data = Inr adr" "check_key (spendPublicKey adr) \<and> check_key (viewPublicKey adr)"
    by (auto simp: parseAccountAddressString_def parseAccountAddress_def split: bind_splits if_splits sum.splits)
  then have "read_AccountPublicAddress data = Inr (adr, [])"
    by (auto simp: fromBinaryArray_def endOfStream_def split: sum.splits if_splits)
  then have v: "length (spendPublicKey adr) = KEY_SIZE \<and> length (viewPublicKey adr) = KEY_SIZE"
    and data: "data = write_AccountPublicAddress adr"
    using address_codec.dec_iff by auto
  then have "data \<noteq> []" by (auto simp: write_AccountPublicAddress_def KEY_SIZE_def)
  from decode_addr_canonical [OF d(1) this] v d(3) data
  show "?print \<and> ?valid" by (simp add: accountAddressAsString_def getAccountAddressAsStr_def)
next
  assume pv: "?print \<and> ?valid"
  let ?data = "write_AccountPublicAddress adr"
  obtain addr where "encode_addr cn_fast_hash (m_publicAddressBase58Prefix c) ?data = Some addr"
    "decode_addr cn_fast_hash addr = Some (m_publicAddressBase58Prefix c, ?data)"
    using decode_addr_encode_addr assms by metis
  moreover have "read_AccountPublicAddress ?data = Inr (adr, [])" using address_codec.dec_iff pv by auto
  ultimately show ?parse
    using pv by (simp add: parseAccountAddressString_def parseAccountAddress_def accountAddressAsString_def
        getAccountAddressAsStr_def fromBinaryArray_def endOfStream_def)
qed

lemma account_address_iff_witness:
  "\<exists>str. accountAddressAsString (\<lambda>x. replicate 32 0) mainnet \<lparr>spendPublicKey = replicate 32 1, viewPublicKey = replicate 32 2\<rparr> = Some str \<and>
    parseAccountAddressString (\<lambda>x. replicate 32 0) (\<lambda>_. True) mainnet str =
      Some \<lparr>spendPublicKey = replicate 32 1, viewPublicKey = replicate 32 2\<rparr>"
proof -
  let ?h = "\<lambda>x :: bytes. replicate 32 0 :: bytes"
  let ?a = "\<lparr>spendPublicKey = replicate 32 1, viewPublicKey = replicate 32 2\<rparr>"
  have h: "\<forall>x. 4 \<le> length (?h x)" by simp
  obtain str where "accountAddressAsString ?h mainnet ?a = Some str"
    unfolding accountAddressAsString_def getAccountAddressAsStr_def
    by (rule decode_addr_encode_addr [of ?h "m_publicAddressBase58Prefix mainnet" "write_AccountPublicAddress ?a"]) simp_all
  with account_address_iff [OF h, of "\<lambda>_. True" mainnet str ?a] show ?thesis by (auto simp: KEY_SIZE_def)
qed

section \<open>Amounts are read back\<close>

lemma digits_value_append: "digits_value (s @ t) = digits_value s * 10 ^ length t + digits_value t"
proof -
  have "foldl (\<lambda>v ch. 10 * v + unat (digit_value ch)) v t = v * 10 ^ length t + digits_value t" for v
    unfolding digits_value_def
  proof (induction t arbitrary: v)
    case (Cons ch t)
    show ?case
      using Cons [of "10 * v + unat (digit_value ch)"] Cons [of "unat (digit_value ch)"] by (simp add: algebra_simps)
  qed simp
  from this [of "digits_value s"] show ?thesis by (simp only: digits_value_def foldl_append)
qed

lemma digit_char_facts:
  "d < 10 \<Longrightarrow> is_digit (digit_char d)" "d < 10 \<Longrightarrow> unat (digit_value (digit_char d)) = d"
  by (simp_all add: is_digit_digit_char digit_value_digit_char unat_of_nat)

lemma to_string_facts: "list_all is_digit (to_string n) \<and> digits_value (to_string n) = n \<and> to_string n \<noteq> []"
proof (induction n rule: to_string.induct)
  case (1 n)
  show ?case
  proof (cases "n < 10")
    case True
    then show ?thesis by (simp add: to_string.simps [of n] digit_char_facts digits_value_def)
  next
    case False
    then show ?thesis using 1
      by (simp add: to_string.simps [of n] digit_char_facts digits_value_append) (simp add: digits_value_def digit_char_facts)
  qed
qed

lemma digits_value_zeros: "digits_value (replicate n CHR ''0'') = 0"
proof (induction n)
  case (Suc n)
  have "replicate (Suc n) CHR ''0'' = replicate n CHR ''0'' @ ''0''" by (simp add: replicate_append_same)
  then show ?case using Suc by (simp add: digits_value_append) (simp add: digits_value_def digit_value_def)
qed (simp add: digits_value_def)

text \<open>The digits that \<open>formatAmount\<close> splits.\<close>

definition padded :: "nat \<Rightarrow> u64 \<Rightarrow> string" where
  "padded places amount =
     (let s = to_string (unat amount) in replicate (places + 1 - length s) CHR ''0'' @ s)"

lemma padded_facts:
  "list_all is_digit (padded places amount)" "digits_value (padded places amount) = unat amount"
  "places < length (padded places amount)"
proof -
  have "is_digit CHR ''0''" by (simp add: is_digit_def)
  then show "list_all is_digit (padded places amount)"
    using to_string_facts [of "unat amount"] by (auto simp: padded_def Let_def list_all_iff)
  show "digits_value (padded places amount) = unat amount"
    using to_string_facts [of "unat amount"] by (simp add: padded_def Let_def digits_value_append digits_value_zeros)
  show "places < length (padded places amount)" by (simp add: padded_def Let_def)
qed

lemma formatAmount_eq:
  "formatAmount c amount =
     (let s = padded (unat (m_numberOfDecimalPlaces c)) amount; n = length s - unat (m_numberOfDecimalPlaces c)
      in take n s @ ''.'' @ drop n s)"
  by (simp add: formatAmount_def padded_def Let_def)

lemma digit_not_point: "is_digit ch \<Longrightarrow> ch \<noteq> CHR ''.''"
  by (auto simp: is_digit_def)

text \<open>C36: The text that \<open>formatAmount\<close> gives for an amount is parsed as this amount, for every number of decimal
  places, provided that trimming leaves texts of digits and points alone.\<close>

theorem parse_formatAmount:
  assumes "\<forall>s. (\<forall>ch \<in> set s. is_digit ch \<or> ch = CHR ''.'') \<longrightarrow> boost_trim s = s"
  shows "parseAmount boost_trim c (formatAmount c amount) = Some amount"
proof -
  define places where "places = unat (m_numberOfDecimalPlaces c)"
  define s where "s = padded places amount"
  define n where "n = length s - places"
  have s: "list_all is_digit s" "digits_value s = unat amount" "places < length s"
    unfolding s_def by (rule padded_facts)+
  have form: "formatAmount c amount = take n s @ ''.'' @ drop n s"
    by (simp add: formatAmount_eq places_def s_def n_def Let_def)
  have digits: "\<forall>ch \<in> set (take n s). is_digit ch" "\<forall>ch \<in> set (drop n s). is_digit ch"
    using s(1) by (auto simp: list_all_iff dest: in_set_takeD in_set_dropD)
  then have trim: "boost_trim (formatAmount c amount) = take n s @ ''.'' @ drop n s"
    unfolding form by (intro assms [rule_format]) auto
  have "takeWhile (\<lambda>ch. ch \<noteq> CHR ''.'') (take n s @ CHR ''.'' # drop n s) = take n s"
    using digits(1) by (subst takeWhile_tail) (auto simp: takeWhile_eq_all_conv dest: digit_not_point)
  moreover have "length (drop n s) = places" using s(3) by (simp add: n_def)
  moreover from this have "strip_zeros places (drop n s) = drop n s" by (subst strip_zeros.simps) simp
  moreover have "s \<noteq> []" using s(3) by auto
  ultimately show ?thesis
    using s(1,2) unat_lt_u64 [of amount]
    by (simp add: parseAmount_def trim places_def [symmetric] Let_def fromString_u64_def del: unat_lt_u64)
qed

lemma parse_formatAmount_witness:
  "formatAmount mainnet 1234567 = ''12.34567'' \<and> parseAmount (\<lambda>s. s) mainnet ''12.34567'' = Some 1234567"
proof -
  have "formatAmount mainnet 1234567 = ''12.34567''"
    by (simp add: formatAmount_def mainnet_def MEVACOIN_DISPLAY_DECIMAL_POINT_def to_string.simps digit_char_def char_of_def bit_0)
  with parse_formatAmount [of "\<lambda>s. s" mainnet 1234567] show ?thesis by simp
qed

end
