(* ===== verification/Consensus.thy ===== *)
theory Consensus
  imports Currency Difficulty
begin

text \<open>
  The difficulty rules of \<^verbatim>\<open>src/mevacoin_core/currency.cpp\<close> that depend on height and version, and the proof of work
  of blocks.  An index past the end of a vector is \<open>None\<close>.
\<close>

section \<open>The original difficulty rule\<close>

definition resize :: "nat \<Rightarrow> u64 list \<Rightarrow> u64 list" where
  "resize n xs = take n xs @ replicate (n - length xs) 0"

text \<open>\<open>cutBegin\<close> and \<open>cutEnd\<close> for a number of blocks.\<close>

definition cut_range :: "u64 \<Rightarrow> u64 \<Rightarrow> u64 \<Rightarrow> u64 \<times> u64" where
  "cut_range len window dcut =
     (if len \<le> window - 2 * dcut then (0, len)
      else let cutBegin = (len - (window - 2 * dcut) + 1) div 2 in (cutBegin, cutBegin + (window - 2 * dcut)))"

text \<open>\<open>timeSpan\<close>, \<open>high\<close> and \<open>low\<close> for sorted time stamps.\<close>

definition work_in_span :: "Currency \<Rightarrow> u64 list \<Rightarrow> u64 list \<Rightarrow> u64 \<Rightarrow> u64 \<Rightarrow> (u64 \<times> u64 \<times> u64) option" where
  "work_in_span c timestamps cumulativeDifficulties window dcut =
     do {
       let (cutBegin, cutEnd) = cut_range (of_nat (length timestamps)) window dcut;
       last_time \<leftarrow> vec_at timestamps (unat (cutEnd - 1));
       first_time \<leftarrow> vec_at timestamps (unat cutBegin);
       let timeSpan = last_time - first_time;
       let timeSpan = (if timeSpan = 0 then 1 else timeSpan);
       last_work \<leftarrow> vec_at cumulativeDifficulties (unat (cutEnd - 1));
       first_work \<leftarrow> vec_at cumulativeDifficulties (unat cutBegin);
       let totalWork = last_work - first_work;
       let (high, low) = mul128 totalWork (m_difficultyTarget c);
       Some (timeSpan, high, low)
     }"

text \<open>A division by zero is \<open>None\<close>.\<close>

definition u64_div :: "u64 \<Rightarrow> u64 \<Rightarrow> u64 option" where
  "u64_div a b = (if b = 0 then None else Some (a div b))"

definition nextDifficulty :: "Currency \<Rightarrow> u8 \<Rightarrow> u32 \<Rightarrow> u64 list \<Rightarrow> u64 list \<Rightarrow> u64 option" where
  "nextDifficulty c major block_index timestamps_o cumulativeDifficulties_o =
     (let window = difficultyWindowByBlockVersion c major;
          dcut = difficultyCutByBlockVersion c major;
          too_long = (unat window < length timestamps_o);
          timestamps = (if too_long then resize (unat window) timestamps_o else timestamps_o);
          cumulativeDifficulties =
            (if too_long then resize (unat window) cumulativeDifficulties_o else cumulativeDifficulties_o)
      in if length timestamps \<le> 1 then Some 1
         else do {
           (timeSpan, high, low) \<leftarrow> work_in_span c (sort timestamps) cumulativeDifficulties window dcut;
           if high \<noteq> 0 \<or> -1 - low < timeSpan - 1 then Some 0
           else let zawyVersion = (if m_zawyDifficultyV2 c \<noteq> 0 then 2 else m_zawyDifficultyBlockVersion c)
           in if zawyVersion \<le> major \<and> zawyVersion \<noteq> 0 then u64_div low timeSpan
           else if m_zawyDifficultyBlockIndex c \<noteq> 0 \<and> m_zawyDifficultyBlockIndex c \<le> block_index
           then let t_window = min 17 (length timestamps)
                in if length cumulativeDifficulties_o < t_window then None
                   else let timestamps_tmp = drop (length timestamps_o - t_window) timestamps_o;
                            cumulativeDifficulties_tmp = drop (length cumulativeDifficulties_o - t_window) cumulativeDifficulties_o
                        in if length timestamps_tmp \<le> 1 then Some 1
                           else do {
                             (timeSpan, high, low) \<leftarrow> work_in_span c (sort timestamps_tmp) cumulativeDifficulties_tmp 17 0;
                             if high \<noteq> 0 \<or> -1 - low < timeSpan - 1 then Some 0
                             else do { nextDiffZ \<leftarrow> u64_div low timeSpan; Some (if nextDiffZ \<le> 100 then 100 else nextDiffZ) }
                           }
           else u64_div (low + timeSpan - 1) timeSpan
         })"

definition getNextDifficulty :: "Currency \<Rightarrow> u8 \<Rightarrow> u32 \<Rightarrow> u64 list \<Rightarrow> u64 list \<Rightarrow> u64 option" where
  "getNextDifficulty c major block_index timestamps cumulativeDifficulties =
     (if LWMA_3_DIFFICULTY_BLOCK_INDEX \<le> ucast block_index then nextDifficultyV6 timestamps cumulativeDifficulties
      else if LWMA_2_DIFFICULTY_BLOCK_INDEX_V3 \<le> ucast block_index then nextDifficultyV5 timestamps cumulativeDifficulties
      else if LWMA_2_DIFFICULTY_BLOCK_INDEX_V2 \<le> ucast block_index then nextDifficultyV4 timestamps cumulativeDifficulties
      else if LWMA_2_DIFFICULTY_BLOCK_INDEX \<le> ucast block_index then nextDifficultyV3 timestamps cumulativeDifficulties
      else nextDifficulty c major block_index timestamps cumulativeDifficulties)"

section \<open>Proof of work\<close>

text \<open>
  The hash functions of a node: \<open>cn_fast_hash\<close> and the three proof of work hashes.  An exception of a
  hash computation is \<open>Inl\<close>.
\<close>

record hashes =
  fast :: "bytes \<Rightarrow> bytes"
  slow_v0 :: "bytes \<Rightarrow> bytes"
  lite_v1 :: "bytes \<Rightarrow> bytes"
  turtle_lite_v2 :: "bytes \<Rightarrow> bytes"

abbreviation long_hash :: "hashes \<Rightarrow> BlockTemplate \<Rightarrow> ser_error + bytes" where
  "long_hash H \<equiv> getBlockLongHash (fast H) (slow_v0 H) (lite_v1 H) (turtle_lite_v2 H)"

definition checkProofOfWorkV1 :: "hashes \<Rightarrow> BlockTemplate \<Rightarrow> u64 \<Rightarrow> ser_error + bool" where
  "checkProofOfWorkV1 H block currentDifficulty =
     (if BLOCK_MAJOR_VERSION_1 \<noteq> majorVersion block then Inr False
      else bind_e (long_hash H block) (\<lambda>hash. Inr (check_hash hash currentDifficulty)))"

definition checkProofOfWorkV2 :: "hashes \<Rightarrow> bytes \<Rightarrow> BlockTemplate \<Rightarrow> u64 \<Rightarrow> ser_error + bool" where
  "checkProofOfWorkV2 H genesisBlockHash block currentDifficulty =
     (if majorVersion block < BLOCK_MAJOR_VERSION_2 then Inr False
      else bind_e (long_hash H block) (\<lambda>hash.
        if \<not> check_hash hash currentDifficulty then Inr False
        else case getMergeMiningTagFromExtra (extra (pb_baseTransaction (parentBlock block))) of
               None \<Rightarrow> Inr False
             | Some (_, root) \<Rightarrow>
                 if 8 * KEY_SIZE < length (blockchainBranch (parentBlock block)) then Inr False
                 else bind_e (getAuxiliaryBlockHeaderHash (fast H) block) (\<lambda>aux.
                   Inr (tree_hash_from_branch (fast H) (blockchainBranch (parentBlock block))
                          (length (blockchainBranch (parentBlock block))) aux (Some genesisBlockHash) = Some root))))"

definition checkProofOfWork :: "hashes \<Rightarrow> bytes \<Rightarrow> BlockTemplate \<Rightarrow> u64 \<Rightarrow> ser_error + bool" where
  "checkProofOfWork H genesisBlockHash block currentDiffic =
     (if majorVersion block = BLOCK_MAJOR_VERSION_1 then checkProofOfWorkV1 H block currentDiffic
      else if majorVersion block \<in> {BLOCK_MAJOR_VERSION_2, BLOCK_MAJOR_VERSION_3, BLOCK_MAJOR_VERSION_4, BLOCK_MAJOR_VERSION_5}
      then checkProofOfWorkV2 H genesisBlockHash block currentDiffic
      else Inr False)"

section \<open>The rules are defined\<close>

text \<open>A range of at least two blocks inside the vector.\<close>

lemma cut_range_inside:
  assumes "cut_range len window dcut = (b, e)" "2 * unat dcut + 2 \<le> unat window" "2 \<le> unat len"
  shows "unat b < unat e \<and> unat e \<le> unat len \<and> unat b + 2 \<le> unat e"
proof -
  have c2: "unat (2 * dcut) = 2 * unat dcut"
  proof -
    have "2 * unat dcut < 2 ^ 64" using assms(2) unat_lt_u64 [of window] by linarith
    then show ?thesis by (simp add: unat_word_ariths)
  qed
  then have w: "unat (window - 2 * dcut) = unat window - 2 * unat dcut"
    using assms(2) by (simp add: unat_sub word_le_nat_alt)
  define v where "v = window - 2 * dcut"
  have v2: "2 \<le> unat v" using w assms(2) unfolding v_def by linarith
  show ?thesis
  proof (cases "len \<le> v")
    case True
    then show ?thesis using assms(1,3) by (auto simp: cut_range_def v_def [symmetric])
  next
    case False
    then have lt: "unat v < unat len" by (simp add: word_le_nat_alt)
    have b: "b = (len - v + 1) div 2" "e = b + v" using False assms(1) by (auto simp: cut_range_def v_def [symmetric] Let_def)
    have s: "unat (len - v) = unat len - unat v" using lt by (simp add: unat_sub word_le_nat_alt)
    have "unat len - unat v + 1 < 2 ^ 64" using v2 lt unat_lt_u64 [of len] by linarith
    then have "unat (len - v + 1) = unat len - unat v + 1" by (subst unat_add_no_overflow) (simp_all add: s)
    then have b': "unat b = (unat len - unat v + 1) div 2" unfolding b(1) by (simp add: unat_div)
    then have le: "unat b \<le> unat len - unat v" using lt by simp
    then have "unat b + unat v < 2 ^ 64" using lt unat_lt_u64 [of len] by linarith
    then have "unat e = unat b + unat v" unfolding b(2) by (intro unat_add_no_overflow) simp
    then show ?thesis using le v2 lt by linarith
  qed
qed

lemma work_in_span_defined:
  assumes "length timestamps \<le> length cds" "2 \<le> length timestamps" "length timestamps < 2 ^ 64"
    "2 * unat dcut + 2 \<le> unat window"
  shows "\<exists>timeSpan high low. work_in_span c timestamps cds window dcut = Some (timeSpan, high, low) \<and> timeSpan \<noteq> 0"
proof -
  obtain b e where r: "cut_range (of_nat (length timestamps)) window dcut = (b, e)" by (metis prod.exhaust)
  have len: "unat (of_nat (length timestamps) :: u64) = length timestamps" using assms(3) by (rule unat_of_nat_u64)
  from cut_range_inside [OF r assms(4)] have inside: "unat b < unat e" "unat e \<le> length timestamps" "unat b + 2 \<le> unat e"
    using assms(2) len by simp_all
  have e1: "unat (e - 1) = unat e - 1" using inside by (subst unat_sub) (simp_all add: word_le_nat_alt)
  show ?thesis using inside e1 assms(1) by (simp add: work_in_span_def r vec_at_def Let_def split_beta)
qed

text \<open>C24: The original difficulty rule always gives a difficulty: it reads inside its vectors and never divides by
  zero, also when all blocks have the same time stamp, for vectors of the same length and a window that exceeds
  twice the cut by two at least.\<close>

theorem nextDifficulty_defined:
  assumes "length timestamps = length cumulativeDifficulties" "length timestamps < 2 ^ 64"
    "2 * unat (difficultyCutByBlockVersion c major) + 2 \<le> unat (difficultyWindowByBlockVersion c major)"
  shows "\<exists>d. nextDifficulty c major block_index timestamps cumulativeDifficulties = Some d"
proof -
  let ?w = "difficultyWindowByBlockVersion c major" and ?ts = timestamps and ?cd = cumulativeDifficulties
  define ts cd where "ts = (if unat ?w < length ?ts then resize (unat ?w) ?ts else ?ts)"
    and "cd = (if unat ?w < length ?ts then resize (unat ?w) ?cd else ?cd)"
  have len: "length ts = length cd" "length ts < 2 ^ 64" "length ts \<le> length ?ts"
    using assms(1,2) by (auto simp: ts_def cd_def resize_def)
  show ?thesis
  proof (cases "length ts \<le> 1")
    case True
    then show ?thesis by (simp add: nextDifficulty_def Let_def ts_def [symmetric])
  next
    case False
    then obtain timeSpan high low where w: "work_in_span c (sort ts) cd ?w (difficultyCutByBlockVersion c major) = Some (timeSpan, high, low)" "timeSpan \<noteq> 0"
      using work_in_span_defined [of "sort ts" cd, OF _ _ _ assms(3)] len by (metis (no_types, lifting) le_refl length_sort not_less_eq_eq One_nat_def Suc_1)
    define n where "n = min 17 (length ts)"
    have n: "n \<le> length ?ts" "n \<le> length ?cd" "2 \<le> n" "n < 2 ^ 64" using len False assms(1) by (auto simp: n_def)
    obtain timeSpan' high' low' where w': "work_in_span c (sort (drop (length ?ts - n) ?ts)) (drop (length ?cd - n) ?cd) 17 0 = Some (timeSpan', high', low')" "timeSpan' \<noteq> 0"
      using work_in_span_defined [of "sort (drop (length ?ts - n) ?ts)" "drop (length ?cd - n) ?cd" 0 17 c] n by auto
    show ?thesis
      using False n w w' by (simp add: nextDifficulty_def u64_div_def Let_def ts_def [symmetric] cd_def [symmetric] n_def [symmetric])
  qed
qed

lemma nextDifficulty_defined_witness:
  "\<exists>d. nextDifficulty mainnet 5 100 [1000, 1180, 1100] [10, 30, 60] = Some d"
  using nextDifficulty_defined [of "[1000, 1180, 1100]" "[10, 30, 60]" mainnet 5 100]
  by (simp add: difficultyCutByBlockVersion_def difficultyWindowByBlockVersion_def by_block_version_def block_versions
      mainnet_def DIFFICULTY_CUT_def DIFFICULTY_WINDOW_def)

section \<open>What the proof of work shows\<close>

text \<open>C13: A block of version 2 or later passes the proof of work exactly when its long hash times the difficulty stays
  below \<open>2 ^ 256\<close>, the coinbase transaction of its parent block has a merge mining tag, and the root in
  this tag is the root computed from the hash of the block along the blockchain branch, of at most 256 hashes.
\<close>

theorem checkProofOfWork_iff:
  assumes "majorVersion block \<in> {2, 3, 4, 5}" "long_hash H block = Inr hash" "length hash = 32"
    "getAuxiliaryBlockHeaderHash (fast H) block = Inr aux"
  shows "checkProofOfWork H genesis block difficulty = Inr True \<longleftrightarrow>
    le_value hash * unat difficulty < 2 ^ 256 \<and> length (blockchainBranch (parentBlock block)) \<le> 256 \<and>
    (\<exists>d root. getMergeMiningTagFromExtra (extra (pb_baseTransaction (parentBlock block))) = Some (d, root) \<and>
      tree_hash_from_branch (fast H) (blockchainBranch (parentBlock block))
        (length (blockchainBranch (parentBlock block))) aux (Some genesis) = Some root)"
proof -
  have "majorVersion block \<noteq> 1" "\<not> majorVersion block < 2" using assms(1) by (auto simp: word_less_nat_alt)
  then have "checkProofOfWork H genesis block difficulty = checkProofOfWorkV2 H genesis block difficulty"
    using assms(1) by (simp add: checkProofOfWork_def block_versions)
  moreover have "8 * KEY_SIZE = 256" by (simp add: KEY_SIZE_def)
  ultimately show ?thesis
    using \<open>\<not> majorVersion block < 2\<close> assms(2,4) check_hash_value [OF assms(3), of difficulty]
    by (auto simp: checkProofOfWorkV2_def block_versions bind_e_def split: option.splits)
qed

definition constant_hashes :: hashes where
  "constant_hashes = \<lparr>fast = (\<lambda>_. replicate 32 7), slow_v0 = (\<lambda>_. replicate 32 0), lite_v1 = (\<lambda>_. replicate 32 0),
     turtle_lite_v2 = (\<lambda>_. replicate 32 0)\<rparr>"

lemma checkProofOfWork_iff_witness: "checkProofOfWork constant_hashes zero_key sample_block 1000 = Inr True"
proof -
  have long: "long_hash constant_hashes sample_block = Inr (replicate 32 0)"
    by (simp add: getBlockLongHash_def constant_hashes_def sample_block_def block_versions bind_e_def
        getParentBlockHashingBinaryArray_def write_ParentBlock_def sample_parent_def getBaseTransactionHash_def
        getObjectHash_def TRANSACTION_VERSION_2_def tree_hash_from_branch_def word_less_nat_alt Let_def)
  have aux: "getAuxiliaryBlockHeaderHash (fast constant_hashes) sample_block = Inr (replicate 32 7)"
    by (simp add: getAuxiliaryBlockHeaderHash_def getBlockHashingBinaryArray_def constant_hashes_def sample_block_def
        write_BlockHeader_def block_versions bind_e_def getTransactionTreeHash_def tree_hash_def word_less_nat_alt Let_def)
  have tag: "getMergeMiningTagFromExtra (extra (pb_baseTransaction (parentBlock sample_block))) = Some (0, replicate 32 7)"
    using getMergeMiningTag_append [of "replicate 32 7" 0] by (simp add: sample_block_def sample_parent_def KEY_SIZE_def)
  have "majorVersion sample_block \<in> {2, 3, 4, 5}" "blockchainBranch (parentBlock sample_block) = []"
    by (simp_all add: sample_block_def sample_parent_def)
  then show ?thesis
    using checkProofOfWork_iff [OF _ long _ aux, of zero_key 1000] tag
    by (simp add: le_value_zeros tree_hash_from_branch_def)
qed

end
