(* ===== verification/Mixins.thy ===== *)
theory Mixins
  imports Transactions Config
begin

text \<open>
  The limits on ring sizes: \<^verbatim>\<open>src/mevacoin_core/mixins.h\<close>.  An error carries the mixin and the limit that
  its message prints.
\<close>

datatype mixin_error = MixinTooLarge nat u64 | MixinTooSmall nat u64

text \<open>\<open>{minMixin, maxMixin, defaultMixin}\<close>.\<close>

definition getMixinAllowableRange :: "u64 \<Rightarrow> u64 \<times> u64 \<times> u64" where
  "getMixinAllowableRange height =
     (if ucast MIXIN_LIMITS_V4_HEIGHT \<le> height then (MINIMUM_MIXIN_V4, MAXIMUM_MIXIN_V4, DEFAULT_MIXIN_V4)
      else if ucast MIXIN_LIMITS_V3_HEIGHT \<le> height then (MINIMUM_MIXIN_V3, MAXIMUM_MIXIN_V3, DEFAULT_MIXIN_V3)
      else if ucast MIXIN_LIMITS_V2_HEIGHT \<le> height then (MINIMUM_MIXIN_V2, MAXIMUM_MIXIN_V2, DEFAULT_MIXIN_V2)
      else if ucast MIXIN_LIMITS_V1_HEIGHT \<le> height then (MINIMUM_MIXIN_V1, MAXIMUM_MIXIN_V1, DEFAULT_MIXIN_V1)
      else (0, -1, DEFAULT_MIXIN_V0))"

definition validate_mixin :: "u64 \<Rightarrow> u64 \<Rightarrow> mixin_error + unit" where
  "validate_mixin mixin height =
     (let (minMixin, maxMixin, _) = getMixinAllowableRange height
      in if mixin < minMixin then Inl (MixinTooSmall (unat mixin) minMixin)
         else if maxMixin < mixin then Inl (MixinTooLarge (unat mixin) maxMixin)
         else Inr ())"

text \<open>The largest ring of the inputs, at least one.\<close>

definition ring_step :: "nat \<Rightarrow> TransactionInput \<Rightarrow> nat" where
  "ring_step ringSize input =
     (if \<not> is_KeyInput input then ringSize
      else let currentRingSize = length (outputIndexes input)
           in if ringSize < currentRingSize then currentRingSize else ringSize)"

definition validate_transaction :: "'z TransactionPrefix_scheme \<Rightarrow> u64 \<Rightarrow> u64 \<Rightarrow> mixin_error + unit" where
  "validate_transaction tx minMixin maxMixin =
     (let ringSize = foldl ring_step 1 (inputs tx);
          mixin = ringSize - 1
      in if unat maxMixin < mixin then Inl (MixinTooLarge mixin maxMixin)
         else if mixin < unat minMixin then Inl (MixinTooSmall mixin minMixin)
         else Inr ())"

fun validate_all :: "'z TransactionPrefix_scheme list \<Rightarrow> u64 \<Rightarrow> u64 \<Rightarrow> mixin_error + unit" where
  "validate_all [] minMixin maxMixin = Inr ()"
| "validate_all (tx # txs) minMixin maxMixin =
     (case validate_transaction tx minMixin maxMixin of
        Inl e \<Rightarrow> Inl e
      | Inr _ \<Rightarrow> validate_all txs minMixin maxMixin)"

definition validate_transactions :: "'z TransactionPrefix_scheme list \<Rightarrow> u64 \<Rightarrow> mixin_error + unit" where
  "validate_transactions txs height =
     (let (minMixin, maxMixin, _) = getMixinAllowableRange height in validate_all txs minMixin maxMixin)"

section \<open>What the limits mean\<close>

text \<open>The ring sizes of a transaction.\<close>

abbreviation rings :: "'z TransactionPrefix_scheme \<Rightarrow> nat list" where
  "rings tx \<equiv> map (\<lambda>i. length (outputIndexes i)) (filter is_KeyInput (inputs tx))"

lemma ring_step_max: "ring_step n i = (if is_KeyInput i then max n (length (outputIndexes i)) else n)"
  by (simp add: ring_step_def Let_def max_def)

lemma foldl_ring_step_le:
  "foldl ring_step n ins \<le> m \<longleftrightarrow> n \<le> m \<and> (\<forall>i \<in> set ins. is_KeyInput i \<longrightarrow> length (outputIndexes i) \<le> m)"
  by (induction ins arbitrary: n) (auto simp: ring_step_max)

lemma foldl_ring_step_ge:
  "m \<le> foldl ring_step n ins \<longleftrightarrow> m \<le> n \<or> (\<exists>i \<in> set ins. is_KeyInput i \<and> m \<le> length (outputIndexes i))"
  by (induction ins arbitrary: n) (auto simp: ring_step_max le_max_iff_disj)

lemma validate_transaction_iff:
  "validate_transaction tx minMixin maxMixin = Inr () \<longleftrightarrow>
     (\<forall>r \<in> set (rings tx). r \<le> unat maxMixin + 1) \<and> (minMixin = 0 \<or> (\<exists>r \<in> set (rings tx). unat minMixin + 1 \<le> r))"
proof -
  let ?m = "foldl ring_step 1 (inputs tx)"
  have le: "?m \<le> unat maxMixin + 1 \<longleftrightarrow> (\<forall>r \<in> set (rings tx). r \<le> unat maxMixin + 1)"
    by (auto simp: foldl_ring_step_le)
  have ge: "unat minMixin + 1 \<le> ?m \<longleftrightarrow> minMixin = 0 \<or> (\<exists>r \<in> set (rings tx). unat minMixin + 1 \<le> r)"
    unfolding foldl_ring_step_ge by (auto simp: unat_eq_0)
  have "1 \<le> ?m" by (simp add: foldl_ring_step_ge)
  then have "validate_transaction tx minMixin maxMixin = Inr () \<longleftrightarrow> ?m \<le> unat maxMixin + 1 \<and> unat minMixin + 1 \<le> ?m"
    by (auto simp: validate_transaction_def Let_def)
  then show ?thesis unfolding le ge .
qed

lemma validate_all_iff:
  "validate_all txs minMixin maxMixin = Inr () \<longleftrightarrow> (\<forall>tx \<in> set txs. validate_transaction tx minMixin maxMixin = Inr ())"
  by (induction txs) (auto split: sum.splits)

text \<open>C33: From the last change of the limits on, a list of transactions is accepted exactly when no ring has more than six
  members and every transaction has some ring of two members at least.  The lower limit is met by one ring of a
  transaction; its other rings may have a single member.\<close>

theorem validate_transactions_current:
  assumes "1250000 \<le> height"
  shows "validate_transactions txs height = Inr () \<longleftrightarrow>
    (\<forall>tx \<in> set txs. (\<forall>r \<in> set (rings tx). r \<le> 6) \<and> (\<exists>r \<in> set (rings tx). 2 \<le> r))"
proof -
  have "getMixinAllowableRange height = (1, 5, 5)"
    using assms by (simp add: getMixinAllowableRange_def mixin_config)
  moreover have "unat (5 :: u64) + 1 = 6" "unat (1 :: u64) + 1 = 2" by simp_all
  ultimately show ?thesis
    by (simp only: validate_transactions_def validate_all_iff validate_transaction_iff Let_def prod.case) simp
qed

lemma validate_transactions_current_witness:
  "(1250000 :: u64) \<le> 2000000 \<and>
   validate_transactions [\<lparr>version = 1, unlockTime = 0, inputs = [KeyInput 10 [7] [], KeyInput 10 [1, 2] []],
     outputs = [], extra = []\<rparr>] 2000000 = Inr ()"
  using validate_transactions_current [of 2000000 "[\<lparr>version = 1, unlockTime = 0,
     inputs = [KeyInput 10 [7] [], KeyInput 10 [1, 2] []], outputs = [], extra = []\<rparr>]"]
  by simp

end
