(* ===== verification/Upgrades.thy ===== *)
theory Upgrades
  imports Currency
begin

text \<open>
  The versions of blocks: the table of \<^verbatim>\<open>src/mevacoin_core/upgrade_manager.cpp\<close> and the voting of
  \<^verbatim>\<open>src/mevacoin_core/upgrade_detector.h\<close>.  Log messages and the assertions, which the release build drops,
  are left out.
\<close>

section \<open>Upgrade manager\<close>

text \<open>Target version and upgrade index of each detector, in the order they were added.\<close>

type_synonym upgrade_table = "(u8 \<times> u32) list"

definition addMajorBlockVersion :: "u8 \<Rightarrow> u32 \<Rightarrow> upgrade_table \<Rightarrow> upgrade_table" where
  "addMajorBlockVersion tv index detectors = detectors @ [(tv, index)]"

definition getBlockMajorVersion :: "upgrade_table \<Rightarrow> u32 \<Rightarrow> u8" where
  "getBlockMajorVersion detectors block_index =
     (case find (\<lambda>(_, index). index < block_index) (rev detectors) of
        None \<Rightarrow> BLOCK_MAJOR_VERSION_1
      | Some (tv, _) \<Rightarrow> tv)"

definition configured_versions :: "Currency \<Rightarrow> upgrade_table" where
  "configured_versions c =
     addMajorBlockVersion BLOCK_MAJOR_VERSION_5 (upgradeHeight c BLOCK_MAJOR_VERSION_5)
     (addMajorBlockVersion BLOCK_MAJOR_VERSION_4 (upgradeHeight c BLOCK_MAJOR_VERSION_4)
     (addMajorBlockVersion BLOCK_MAJOR_VERSION_3 (upgradeHeight c BLOCK_MAJOR_VERSION_3)
     (addMajorBlockVersion BLOCK_MAJOR_VERSION_2 (upgradeHeight c BLOCK_MAJOR_VERSION_2) [])))"

definition getBlockMajorVersionForHeight :: "Currency \<Rightarrow> u32 \<Rightarrow> u8" where
  "getBlockMajorVersionForHeight c height = getBlockMajorVersion (configured_versions c) height"

section \<open>Voting\<close>

definition UNDEF_HEIGHT :: u32 where "UNDEF_HEIGHT = -1"

text \<open>Major and minor version of the blocks of a chain; the target version and the state of a detector.\<close>

type_synonym versions = "(u8 \<times> u8) list"

record UpgradeDetector =
  m_targetVersion :: u8
  m_votingCompleteHeight :: u32

text \<open>\<open>m_targetVersion - 1\<close> is an \<open>int\<close>.\<close>

definition is_vote :: "u8 \<Rightarrow> u8 \<times> u8 \<Rightarrow> bool" where
  "is_vote tv b \<longleftrightarrow> int (unat (fst b)) = int (unat tv) - 1 \<and> snd b = BLOCK_MINOR_VERSION_1"

definition getNumberOfVotes :: "Currency \<Rightarrow> u8 \<Rightarrow> versions \<Rightarrow> u32 \<Rightarrow> nat option" where
  "getNumberOfVotes c tv chain height =
     (if height < m_upgradeVotingWindow c - 1 then Some 0
      else if length chain \<le> unat height then None
      else Some (length (filter (is_vote tv)
             (take (unat height + 1 - unat (height + 1 - m_upgradeVotingWindow c))
               (drop (unat (height + 1 - m_upgradeVotingWindow c)) chain)))))"

definition isVotingComplete :: "Currency \<Rightarrow> u8 \<Rightarrow> versions \<Rightarrow> u32 \<Rightarrow> bool option" where
  "isVotingComplete c tv chain height =
     map_option (\<lambda>voteCounter. unat (m_upgradeVotingThreshold c * m_upgradeVotingWindow c) \<le> 100 * voteCounter)
       (getNumberOfVotes c tv chain height)"

text \<open>The loop of \<open>findVotingCompleteHeight\<close> over the heights from \<open>i\<close> on.\<close>

fun find_complete :: "Currency \<Rightarrow> u8 \<Rightarrow> versions \<Rightarrow> nat list \<Rightarrow> u32 option" where
  "find_complete c tv chain [] = Some UNDEF_HEIGHT"
| "find_complete c tv chain (i # is) =
     do { done \<leftarrow> isVotingComplete c tv chain (of_nat i);
          if done then Some (of_nat i) else find_complete c tv chain is }"

definition findVotingCompleteHeight :: "Currency \<Rightarrow> u8 \<Rightarrow> versions \<Rightarrow> u32 \<Rightarrow> u32 option" where
  "findVotingCompleteHeight c tv chain probableUpgradeHeight =
     (let start = (if maxUpgradeDistance c < probableUpgradeHeight then probableUpgradeHeight - maxUpgradeDistance c else 0)
      in find_complete c tv chain [unat start..<unat probableUpgradeHeight + 1])"

text \<open>
  \<open>init\<close>: \<open>Some (True, d)\<close> is the result \<open>true\<close>.  The binary search \<open>std::lower_bound\<close> finds the end of
  the longest prefix with smaller versions on a chain whose versions do not decrease.
\<close>

definition detector_init :: "Currency \<Rightarrow> versions \<Rightarrow> UpgradeDetector \<Rightarrow> (bool \<times> UpgradeDetector) option" where
  "detector_init c chain d =
     (let tv = m_targetVersion d; upgrade = upgradeHeight c tv
      in if upgrade = UNDEF_HEIGHT
         then if chain = [] then Some (True, d\<lparr>m_votingCompleteHeight := UNDEF_HEIGHT\<rparr>)
              else if int (unat (fst (last chain))) = int (unat tv) - 1
              then do { h \<leftarrow> findVotingCompleteHeight c tv chain (of_nat (length chain - 1));
                        Some (True, d\<lparr>m_votingCompleteHeight := h\<rparr>) }
              else if tv \<le> fst (last chain)
              then let it = length (takeWhile (\<lambda>b. fst b < tv) chain)
                   in if it = length chain \<or> fst (chain ! it) \<noteq> tv then Some (False, d)
                      else do { h \<leftarrow> findVotingCompleteHeight c tv chain (of_nat it);
                                Some (h \<noteq> UNDEF_HEIGHT, d\<lparr>m_votingCompleteHeight := h\<rparr>) }
              else Some (True, d\<lparr>m_votingCompleteHeight := UNDEF_HEIGHT\<rparr>)
         else if chain = [] then Some (True, d)
         else if length chain \<le> unat (upgrade + 1) then Some (\<not> tv \<le> fst (last chain), d)
         else Some (int (unat (fst (chain ! unat upgrade))) = int (unat tv) - 1 \<and>
                    fst (chain ! unat (upgrade + 1)) = tv, d))"

definition detector_upgradeHeight :: "Currency \<Rightarrow> UpgradeDetector \<Rightarrow> u32" where
  "detector_upgradeHeight c d =
     (if upgradeHeight c (m_targetVersion d) = UNDEF_HEIGHT
      then if m_votingCompleteHeight d = UNDEF_HEIGHT then UNDEF_HEIGHT
           else calculateUpgradeHeight c (m_votingCompleteHeight d)
      else upgradeHeight c (m_targetVersion d))"

text \<open>The period \<open>60 * 60 / difficultyTarget\<close> of the messages before an upgrade is a divisor itself.\<close>

definition hourly_message :: "Currency \<Rightarrow> bool" where
  "hourly_message c \<longleftrightarrow> m_difficultyTarget c \<noteq> 0 \<and> 60 * 60 div m_difficultyTarget c \<noteq> 0"

text \<open>After a block was added to the chain, and after the last one was removed.\<close>

definition blockPushed :: "Currency \<Rightarrow> versions \<Rightarrow> UpgradeDetector \<Rightarrow> UpgradeDetector option" where
  "blockPushed c chain d =
     (if upgradeHeight c (m_targetVersion d) \<noteq> UNDEF_HEIGHT then Some d
      else if m_votingCompleteHeight d \<noteq> UNDEF_HEIGHT
      then if length chain \<le> unat (detector_upgradeHeight c d) \<and> \<not> hourly_message c then None else Some d
      else let lastBlockHeight = of_nat (length chain - 1)
           in do { done \<leftarrow> isVotingComplete c (m_targetVersion d) chain lastBlockHeight;
                   Some (if done then d\<lparr>m_votingCompleteHeight := lastBlockHeight\<rparr> else d) })"

definition blockPopped :: "Currency \<Rightarrow> versions \<Rightarrow> UpgradeDetector \<Rightarrow> UpgradeDetector" where
  "blockPopped c chain d =
     (if m_votingCompleteHeight d \<noteq> UNDEF_HEIGHT \<and> length chain = unat (m_votingCompleteHeight d)
      then d\<lparr>m_votingCompleteHeight := UNDEF_HEIGHT\<rparr> else d)"

section \<open>Versions never decrease\<close>

text \<open>The table of the main network, and that later blocks have later versions.\<close>

lemma find_in_set: "find P xs = Some x \<Longrightarrow> x \<in> set xs"
  by (induction xs) (auto split: if_splits)

lemma find_rev_mono:
  assumes "sorted_wrt (\<lambda>x y. fst x < fst y) ds" "\<forall>x \<in> set ds. P x \<longrightarrow> Q x" "find P (rev ds) = Some (v, h)"
  shows "\<exists>v' h'. find Q (rev ds) = Some (v', h') \<and> (v :: u8) \<le> v'"
  using assms
proof (induction ds rule: rev_induct)
  case (snoc d ds)
  show ?case
  proof (cases "Q d")
    case True
    have "v \<le> fst d"
    proof (cases "P d")
      case False
      then have "(v, h) \<in> set ds" using snoc.prems(3) find_in_set [of P "rev ds"] by auto
      then show ?thesis using snoc.prems(1) by (fastforce simp: sorted_wrt_append)
    qed (use snoc.prems(3) in auto)
    then show ?thesis using True by (cases d) auto
  next
    case False
    then have "\<not> P d" using snoc.prems(2) by auto
    then show ?thesis using False snoc by (auto simp: sorted_wrt_append)
  qed
qed simp

text \<open>The version required of a block never decreases with its index, for every table with increasing target versions.\<close>

theorem block_versions_monotone:
  assumes "sorted_wrt (\<lambda>x y. fst x < fst y) detectors" "\<forall>d \<in> set detectors. 1 \<le> fst d" "i \<le> j"
  shows "getBlockMajorVersion detectors i \<le> getBlockMajorVersion detectors j"
proof -
  have imp: "\<forall>x \<in> set detectors. (case x of (_, index) \<Rightarrow> index < i) \<longrightarrow> (case x of (_, index) \<Rightarrow> index < j)"
    using assms(3) by auto
  show ?thesis
  proof (cases "find (\<lambda>(_, index). index < i) (rev detectors)")
    case None
    have "1 \<le> v" if "find (\<lambda>(_, index). index < j) (rev detectors) = Some (v, h)" for v h
      using find_in_set [OF that] assms(2) by auto
    with None show ?thesis by (auto simp: getBlockMajorVersion_def BLOCK_MAJOR_VERSION_1_def split: option.split)
  next
    case (Some d)
    then show ?thesis using find_rev_mono [OF assms(1) imp] by (cases d) (auto simp: getBlockMajorVersion_def)
  qed
qed

lemma mainnet_versions: "configured_versions mainnet = [(2, 1), (3, 2), (4, 3), (5, 4)]"
  by (simp add: configured_versions_def addMajorBlockVersion_def upgradeHeight_def mainnet_def block_versions
      UPGRADE_HEIGHT_V2_def UPGRADE_HEIGHT_V3_def UPGRADE_HEIGHT_V4_def UPGRADE_HEIGHT_V5_def)

lemma block_versions_monotone_witness:
  "getBlockMajorVersionForHeight mainnet 3 = 3 \<and>
   getBlockMajorVersionForHeight mainnet 3 \<le> getBlockMajorVersionForHeight mainnet 1000000"
proof
  show "getBlockMajorVersionForHeight mainnet 3 = 3"
    by (simp add: getBlockMajorVersionForHeight_def mainnet_versions getBlockMajorVersion_def)
  show "getBlockMajorVersionForHeight mainnet 3 \<le> getBlockMajorVersionForHeight mainnet 1000000"
    unfolding getBlockMajorVersionForHeight_def
    by (rule block_versions_monotone) (simp_all add: mainnet_versions)
qed

section \<open>The height at which the voting is complete\<close>

text \<open>Blocks above a height do not influence the votes at this height.\<close>

lemma isVotingComplete_append:
  assumes "h < length chain" "length chain < 2 ^ 32"
  shows "isVotingComplete c tv (chain @ bs) (of_nat h) = isVotingComplete c tv chain (of_nat h)"
proof -
  have h: "unat (of_nat h :: u32) = h" using assms by (simp add: unat_of_nat)
  have "take (h + 1 - s) (drop s (chain @ bs)) = take (h + 1 - s) (drop s chain)" for s using assms(1) by auto
  then show ?thesis using assms(1) by (simp add: isVotingComplete_def getNumberOfVotes_def h)
qed

lemma isVotingComplete_defined:
  "h < length chain \<Longrightarrow> length chain < 2 ^ 32 \<Longrightarrow> \<exists>b. isVotingComplete c tv chain (of_nat h) = Some b"
  by (simp add: isVotingComplete_def getNumberOfVotes_def unat_of_nat)

text \<open>The first height of the chain at which the voting is complete.\<close>

definition first_complete :: "Currency \<Rightarrow> u8 \<Rightarrow> versions \<Rightarrow> u32" where
  "first_complete c tv chain =
     (case find (\<lambda>h. isVotingComplete c tv chain (of_nat h) = Some True) [0..<length chain] of
        None \<Rightarrow> UNDEF_HEIGHT
      | Some h \<Rightarrow> of_nat h)"

text \<open>Blocks are added and removed at the end of the chain.\<close>

inductive detector_step :: "Currency \<Rightarrow> versions \<times> UpgradeDetector \<Rightarrow> versions \<times> UpgradeDetector \<Rightarrow> bool" for c where
  push: "length chain + 1 < 2 ^ 32 - 1 \<Longrightarrow> blockPushed c (chain @ [b]) d = Some d' \<Longrightarrow>
    detector_step c (chain, d) (chain @ [b], d')"
| pop: "chain \<noteq> [] \<Longrightarrow> detector_step c (chain, d) (butlast chain, blockPopped c (butlast chain) d)"

inductive_cases detector_stepE: "detector_step c s t"

definition voting_inv :: "Currency \<Rightarrow> versions \<times> UpgradeDetector \<Rightarrow> bool" where
  "voting_inv c s \<longleftrightarrow> length (fst s) < 2 ^ 32 - 1 \<and>
     m_votingCompleteHeight (snd s) = first_complete c (m_targetVersion (snd s)) (fst s)"

lemma find_upt_Suc:
  "find P [0..<Suc n] = (case find P [0..<n] of Some x \<Rightarrow> Some x | None \<Rightarrow> if P n then Some n else None)"
proof -
  have "find P (xs @ ys) = (case find P xs of Some x \<Rightarrow> Some x | None \<Rightarrow> find P ys)" for xs ys
    by (induction xs) auto
  then show ?thesis by (auto split: option.split)
qed

lemma find_cong_upt: "(\<And>h. h < n \<Longrightarrow> P h = Q h) \<Longrightarrow> find P [0..<n] = find Q [0..<n]"
  by (rule find_cong) auto

lemma first_complete_snoc:
  assumes "length chain + 1 < 2 ^ 32"
  shows "first_complete c tv (chain @ [b]) =
    (case find (\<lambda>h. isVotingComplete c tv chain (of_nat h) = Some True) [0..<length chain] of
       Some h \<Rightarrow> of_nat h
     | None \<Rightarrow> if isVotingComplete c tv (chain @ [b]) (of_nat (length chain)) = Some True then of_nat (length chain)
               else UNDEF_HEIGHT)"
proof -
  have "find (\<lambda>h. isVotingComplete c tv (chain @ [b]) (of_nat h) = Some True) [0..<length chain] =
      find (\<lambda>h. isVotingComplete c tv chain (of_nat h) = Some True) [0..<length chain]"
    using assms by (intro find_cong_upt) (simp add: isVotingComplete_append)
  then show ?thesis by (simp add: first_complete_def find_upt_Suc split: option.split del: upt_Suc)
qed


lemma of_nat_neq_UNDEF: "h < 2 ^ 32 - 1 \<Longrightarrow> of_nat h \<noteq> UNDEF_HEIGHT"
proof
  assume "h < 2 ^ 32 - 1" "of_nat h = UNDEF_HEIGHT"
  then have "unat (of_nat h :: u32) = 2 ^ 32 - 1" by (simp add: UNDEF_HEIGHT_def unsigned_minus_1_eq_mask mask_eq_exp_minus_1)
  with \<open>h < 2 ^ 32 - 1\<close> show False by (simp add: unat_of_nat)
qed

lemma find_upt_less: "find P [0..<n] = Some h \<Longrightarrow> h < n"
  using find_in_set [of P "[0..<n]" h] by auto

lemma blockPushed_voting:
  assumes "voting_inv c (chain, d)" "upgradeHeight c (m_targetVersion d) = UNDEF_HEIGHT" "length chain + 1 < 2 ^ 32 - 1"
    "hourly_message c"
  shows "\<exists>d'. blockPushed c (chain @ [b]) d = Some d' \<and> m_targetVersion d' = m_targetVersion d \<and> voting_inv c (chain @ [b], d')"
proof -
  obtain ok where ok: "isVotingComplete c (m_targetVersion d) (chain @ [b]) (of_nat (length chain)) = Some ok"
    using isVotingComplete_defined [of "length chain" "chain @ [b]"] assms(3) by auto
  let ?find = "find (\<lambda>h. isVotingComplete c (m_targetVersion d) chain (of_nat h) = Some True) [0..<length chain]"
  have height: "m_votingCompleteHeight d = (case ?find of None \<Rightarrow> UNDEF_HEIGHT | Some h \<Rightarrow> of_nat h)"
    using assms(1) by (simp add: voting_inv_def first_complete_def)
  show ?thesis
  proof (cases ?find)
    case None
    with height ok assms(2,3) show ?thesis by (simp add: blockPushed_def voting_inv_def first_complete_snoc)
  next
    case (Some h)
    then have "of_nat h \<noteq> UNDEF_HEIGHT" using find_upt_less assms(3) by (intro of_nat_neq_UNDEF) fastforce
    with Some height assms(2-) show ?thesis by (simp add: blockPushed_def voting_inv_def first_complete_snoc)
  qed
qed

lemma blockPopped_voting:
  assumes "voting_inv c (chain @ [b], d)"
  shows "m_targetVersion (blockPopped c chain d) = m_targetVersion d \<and> voting_inv c (chain, blockPopped c chain d)"
proof -
  let ?find = "find (\<lambda>h. isVotingComplete c (m_targetVersion d) chain (of_nat h) = Some True) [0..<length chain]"
  have len: "length chain + 1 < 2 ^ 32 - 1" using assms by (simp add: voting_inv_def)
  then have unat_len: "unat (of_nat (length chain) :: u32) = length chain" by (simp add: unat_of_nat)
  have height: "m_votingCompleteHeight d = first_complete c (m_targetVersion d) (chain @ [b])"
    using assms by (simp add: voting_inv_def)
  show ?thesis
  proof (cases ?find)
    case None
    then show ?thesis using height len unat_len
      by (simp add: blockPopped_def voting_inv_def first_complete_snoc, simp add: first_complete_def)
  next
    case (Some h)
    then have "h < length chain" by (rule find_upt_less)
    with Some height len show ?thesis
      by (simp add: blockPopped_def voting_inv_def first_complete_snoc unat_of_nat, simp add: first_complete_def)
  qed
qed

lemma detector_step_inv:
  assumes "detector_step c s t" "voting_inv c s" "upgradeHeight c (m_targetVersion (snd s)) = UNDEF_HEIGHT" "hourly_message c"
  shows "voting_inv c t \<and> m_targetVersion (snd t) = m_targetVersion (snd s)"
  using assms(1)
proof (cases rule: detector_step.cases)
  case (push chain b d d')
  then show ?thesis using blockPushed_voting [of c chain d b] assms(2-) by auto
next
  case (pop chain d)
  then obtain bs b where "chain = bs @ [b]" by (metis append_butlast_last_id)
  with pop show ?thesis using blockPopped_voting [of c bs b d] assms(2) by simp
qed

lemma detector_steps_inv:
  assumes "(detector_step c)\<^sup>*\<^sup>* s t" "voting_inv c s" "upgradeHeight c (m_targetVersion (snd s)) = UNDEF_HEIGHT" "hourly_message c"
  shows "voting_inv c t \<and> m_targetVersion (snd t) = m_targetVersion (snd s)"
  using assms(1)
proof induction
  case base
  then show ?case using assms(2) by simp
next
  case (step t u)
  then show ?case using detector_step_inv [of c t u] assms(3,4) by simp
qed

lemma find_complete_eq:
  assumes "\<forall>i \<in> set is. \<exists>b. isVotingComplete c tv chain (of_nat i) = Some b"
  shows "find_complete c tv chain is =
    Some (case find (\<lambda>h. isVotingComplete c tv chain (of_nat h) = Some True) is of None \<Rightarrow> UNDEF_HEIGHT | Some h \<Rightarrow> of_nat h)"
  using assms by (induction "is") auto

text \<open>
  A detector that starts on a chain finds the same height as one that has seen the blocks one by one, if that height is
  not below the part of the chain that it searches.
\<close>

lemma find_complete_suffix:
  assumes "length chain < 2 ^ 32 - 1" "k \<le> unat (first_complete c tv chain)" "k \<le> length chain"
  shows "find_complete c tv chain [k..<length chain] = Some (first_complete c tv chain)"
proof -
  let ?P = "\<lambda>h. isVotingComplete c tv chain (of_nat h) = Some True"
  have parts: "[0..<length chain] = [0..<k] @ [k..<length chain]" using upt_add_eq_append [of 0 k "length chain - k"] assms(3) by simp
  have "find ?P [0..<k] = None"
  proof (rule ccontr)
    assume "find ?P [0..<k] \<noteq> None"
    then obtain h where h: "find ?P [0..<k] = Some h" by blast
    then have "h < k" using find_in_set [OF h] by simp
    moreover have "first_complete c tv chain = of_nat h" using h by (simp add: first_complete_def parts find_append)
    ultimately show False using assms by (simp add: unat_of_nat)
  qed
  then have "find ?P [0..<length chain] = find ?P [k..<length chain]" by (simp add: parts find_append)
  moreover have "\<forall>i \<in> set [k..<length chain]. \<exists>b. isVotingComplete c tv chain (of_nat i) = Some b"
    using assms(1) by (simp add: isVotingComplete_defined)
  ultimately show ?thesis using find_complete_eq [of "[k..<length chain]" c tv chain] by (simp add: first_complete_def)
qed

lemma detector_init_voting:
  assumes "upgradeHeight c (m_targetVersion d) = UNDEF_HEIGHT" "length chain < 2 ^ 32 - 1"
    "chain \<noteq> [] \<Longrightarrow> int (unat (fst (last chain))) = int (unat (m_targetVersion d)) - 1"
    "length chain \<le> unat (first_complete c (m_targetVersion d) chain) + unat (maxUpgradeDistance c) + 1"
  shows "detector_init c chain d = Some (True, d\<lparr>m_votingCompleteHeight := first_complete c (m_targetVersion d) chain\<rparr>)"
proof (cases "chain = []")
  case True
  then show ?thesis using assms(1) by (simp add: detector_init_def first_complete_def)
next
  case False
  let ?n = "of_nat (length chain - 1) :: u32"
  have n: "unat ?n = length chain - 1" using assms(2) by (simp add: unat_of_nat)
  let ?start = "if maxUpgradeDistance c < ?n then ?n - maxUpgradeDistance c else 0"
  have "unat ?start = length chain - 1 - unat (maxUpgradeDistance c)" using n by (auto simp: word_less_nat_alt unat_sub word_le_nat_alt)
  then have "find_complete c (m_targetVersion d) chain [unat ?start..<length chain] = Some (first_complete c (m_targetVersion d) chain)"
    using assms(2,4) by (intro find_complete_suffix) linarith+
  moreover have "unat ?n + 1 = length chain" using n False by (cases chain) simp_all
  ultimately have "findVotingCompleteHeight c (m_targetVersion d) chain ?n = Some (first_complete c (m_targetVersion d) chain)"
    by (simp only: findVotingCompleteHeight_def Let_def)
  then show ?thesis using assms(1,3) False by (simp only: detector_init_def Let_def if_True if_False) simp
qed

text \<open>C34: For a version whose height is left to a vote, and a target time that divides an hour into at least one block: whatever blocks were added to and removed from the chain, the detector knows the first height of the present chain at which the voting is complete, or that there is none. As long as the chain is short enough for its height to fit into 32 bits, a further block can be added. A detector that is started on this chain knows the same height if two conditions hold: the chain is empty or its last block has the version before the voted one, and the first height with a complete vote, if there is one, is at most the maximal upgrade distance below the top, since only these heights are searched.\<close>

theorem voting_history_independent:
  assumes "(detector_step c)\<^sup>*\<^sup>* ([], \<lparr>m_targetVersion = tv, m_votingCompleteHeight = UNDEF_HEIGHT\<rparr>) (chain, d)"
    and "upgradeHeight c tv = UNDEF_HEIGHT" and "hourly_message c"
  shows "d = \<lparr>m_targetVersion = tv, m_votingCompleteHeight = first_complete c tv chain\<rparr> \<and>
    (length chain + 1 < 2 ^ 32 - 1 \<longrightarrow> (\<exists>d'. detector_step c (chain, d) (chain @ [b], d'))) \<and>
    (length chain \<le> unat (first_complete c tv chain) + unat (maxUpgradeDistance c) + 1 \<and>
     (chain = [] \<or> int (unat (fst (last chain))) = int (unat tv) - 1) \<longrightarrow>
     detector_init c chain \<lparr>m_targetVersion = tv, m_votingCompleteHeight = h\<rparr> = Some (True, d))"
proof (intro conjI impI)
  let ?d = "\<lparr>m_targetVersion = tv, m_votingCompleteHeight = UNDEF_HEIGHT\<rparr>"
  have "voting_inv c ([], ?d)" by (simp add: voting_inv_def first_complete_def)
  then have inv: "voting_inv c (chain, d)" "m_targetVersion d = tv" using detector_steps_inv [OF assms(1)] assms(2,3) by auto
  then show d: "d = \<lparr>m_targetVersion = tv, m_votingCompleteHeight = first_complete c tv chain\<rparr>"
    by (cases d) (simp add: voting_inv_def)
  show "\<exists>d'. detector_step c (chain, d) (chain @ [b], d')" if "length chain + 1 < 2 ^ 32 - 1"
    using blockPushed_voting [OF inv(1) _ that, of b] inv(2) assms(2,3) detector_step.push [OF that] by blast
  show "detector_init c chain \<lparr>m_targetVersion = tv, m_votingCompleteHeight = h\<rparr> = Some (True, d)"
    if "length chain \<le> unat (first_complete c tv chain) + unat (maxUpgradeDistance c) + 1 \<and>
      (chain = [] \<or> int (unat (fst (last chain))) = int (unat tv) - 1)"
    using detector_init_voting [of c "\<lparr>m_targetVersion = tv, m_votingCompleteHeight = h\<rparr>" chain] inv that assms(2) d
    by (auto simp: voting_inv_def)
qed

definition voting_currency :: Currency where
  "voting_currency = mainnet\<lparr>m_upgradeVotingWindow := 2\<rparr>"

text \<open>With a window of two blocks, the second vote completes the voting.\<close>

lemma voting_history_independent_witness:
  "first_complete voting_currency 6 [(5, 1), (5, 1)] = 1 \<and>
   detector_init voting_currency [(5, 1), (5, 1)] \<lparr>m_targetVersion = 6, m_votingCompleteHeight = 0\<rparr> =
     Some (True, \<lparr>m_targetVersion = 6, m_votingCompleteHeight = 1\<rparr>)"
proof -
  let ?c = voting_currency and ?d = "\<lparr>m_targetVersion = 6, m_votingCompleteHeight = UNDEF_HEIGHT\<rparr>"
  have undef: "upgradeHeight ?c 6 = UNDEF_HEIGHT" by (simp add: upgradeHeight_def UNDEF_HEIGHT_def block_versions)
  have hourly: "hourly_message ?c"
    by (simp add: hourly_message_def voting_currency_def mainnet_def DIFFICULTY_TARGET_def)
  have len: "m_upgradeVotingWindow ?c = 2" "m_upgradeVotingThreshold ?c = 90"
    by (simp_all add: voting_currency_def mainnet_def UPGRADE_VOTING_THRESHOLD_def)
  have 1: "blockPushed ?c ([] @ [(5, 1)]) ?d = Some ?d"
    by (simp add: blockPushed_def undef isVotingComplete_def getNumberOfVotes_def len)
  have 2: "blockPushed ?c ([(5, 1)] @ [(5, 1)]) ?d = Some \<lparr>m_targetVersion = 6, m_votingCompleteHeight = 1\<rparr>"
    by (simp add: blockPushed_def undef isVotingComplete_def getNumberOfVotes_def len is_vote_def BLOCK_MINOR_VERSION_1_def)
  have steps: "(detector_step ?c)\<^sup>*\<^sup>* ([], ?d) ([(5, 1), (5, 1)], \<lparr>m_targetVersion = 6, m_votingCompleteHeight = 1\<rparr>)"
    using detector_step.push [OF _ 1] detector_step.push [OF _ 2] by (simp add: r_into_rtranclp rtranclp.rtrancl_into_rtrancl)
  have "2 \<le> unat (maxUpgradeDistance ?c) + 1"
    by (simp add: maxUpgradeDistance_def voting_currency_def mainnet_def UPGRADE_WINDOW_def
        EXPECTED_NUMBER_OF_BLOCKS_PER_DAY_def DIFFICULTY_TARGET_def)
  then show ?thesis using voting_history_independent [OF steps undef hourly, of undefined 0] by simp
qed

end
