(* ===== verification/Checkpoints.thy ===== *)
theory Checkpoints
  imports Currency_Text
begin

text \<open>
  The table of trusted block hashes, \<^verbatim>\<open>src/mevacoin_core/checkpoints.cpp\<close>.  The \<open>std::map\<close> of the class is a
  list of pairs in the order of the indices.  A file is given by its content, or \<open>None\<close> when it cannot be
  opened; log messages are left out.
\<close>

section \<open>Ordered maps\<close>

text \<open>\<open>std::map::insert\<close> keeps the value of a key that is present and returns whether it inserted.\<close>

fun map_insert :: "'k::linorder \<Rightarrow> 'v \<Rightarrow> ('k \<times> 'v) list \<Rightarrow> bool \<times> ('k \<times> 'v) list" where
  "map_insert k v [] = (True, [(k, v)])"
| "map_insert k v ((k', v') # ps) =
     (if k < k' then (True, (k, v) # (k', v') # ps)
      else if k = k' then (False, (k', v') # ps)
      else let (inserted, ps') = map_insert k v ps in (inserted, (k', v') # ps'))"

abbreviation ordered :: "('k::linorder \<times> 'v) list \<Rightarrow> bool" where
  "ordered ps \<equiv> sorted_wrt (<) (map fst ps)"

section \<open>Checkpoints\<close>

type_synonym checkpoints = "(u32 \<times> bytes) list"

definition addCheckpoint :: "u32 \<Rightarrow> string \<Rightarrow> checkpoints \<Rightarrow> bool \<times> checkpoints" where
  "addCheckpoint index hash_str points =
     (case podFromHex 32 hash_str of
        None \<Rightarrow> (False, points)
      | Some h \<Rightarrow> map_insert index h points)"

definition isInCheckpointZone :: "checkpoints \<Rightarrow> u32 \<Rightarrow> bool" where
  "isInCheckpointZone points index \<longleftrightarrow> points \<noteq> [] \<and> index \<le> fst (last points)"

text \<open>The result and whether the index has a checkpoint.\<close>

definition checkBlock :: "checkpoints \<Rightarrow> u32 \<Rightarrow> bytes \<Rightarrow> bool \<times> bool" where
  "checkBlock points index h =
     (case map_of points index of
        None \<Rightarrow> (True, False)
      | Some h' \<Rightarrow> (h' = h, True))"

section \<open>Checkpoint files\<close>

text \<open>\<open>std::stoull\<close>: white space, a sign and decimal digits; the rest of the text is ignored.\<close>

datatype stoull_error = Out_Of_Range | Invalid_Argument

definition is_space :: "char \<Rightarrow> bool" where
  "is_space ch \<longleftrightarrow> (let n = of_char ch :: nat in n = 32 \<or> 9 \<le> n \<and> n \<le> 13)"

definition stoull :: "string \<Rightarrow> stoull_error + u64" where
  "stoull s =
     (let s = dropWhile is_space s;
          (negative, s) = (case s of
              [] \<Rightarrow> (False, [])
            | ch # t \<Rightarrow> if ch = CHR ''-'' then (True, t) else if ch = CHR ''+'' then (False, t) else (False, s));
          ds = takeWhile is_digit s;
          v = digits_value ds
      in if ds = [] then Inl Invalid_Argument
         else if 2 ^ 64 \<le> v then Inl Out_Of_Range
         else Inr (if negative then - of_nat v else of_nat v))"

text \<open>
  One test of the loop: \<open>getline\<close> up to a comma and \<open>getline\<close> up to the end of the line.  The second one fails
  when the first one met the end of the file, and when nothing follows the comma.
\<close>

definition next_entry :: "string \<Rightarrow> (string \<times> string \<times> string) option" where
  "next_entry file =
     (let rest = dropWhile (\<lambda>ch. ch \<noteq> CHR '','') file
      in case rest of
           [] \<Rightarrow> None
         | _ # rest \<Rightarrow>
             if rest = [] then None
             else Some (takeWhile (\<lambda>ch. ch \<noteq> CHR '','') file, takeWhile (\<lambda>ch. ch \<noteq> CHR 0x0A) rest,
                    drop 1 (dropWhile (\<lambda>ch. ch \<noteq> CHR 0x0A) rest)))"

text \<open>
  The loop.  The variable \<open>index\<close> has no value before the first number was read; an index out of range leaves
  it as it is.  Its use without a value gives \<open>None\<close>.  The call of \<open>addCheckpoint\<close> keeps the low 32 bits.
\<close>

function load_entries :: "string \<Rightarrow> u64 option \<Rightarrow> checkpoints \<Rightarrow> (bool \<times> checkpoints) option" where
  "load_entries file index points =
     (case next_entry file of
        None \<Rightarrow> Some (True, points)
      | Some (indexString, hash, file') \<Rightarrow>
          if stoull indexString = Inl Invalid_Argument then Some (False, points)
          else (case (case stoull indexString of Inl _ \<Rightarrow> index | Inr i \<Rightarrow> Some i) of
                  None \<Rightarrow> None
                | Some i \<Rightarrow>
                    (case addCheckpoint (ucast i) hash points of
                       (False, points') \<Rightarrow> Some (False, points')
                     | (True, points') \<Rightarrow> load_entries file' (Some i) points')))"
  by pat_completeness auto

lemma next_entry_shorter: "next_entry file = Some (s, h, file') \<Longrightarrow> length file' < length file"
proof -
  assume entry: "next_entry file = Some (s, h, file')"
  then obtain ch rest where rest: "dropWhile (\<lambda>ch. ch \<noteq> CHR '','') file = ch # rest"
    and file': "file' = drop 1 (dropWhile (\<lambda>ch. ch \<noteq> CHR 0x0A) rest)"
    by (auto simp: next_entry_def Let_def split: list.splits if_splits)
  have "length (ch # rest) \<le> length file" using length_dropWhile_le rest by metis
  moreover have "length file' \<le> length rest" unfolding file' length_drop
    by (rule le_trans [OF diff_le_self length_dropWhile_le])
  ultimately show ?thesis by simp
qed

termination load_entries
  by (relation "measure (\<lambda>(file, _, _). length file)") (auto dest: next_entry_shorter)

declare load_entries.simps [simp del]

definition loadCheckpointsFromFile :: "string option \<Rightarrow> checkpoints \<Rightarrow> (bool \<times> checkpoints) option" where
  "loadCheckpointsFromFile content points =
     (case content of
        None \<Rightarrow> Some (False, points)
      | Some file \<Rightarrow> load_entries file None points)"

section \<open>The table\<close>

lemma map_insert_lookup:
  "ordered ps \<Longrightarrow> fst (map_insert k v ps) = (map_of ps k = None) \<and>
     map_of (snd (map_insert k v ps)) = (if map_of ps k = None then (map_of ps)(k \<mapsto> v) else map_of ps)"
proof (induction ps)
  case (Cons p ps)
  have "map_of ps k = None" if "k < fst p" using that Cons.prems by (force simp: map_of_eq_None_iff)
  with Cons show ?case by (cases p) (auto simp: split_def Let_def fun_eq_iff)
qed auto

lemma keys_map_insert: "fst ` set (snd (map_insert k v ps)) = insert k (fst ` set ps)"
  by (induction k v ps rule: map_insert.induct) (auto simp: split_def Let_def)

lemma ordered_map_insert: "ordered ps \<Longrightarrow> ordered (snd (map_insert k v ps))"
proof (induction k v ps rule: map_insert.induct)
  case (2 k v k' v' ps)
  then show ?case using keys_map_insert [of k v ps] by (auto simp: split_def Let_def)
qed simp

lemma last_ordered: "ordered ps \<Longrightarrow> ps \<noteq> [] \<Longrightarrow> k \<in> fst ` set ps \<Longrightarrow> k \<le> fst (last ps)"
  by (induction ps) (auto simp: less_imp_le)

lemma isInCheckpointZone_iff:
  "ordered points \<Longrightarrow> isInCheckpointZone points i \<longleftrightarrow> (\<exists>j \<in> dom (map_of points). i \<le> j)"
  using last_ordered [of points] last_in_set [of points]
  by (cases "points = []") (auto simp: isInCheckpointZone_def dom_map_of_conv_image_fst intro: order_trans)

lemma addCheckpoint_ordered: "ordered points \<Longrightarrow> ordered (snd (addCheckpoint index hash_str points))"
  by (simp add: addCheckpoint_def ordered_map_insert split: option.split)

lemma addCheckpoint_lookup:
  assumes "ordered points"
    and "addCheckpoint index hash_str points = (ok, points')"
  shows "(ok \<longleftrightarrow> podFromHex 32 hash_str \<noteq> None \<and> index \<notin> dom (map_of points)) \<and>
    map_of points' = (if ok then (map_of points)(index := podFromHex 32 hash_str) else map_of points)"
proof (cases "podFromHex 32 hash_str")
  case (Some h)
  then show ?thesis using map_insert_lookup [OF assms(1), of index h] assms(2) by (simp add: addCheckpoint_def domIff)
qed (use assms(2) in \<open>simp add: addCheckpoint_def\<close>)

text \<open>C29: The table implements a partial function from indices to hashes: a checkpoint is added exactly when its text is a hash and its index is new, nothing else changes, an index is in the checkpoint zone exactly when it is not above every checkpoint, and a block passes unless its index has another hash.\<close>

theorem checkpoints_refine_map:
  assumes "ordered points" "addCheckpoint index hash_str points = (ok, points')"
  shows "ordered points' \<and>
    (ok \<longleftrightarrow> podFromHex 32 hash_str \<noteq> None \<and> index \<notin> dom (map_of points)) \<and>
    map_of points' = (if ok then (map_of points)(index := podFromHex 32 hash_str) else map_of points) \<and>
    (isInCheckpointZone points' i \<longleftrightarrow> (\<exists>j \<in> dom (map_of points'). i \<le> j)) \<and>
    (checkBlock points' i h = (i \<in> dom (map_of points') \<longrightarrow> map_of points' i = Some h, i \<in> dom (map_of points')))"
proof -
  have "ordered points'" using addCheckpoint_ordered [OF assms(1), of index hash_str] assms(2) by simp
  then show ?thesis using addCheckpoint_lookup [OF assms] isInCheckpointZone_iff [of points' i]
    by (auto simp: checkBlock_def split: option.split)
qed

lemma checkpoints_refine_map_witness:
  "ordered [] \<and> addCheckpoint 100 (toHex (replicate 32 7)) [] = (True, [(100, replicate 32 7)]) \<and>
   isInCheckpointZone [(100, replicate 32 7)] 99"
proof -
  have hex: "podFromHex 32 (toHex (replicate 32 7)) = Some (replicate 32 7)"
    using podFromHex_toHex [of "replicate 32 7"] by simp
  have add: "addCheckpoint 100 (toHex (replicate 32 7)) [] = (True, [(100, replicate 32 7)])"
    by (simp add: addCheckpoint_def hex)
  from checkpoints_refine_map [OF _ add, of 99 "[]"] add show ?thesis by simp
qed

section \<open>Loading a file\<close>

definition print_entry :: "u32 \<times> bytes \<Rightarrow> string" where
  "print_entry p = to_string (unat (fst p)) @ '','' @ toHex (snd p) @ [CHR 0x0A]"

lemma takeWhile_dropWhile_stop:
  "\<forall>x \<in> set xs. x \<noteq> c \<Longrightarrow> takeWhile (\<lambda>x. x \<noteq> c) (xs @ c # ys) = xs \<and> dropWhile (\<lambda>x. x \<noteq> c) (xs @ c # ys) = c # ys"
  by (induction xs) auto

lemma toHex_no_newline: "\<forall>x \<in> set (toHex bs). x \<noteq> CHR 0x0A"
proof -
  have "hex_digits ! n \<noteq> CHR 0x0A" if "n < 16" for n
    using that nth_mem [of n hex_digits] by (auto simp: hex_digits_def)
  then show ?thesis using nibbles by (auto simp: toHex_def)
qed

lemma to_string_no_comma: "\<forall>x \<in> set (to_string n). x \<noteq> CHR '',''"
  using to_string_digits [of n] by (auto simp: is_digit_def)

lemma next_entry_print: "next_entry (print_entry p @ file) = Some (to_string (unat (fst p)), toHex (snd p), file)"
  using takeWhile_dropWhile_stop [OF to_string_no_comma [of "unat (fst p)"], where ys = "toHex (snd p) @ CHR 0x0A # file"]
    takeWhile_dropWhile_stop [OF toHex_no_newline [of "snd p"], where ys = "file"]
  by (simp add: next_entry_def print_entry_def)

lemma stoull_to_string:
  assumes "n < 2 ^ 64"
  shows "stoull (to_string n) = Inr (of_nat n)"
proof -
  have facts: "list_all is_digit (to_string n)" "digits_value (to_string n) = n" "to_string n \<noteq> []"
    using to_string_facts [of n] by auto
  then obtain d ds where ds: "to_string n = d # ds" "is_digit d" by (cases "to_string n") auto
  have "\<not> is_space d" "d \<noteq> CHR ''-''" "d \<noteq> CHR ''+''" using ds(2) by (auto simp: is_digit_def is_space_def Let_def)
  moreover have "takeWhile is_digit (d # ds) = d # ds" using facts(1) unfolding ds(1) by (simp add: list_all_iff takeWhile_eq_all_conv)
  ultimately show ?thesis using facts(2) assms unfolding ds(1) by (simp add: stoull_def Let_def)
qed

lemma ucast_u32_u64: "ucast (ucast (i :: u32) :: u64) = i"
  by (rule bit_word_eqI) (auto simp: bit_simps)

lemma load_entries_print:
  assumes "distinct (map fst ps)" "\<forall>p \<in> set ps. length (snd p) = 32 \<and> fst p \<notin> dom (map_of points)" "ordered points"
  shows "\<exists>pts. load_entries (concat (map print_entry ps)) idx points = Some (True, pts) \<and> ordered pts \<and>
    map_of pts = map_of points ++ map_of ps"
  using assms
proof (induction ps arbitrary: idx points)
  case Nil
  have "next_entry [] = None" by (simp add: next_entry_def)
  with Nil show ?case by (simp add: load_entries.simps [of "[]"])
next
  case (Cons p ps)
  obtain ok points' where add: "addCheckpoint (fst p) (toHex (snd p)) points = (ok, points')" by fastforce
  have "podFromHex 32 (toHex (snd p)) = Some (snd p)" using podFromHex_toHex [of "snd p"] Cons.prems(2) by simp
  then have points': "ok" "map_of points' = (map_of points)(fst p \<mapsto> snd p)" "ordered points'"
    using addCheckpoint_lookup [OF Cons.prems(3) add] addCheckpoint_ordered [OF Cons.prems(3), of "fst p" "toHex (snd p)"]
      Cons.prems(2) add by auto
  have "\<exists>pts. load_entries (concat (map print_entry ps)) (Some (of_nat (unat (fst p)))) points' = Some (True, pts) \<and> ordered pts \<and>
      map_of pts = map_of points' ++ map_of ps"
  proof (rule Cons.IH)
    have "fst q \<noteq> fst p" if "q \<in> set ps" for q using that Cons.prems(1) by (auto intro: rev_image_eqI)
    then show "\<forall>q \<in> set ps. length (snd q) = 32 \<and> fst q \<notin> dom (map_of points')"
      using Cons.prems(2) by (simp add: points'(2))
  qed (use Cons.prems(1) points'(3) in simp_all)
  moreover have "load_entries (concat (map print_entry (p # ps))) idx points =
      load_entries (concat (map print_entry ps)) (Some (of_nat (unat (fst p)))) points'"
    using add points'(1) unsigned_less [of "fst p", where ?'a = nat]
    by (subst load_entries.simps) (simp add: next_entry_print stoull_to_string ucast_u32_u64)
  moreover have "map_of points' ++ map_of ps = map_of points ++ map_of (p # ps)"
  proof -
    have "map_of ps (fst p) = None" using Cons.prems(1) by (simp add: map_of_eq_None_iff)
    then show ?thesis by (cases p) (auto simp: points'(2) map_add_def split: option.split)
  qed
  ultimately show ?case by (simp only:)
qed

text \<open>A file with distinct indices and hashes of 32 bytes loads completely, in whatever order the entries are written, and gives the table of exactly these checkpoints.\<close>

theorem load_printed_checkpoints:
  assumes "distinct (map fst ps)" "\<forall>p \<in> set ps. length (snd p) = 32"
  shows "\<exists>points. loadCheckpointsFromFile (Some (concat (map print_entry ps))) [] = Some (True, points) \<and>
    (\<forall>i h. checkBlock points i h = (case map_of ps i of None \<Rightarrow> (True, False) | Some h' \<Rightarrow> (h' = h, True))) \<and>
    (\<forall>i. isInCheckpointZone points i \<longleftrightarrow> (\<exists>p \<in> set ps. i \<le> fst p))"
proof -
  obtain points where points: "load_entries (concat (map print_entry ps)) None [] = Some (True, points)"
    "ordered points" "map_of points = map_of ps"
    using load_entries_print [of ps "[]" None] assms by auto
  have "isInCheckpointZone points i \<longleftrightarrow> (\<exists>p \<in> set ps. i \<le> fst p)" for i
    by (simp add: isInCheckpointZone_iff [OF points(2)] points(3) dom_map_of_conv_image_fst)
  then show ?thesis using points by (simp add: loadCheckpointsFromFile_def checkBlock_def)
qed

lemma load_printed_checkpoints_witness:
  "distinct (map fst [(9 :: u32, replicate 32 1), (5, replicate 32 (2 :: u8))]) \<and>
   (\<exists>points. loadCheckpointsFromFile (Some (concat (map print_entry [(9, replicate 32 1), (5, replicate 32 2)]))) [] = Some (True, points) \<and>
     checkBlock points 5 (replicate 32 1) = (False, True) \<and> isInCheckpointZone points 7)"
  using load_printed_checkpoints [of "[(9, replicate 32 1), (5, replicate 32 2)]"]
  by (auto simp: word_le_nat_alt)

lemma load_entries_defined: "load_entries file (Some i) points \<noteq> None"
proof (induction "file" "Some i" points arbitrary: i rule: load_entries.induct)
  case (1 "file" points)
  show ?case
  proof (cases "next_entry file")
    case None
    then show ?thesis by (simp add: load_entries.simps [of "file"])
  next
    case (Some e)
    then show ?thesis using 1 by (cases e) (auto simp: load_entries.simps [of "file"] split: sum.split prod.split bool.split)
  qed
qed

text \<open>Loading a file uses the index without a value exactly when the first number of the file is out of range; such a file is not refused.\<close>

theorem load_undefined_iff:
  "loadCheckpointsFromFile (Some file) points = None \<longleftrightarrow>
   (\<exists>indexString hash file'. next_entry file = Some (indexString, hash, file') \<and> stoull indexString = Inl Out_Of_Range)"
proof (cases "next_entry file")
  case None
  then show ?thesis by (simp add: loadCheckpointsFromFile_def load_entries.simps [of "file"])
next
  case (Some e)
  obtain s h file' where e: "e = (s, h, file')" by (cases e)
  show ?thesis
  proof (cases "stoull s")
    case (Inl err)
    then show ?thesis using Some e by (cases err) (simp_all add: loadCheckpointsFromFile_def load_entries.simps [of "file"])
  next
    case (Inr i)
    then show ?thesis using Some e load_entries_defined
      by (auto simp: loadCheckpointsFromFile_def load_entries.simps [of "file"] split: prod.split bool.split)
  qed
qed

lemma load_undefined_example: "loadCheckpointsFromFile (Some ''18446744073709551616,0'') [] = None"
proof -
  have "next_entry ''18446744073709551616,0'' = Some (''18446744073709551616'', ''0'', [])" by (simp add: next_entry_def)
  moreover have "stoull ''18446744073709551616'' = Inl Out_Of_Range"
    by (simp add: stoull_def is_space_def is_digit_def digits_value_def digit_value_def)
  ultimately show ?thesis
    by (simp add: loadCheckpointsFromFile_def load_entries.simps [of "''18446744073709551616,0''"])
qed

end
