(* ===== verification/Cached_Tx.thy ===== *)
theory Cached_Tx
  imports Amounts Blocks
begin

text \<open>
  Transactions that compute their byte array, hashes and fee when these are first asked for and keep them,
  \<^verbatim>\<open>src/mevacoin_core/cached_transaction.cpp\<close>.  The mutable members make every getter return the object as well.
  The function \<open>cn_fast_hash\<close> is a parameter.
\<close>

section \<open>Cached transactions\<close>

record CachedTransaction =
  transaction :: Transaction
  transactionBinaryArray :: "bytes option"
  transactionHash :: "bytes option"
  transactionPrefixHash :: "bytes option"
  transactionFee :: "u64 option"

definition CachedTransaction_of :: "Transaction \<Rightarrow> CachedTransaction" where
  "CachedTransaction_of tx = \<lparr>transaction = tx, transactionBinaryArray = None, transactionHash = None,
     transactionPrefixHash = None, transactionFee = None\<rparr>"

definition CachedTransaction_read :: "bytes \<Rightarrow> ser_error + CachedTransaction" where
  "CachedTransaction_read ba =
     bind_e (fromBinaryArray read_Transaction ba) (\<lambda>tx.
       Inr ((CachedTransaction_of tx)\<lparr>transactionBinaryArray := Some ba\<rparr>))"

definition getTransactionBinaryArray :: "CachedTransaction \<Rightarrow> ser_error + (bytes \<times> CachedTransaction)" where
  "getTransactionBinaryArray ct =
     (case transactionBinaryArray ct of
        Some ba \<Rightarrow> Inr (ba, ct)
      | None \<Rightarrow> bind_e (write_Transaction (transaction ct)) (\<lambda>ba. Inr (ba, ct\<lparr>transactionBinaryArray := Some ba\<rparr>)))"

definition getTransactionHash :: "(bytes \<Rightarrow> bytes) \<Rightarrow> CachedTransaction \<Rightarrow> ser_error + (bytes \<times> CachedTransaction)" where
  "getTransactionHash cn ct =
     (case transactionHash ct of
        Some h \<Rightarrow> Inr (h, ct)
      | None \<Rightarrow> bind_e (getTransactionBinaryArray ct) (\<lambda>(ba, ct). Inr (cn ba, ct\<lparr>transactionHash := Some (cn ba)\<rparr>)))"

text \<open>The bytes of a prefix are always defined.\<close>

definition getTransactionPrefixHash :: "(bytes \<Rightarrow> bytes) \<Rightarrow> CachedTransaction \<Rightarrow> bytes \<times> CachedTransaction" where
  "getTransactionPrefixHash cn ct =
     (case transactionPrefixHash ct of
        Some h \<Rightarrow> (h, ct)
      | None \<Rightarrow> let h = cn (write_TransactionPrefix (transaction ct)) in (h, ct\<lparr>transactionPrefixHash := Some h\<rparr>))"

text \<open>The loop over the inputs: \<open>None\<close> when it returns zero because of a base input.\<close>

fun sum_key_inputs :: "u64 \<Rightarrow> TransactionInput list \<Rightarrow> u64 option" where
  "sum_key_inputs amount [] = Some amount"
| "sum_key_inputs amount (KeyInput a _ _ # ins) = sum_key_inputs (amount + a) ins"
| "sum_key_inputs amount (BaseInput _ # ins) = None"

definition getTransactionFee :: "CachedTransaction \<Rightarrow> u64 \<times> CachedTransaction" where
  "getTransactionFee ct =
     (case transactionFee ct of
        Some fee \<Rightarrow> (fee, ct)
      | None \<Rightarrow>
          let summaryOutputAmount = foldl (\<lambda>amount out. amount + out_amount out) 0 (outputs (transaction ct))
          in case sum_key_inputs 0 (inputs (transaction ct)) of
               None \<Rightarrow> (0, ct)
             | Some summaryInputAmount \<Rightarrow>
                 let fee = summaryInputAmount - summaryOutputAmount in (fee, ct\<lparr>transactionFee := Some fee\<rparr>))"

section \<open>The caches are transparent\<close>

text \<open>What the getters mean for the transaction alone.\<close>

definition tx_fee :: "Transaction \<Rightarrow> u64" where
  "tx_fee tx = (if list_ex is_BaseInput (inputs tx) then 0
                else sum_list (map in_amount (inputs tx)) - sum_list (map out_amount (outputs tx)))"

definition cache_ok :: "(bytes \<Rightarrow> bytes) \<Rightarrow> CachedTransaction \<Rightarrow> bool" where
  "cache_ok cn ct \<longleftrightarrow>
     (\<forall>ba. transactionBinaryArray ct = Some ba \<longrightarrow> write_Transaction (transaction ct) = Inr ba) \<and>
     (\<forall>h. transactionHash ct = Some h \<longrightarrow> map_sum id cn (write_Transaction (transaction ct)) = Inr h) \<and>
     (\<forall>h. transactionPrefixHash ct = Some h \<longrightarrow> h = cn (write_TransactionPrefix (transaction ct))) \<and>
     (\<forall>fee. transactionFee ct = Some fee \<longrightarrow> fee = tx_fee (transaction ct))"

lemma cache_ok_new: "cache_ok cn (CachedTransaction_of tx)"
  by (simp add: cache_ok_def CachedTransaction_of_def)

lemma cache_ok_read: "CachedTransaction_read ba = Inr ct \<Longrightarrow> cache_ok cn ct \<and> valid_Transaction (transaction ct)"
  by (auto simp: CachedTransaction_read_def bind_e_def cache_ok_def CachedTransaction_of_def fromBinaryArray_Transaction
      split: sum.splits)

lemma getTransactionBinaryArray_ok:
  assumes "cache_ok cn ct"
  shows "case getTransactionBinaryArray ct of
      Inl e \<Rightarrow> write_Transaction (transaction ct) = Inl e
    | Inr (ba, ct') \<Rightarrow> write_Transaction (transaction ct) = Inr ba \<and> cache_ok cn ct' \<and> transaction ct' = transaction ct \<and>
        transactionBinaryArray ct' = Some ba"
  using assms by (auto simp: getTransactionBinaryArray_def cache_ok_def bind_e_def split: option.split sum.split)

lemma getTransactionHash_ok:
  assumes "cache_ok cn ct"
  shows "case getTransactionHash cn ct of
      Inl e \<Rightarrow> write_Transaction (transaction ct) = Inl e
    | Inr (h, ct') \<Rightarrow> map_sum id cn (write_Transaction (transaction ct)) = Inr h \<and> cache_ok cn ct' \<and>
        transaction ct' = transaction ct \<and> transactionHash ct' = Some h"
  using assms getTransactionBinaryArray_ok [OF assms]
  by (auto simp: getTransactionHash_def bind_e_def cache_ok_def split: option.split sum.splits)

lemma getTransactionPrefixHash_ok:
  "cache_ok cn ct \<Longrightarrow> fst (getTransactionPrefixHash cn ct) = cn (write_TransactionPrefix (transaction ct)) \<and>
     cache_ok cn (snd (getTransactionPrefixHash cn ct)) \<and> transaction (snd (getTransactionPrefixHash cn ct)) = transaction ct"
  by (auto simp: getTransactionPrefixHash_def cache_ok_def Let_def split: option.split)

lemma foldl_out_amounts: "foldl (\<lambda>amount out. amount + out_amount out) a outs = a + sum_list (map out_amount outs)"
  by (induction outs arbitrary: a) (simp_all add: add.assoc)

lemma sum_key_inputs_eq:
  "sum_key_inputs a ins = (if list_ex is_BaseInput ins then None else Some (a + sum_list (map in_amount ins)))"
  by (induction a ins rule: sum_key_inputs.induct) (simp_all add: add.assoc)

lemma getTransactionFee_ok:
  "cache_ok cn ct \<Longrightarrow> fst (getTransactionFee ct) = tx_fee (transaction ct) \<and>
     cache_ok cn (snd (getTransactionFee ct)) \<and> transaction (snd (getTransactionFee ct)) = transaction ct"
  by (auto simp: getTransactionFee_def cache_ok_def Let_def tx_fee_def sum_key_inputs_eq foldl_out_amounts
      split: option.split)

text \<open>The getters may be called in any order.\<close>

inductive getter_call :: "(bytes \<Rightarrow> bytes) \<Rightarrow> CachedTransaction \<Rightarrow> CachedTransaction \<Rightarrow> bool" for cn where
  array: "getTransactionBinaryArray ct = Inr (ba, ct') \<Longrightarrow> getter_call cn ct ct'"
| hash: "getTransactionHash cn ct = Inr (h, ct') \<Longrightarrow> getter_call cn ct ct'"
| prefix_hash: "getTransactionPrefixHash cn ct = (h, ct') \<Longrightarrow> getter_call cn ct ct'"
| fee: "getTransactionFee ct = (f, ct') \<Longrightarrow> getter_call cn ct ct'"

lemma getter_call_ok: "getter_call cn ct ct' \<Longrightarrow> cache_ok cn ct \<Longrightarrow> cache_ok cn ct' \<and> transaction ct' = transaction ct"
proof (induction rule: getter_call.induct)
  case (array ct ba ct')
  then show ?case using getTransactionBinaryArray_ok [of cn ct] by simp
next
  case (hash ct h ct')
  then show ?case using getTransactionHash_ok [of cn ct] by simp
next
  case (prefix_hash ct h ct')
  then show ?case using getTransactionPrefixHash_ok [of cn ct] by simp
next
  case (fee ct f ct')
  then show ?case using getTransactionFee_ok [of cn ct] by simp
qed

lemma getter_calls_ok:
  "(getter_call cn)\<^sup>*\<^sup>* ct ct' \<Longrightarrow> cache_ok cn ct \<Longrightarrow> cache_ok cn ct' \<and> transaction ct' = transaction ct"
  by (induction rule: rtranclp_induct) (use getter_call_ok in auto)

lemma getters_eq:
  assumes "cache_ok cn ct" "write_Transaction (transaction ct) = Inr ba"
  shows "map_sum id fst (getTransactionBinaryArray ct) = Inr ba" "map_sum id fst (getTransactionHash cn ct) = Inr (cn ba)"
    "fst (getTransactionPrefixHash cn ct) = cn (write_TransactionPrefix (transaction ct))"
    "fst (getTransactionFee ct) = tx_fee (transaction ct)"
  using getTransactionBinaryArray_ok [OF assms(1)] getTransactionHash_ok [OF assms(1)]
    getTransactionPrefixHash_ok [OF assms(1)] getTransactionFee_ok [OF assms(1)] assms(2)
  by (auto split: sum.splits)

text \<open>The caches cannot be observed: a transaction read from bytes and one built from the same data answer every getter alike, in whatever order the getters are called; the array is the one that was read, the hashes are those of the array and of the prefix, and the fee is the difference of the amounts, or zero for a base transaction.\<close>

theorem cached_transaction_transparent:
  assumes "CachedTransaction_read ba = Inr ct"
    and "ct0 = ct \<or> ct0 = CachedTransaction_of (transaction ct)" and "(getter_call cn)\<^sup>*\<^sup>* ct0 ct'"
  shows "map_sum id fst (getTransactionBinaryArray ct') = Inr ba \<and>
    map_sum id fst (getTransactionHash cn ct') = Inr (cn ba) \<and>
    fst (getTransactionPrefixHash cn ct') = cn (write_TransactionPrefix (transaction ct)) \<and>
    fst (getTransactionFee ct') = tx_fee (transaction ct)"
proof -
  have bytes: "write_Transaction (transaction ct) = Inr ba"
    using assms(1) by (auto simp: CachedTransaction_read_def bind_e_def CachedTransaction_of_def fromBinaryArray_Transaction
        split: sum.splits)
  have "cache_ok cn ct0" using assms(2) cache_ok_read [OF assms(1)] cache_ok_new by blast
  then have "cache_ok cn ct'" "transaction ct' = transaction ct"
    using getter_calls_ok [OF assms(3)] assms(2) by (auto simp: CachedTransaction_of_def)
  then show ?thesis using getters_eq [of cn ct' ba] bytes by simp
qed

lemma sample_tx_bytes: "write_Transaction sample_tx = Inr [1, 50, 1, 0xff, 10, 0, 0]" "valid_Transaction sample_tx"
  by (simp_all add: write_Transaction_def sample_tx_def write_TransactionPrefix_def writeContainer_def writeAsBinary_def
      write_TransactionInput_def input_tag_def write_int_def writeVarint_small valid_Transaction_def
      valid_TransactionPrefix_def valid_prefix_body_def valid_signatures_def single_base_input_def
      CURRENT_TRANSACTION_VERSION_def getSignaturesCount_def write_string_def)

lemma cached_transaction_transparent_witness:
  "\<exists>ct. CachedTransaction_read [1, 50, 1, 0xff, 10, 0, 0] = Inr ct \<and>
    map_sum id fst (getTransactionHash rev ct) = Inr [0, 0, 10, 0xff, 1, 50, 1] \<and> fst (getTransactionFee ct) = 0"
proof -
  let ?ct = "(CachedTransaction_of sample_tx)\<lparr>transactionBinaryArray := Some [1, 50, 1, 0xff, 10, 0, 0]\<rparr>"
  have read: "CachedTransaction_read [1, 50, 1, 0xff, 10, 0, 0] = Inr ?ct"
    using fromBinaryArray_Transaction [of "[1, 50, 1, 0xff, 10, 0, 0]" sample_tx] sample_tx_bytes
    by (simp add: CachedTransaction_read_def bind_e_def)
  from cached_transaction_transparent [OF read, of ?ct rev ?ct] read show ?thesis
    by (simp add: tx_fee_def sample_tx_def CachedTransaction_of_def)
qed

end
