(* ===== verification/Tx_Pool.thy ===== *)
theory Tx_Pool
  imports Complex_Main Cached_Tx Tx_Extra "HOL-Library.Product_Lexorder"
begin

text \<open>
  The pool of transactions that wait for a block, \<^verbatim>\<open>src/mevacoin_core/transaction_pool.cpp\<close>, and the sets of
  spent key images of \<^verbatim>\<open>src/mevacoin_core/transaction_validatior_state.cpp\<close>.  The container with three indices is
  one list in the order of the cost index; the other two indices are searches in it.
\<close>

section \<open>Spent key images\<close>

type_synonym TransactionValidatorState = "bytes set"

definition mergeStates :: "TransactionValidatorState \<Rightarrow> TransactionValidatorState \<Rightarrow> TransactionValidatorState" where
  "mergeStates destination source = destination \<union> source"

definition hasIntersections :: "TransactionValidatorState \<Rightarrow> TransactionValidatorState \<Rightarrow> bool" where
  "hasIntersections destination source \<longleftrightarrow> (\<exists>ki \<in> source. ki \<in> destination)"

definition exclude_input :: "TransactionValidatorState \<Rightarrow> TransactionInput \<Rightarrow> TransactionValidatorState" where
  "exclude_input state input = (case input of KeyInput _ _ ki \<Rightarrow> state - {ki} | BaseInput _ \<Rightarrow> state)"

definition excludeFromState :: "TransactionValidatorState \<Rightarrow> CachedTransaction \<Rightarrow> TransactionValidatorState" where
  "excludeFromState state ct = foldl exclude_input state (inputs (transaction ct))"

section \<open>The pool\<close>

record PendingTransactionInfo =
  receiveTime :: u64
  cachedTransaction :: CachedTransaction
  paymentId :: "bytes option"

record TransactionPool =
  poolState :: TransactionValidatorState
  transactions :: "PendingTransactionInfo list"

definition empty_pool :: TransactionPool where
  "empty_pool = \<lparr>poolState = {}, transactions = []\<rparr>"

text \<open>
  Hash and size of a stored transaction.  Adding a transaction computes its hash, so that a stored transaction
  has its byte array and the failing case does not occur.
\<close>

definition pending_hash :: "(bytes \<Rightarrow> bytes) \<Rightarrow> PendingTransactionInfo \<Rightarrow> bytes option" where
  "pending_hash cn p =
     (case getTransactionHash cn (cachedTransaction p) of Inl _ \<Rightarrow> None | Inr (h, _) \<Rightarrow> Some h)"

definition blob_size :: "PendingTransactionInfo \<Rightarrow> u64" where
  "blob_size p =
     (case getTransactionBinaryArray (cachedTransaction p) of Inl _ \<Rightarrow> 0 | Inr (ba, _) \<Rightarrow> of_nat (length ba))"

definition pending_fee :: "PendingTransactionInfo \<Rightarrow> u64" where
  "pending_fee p = fst (getTransactionFee (cachedTransaction p))"

definition TransactionPriorityComparator :: "PendingTransactionInfo \<Rightarrow> PendingTransactionInfo \<Rightarrow> bool" where
  "TransactionPriorityComparator lhs rhs \<longleftrightarrow>
     (let (lhs_hi, lhs_lo) = mul128 (pending_fee lhs) (blob_size rhs);
          (rhs_hi, rhs_lo) = mul128 (pending_fee rhs) (blob_size lhs)
      in rhs_hi < lhs_hi \<or>
         lhs_hi = rhs_hi \<and> rhs_lo < lhs_lo \<or>
         lhs_hi = rhs_hi \<and> lhs_lo = rhs_lo \<and> blob_size lhs < blob_size rhs \<or>
         lhs_hi = rhs_hi \<and> lhs_lo = rhs_lo \<and> blob_size lhs = blob_size rhs \<and> receiveTime lhs < receiveTime rhs)"

text \<open>An ordered index inserts behind the elements that are equivalent.\<close>

definition cost_insert :: "PendingTransactionInfo \<Rightarrow> PendingTransactionInfo list \<Rightarrow> PendingTransactionInfo list" where
  "cost_insert p ps =
     takeWhile (\<lambda>q. \<not> TransactionPriorityComparator p q) ps @ p #
     dropWhile (\<lambda>q. \<not> TransactionPriorityComparator p q) ps"

definition checkIfTransactionPresent :: "(bytes \<Rightarrow> bytes) \<Rightarrow> bytes \<Rightarrow> TransactionPool \<Rightarrow> bool" where
  "checkIfTransactionPresent cn h pool \<longleftrightarrow> (\<exists>p \<in> set (transactions pool). pending_hash cn p = Some h)"

definition pushTransaction ::
  "(bytes \<Rightarrow> bytes) \<Rightarrow> u64 \<Rightarrow> CachedTransaction \<Rightarrow> TransactionValidatorState \<Rightarrow> TransactionPool \<Rightarrow>
   ser_error + (bool \<times> TransactionPool)" where
  "pushTransaction cn now ct transactionState pool =
     (let pid = getPaymentIdFromTxExtra (extra (transaction ct))
      in bind_e (getTransactionHash cn ct) (\<lambda>(h, ct).
         if checkIfTransactionPresent cn h pool then Inr (False, pool)
         else if hasIntersections (poolState pool) transactionState then Inr (False, pool)
         else Inr (True, pool\<lparr>poolState := mergeStates (poolState pool) transactionState,
                transactions := cost_insert \<lparr>receiveTime = now, cachedTransaction = ct, paymentId = pid\<rparr> (transactions pool)\<rparr>)))"

definition find_hash :: "(bytes \<Rightarrow> bytes) \<Rightarrow> bytes \<Rightarrow> TransactionPool \<Rightarrow> PendingTransactionInfo option" where
  "find_hash cn h pool = find (\<lambda>p. pending_hash cn p = Some h) (transactions pool)"

text \<open>The getters of one transaction need a hash that is present.\<close>

definition getTransaction :: "(bytes \<Rightarrow> bytes) \<Rightarrow> bytes \<Rightarrow> TransactionPool \<Rightarrow> CachedTransaction option" where
  "getTransaction cn h pool = map_option cachedTransaction (find_hash cn h pool)"

definition getTransactionReceiveTime :: "(bytes \<Rightarrow> bytes) \<Rightarrow> bytes \<Rightarrow> TransactionPool \<Rightarrow> u64 option" where
  "getTransactionReceiveTime cn h pool = map_option receiveTime (find_hash cn h pool)"

definition removeTransaction :: "(bytes \<Rightarrow> bytes) \<Rightarrow> bytes \<Rightarrow> TransactionPool \<Rightarrow> bool \<times> TransactionPool" where
  "removeTransaction cn h pool =
     (case find_hash cn h pool of
        None \<Rightarrow> (False, pool)
      | Some p \<Rightarrow> (True, pool\<lparr>poolState := excludeFromState (poolState pool) (cachedTransaction p),
                     transactions := remove1 p (transactions pool)\<rparr>))"

definition getTransactionCount :: "TransactionPool \<Rightarrow> nat" where
  "getTransactionCount pool = length (transactions pool)"

definition getTransactionHashes :: "(bytes \<Rightarrow> bytes) \<Rightarrow> TransactionPool \<Rightarrow> bytes list" where
  "getTransactionHashes cn pool = List.map_filter (pending_hash cn) (transactions pool)"

definition getPoolTransactions :: "TransactionPool \<Rightarrow> CachedTransaction list" where
  "getPoolTransactions pool = map cachedTransaction (transactions pool)"

text \<open>The order within one payment id is not specified by the source; here it is that of the cost index.\<close>

definition getTransactionHashesByPaymentId :: "(bytes \<Rightarrow> bytes) \<Rightarrow> bytes \<Rightarrow> TransactionPool \<Rightarrow> bytes list" where
  "getTransactionHashesByPaymentId cn pid pool =
     List.map_filter (pending_hash cn) (filter (\<lambda>p. paymentId p = Some pid) (transactions pool))"

definition flush :: "(bytes \<Rightarrow> bytes) \<Rightarrow> TransactionPool \<Rightarrow> TransactionPool" where
  "flush cn pool = foldl (\<lambda>pool h. snd (removeTransaction cn h pool)) pool (getTransactionHashes cn pool)"

section \<open>The order of the pool\<close>

text \<open>The fee per byte, then the smaller, then the older transaction.\<close>

definition priority :: "PendingTransactionInfo \<Rightarrow> rat \<times> int \<times> int" where
  "priority p = (of_nat (unat (pending_fee p)) / of_nat (unat (blob_size p)), - int (unat (blob_size p)),
     - int (unat (receiveTime p)))"

lemma ratio_compare:
  fixes a b c d :: nat
  assumes "0 < b" "0 < d"
  shows "(of_nat a / of_nat b :: rat) < of_nat c / of_nat d \<longleftrightarrow> a * d < c * b"
    "(of_nat a / of_nat b :: rat) = of_nat c / of_nat d \<longleftrightarrow> a * d = c * b"
  using assms by (simp_all add: divide_simps flip: of_nat_mult)

lemma neg_unat_compare:
  "- int (unat (x :: u64)) < - int (unat y) \<longleftrightarrow> y < x" "- int (unat x) = - int (unat y) \<longleftrightarrow> x = y"
  by (simp_all add: word_less_def word_uint_eq_iff)

lemma comparator_priority:
  assumes "blob_size l \<noteq> 0" "blob_size r \<noteq> 0"
  shows "TransactionPriorityComparator l r \<longleftrightarrow> priority r < priority l"
proof -
  have pos: "0 < unat (blob_size l)" "0 < unat (blob_size r)" using assms by (simp_all add: unat_gt_0)
  show ?thesis
    unfolding TransactionPriorityComparator_def Let_def split_def priority_def less_prod_def' fst_conv snd_conv
      ratio_compare [OF pos(2,1)] neg_unat_compare
    using mul128_less_iff [of "pending_fee r" "blob_size l" "pending_fee l" "blob_size r"]
      mul128_eq_iff [of "pending_fee r" "blob_size l" "pending_fee l" "blob_size r"]
    by auto
qed

section \<open>The invariant\<close>

abbreviation key_images :: "'z TransactionPrefix_scheme \<Rightarrow> bytes list" where
  "key_images tx \<equiv> map keyImage (filter is_KeyInput (inputs tx))"

abbreviation spent :: "PendingTransactionInfo \<Rightarrow> bytes list" where
  "spent p \<equiv> key_images (transaction (cachedTransaction p))"

definition stored_ok :: "(bytes \<Rightarrow> bytes) \<Rightarrow> PendingTransactionInfo \<Rightarrow> bool" where
  "stored_ok cn p \<longleftrightarrow> cache_ok cn (cachedTransaction p) \<and> pending_hash cn p \<noteq> None \<and> blob_size p \<noteq> 0"

definition pool_inv :: "(bytes \<Rightarrow> bytes) \<Rightarrow> TransactionPool \<Rightarrow> bool" where
  "pool_inv cn pool \<longleftrightarrow>
     (\<forall>p \<in> set (transactions pool). stored_ok cn p) \<and>
     distinct (map (pending_hash cn) (transactions pool)) \<and>
     sorted_wrt (\<lambda>p q. priority q \<le> priority p) (transactions pool) \<and>
     distinct (concat (map spent (transactions pool))) \<and>
     poolState pool = set (concat (map spent (transactions pool)))"

text \<open>What the caller of \<open>pushTransaction\<close> provides: the key images of the transaction, all different.\<close>

definition push_ok :: "(bytes \<Rightarrow> bytes) \<Rightarrow> CachedTransaction \<Rightarrow> TransactionValidatorState \<Rightarrow> bool" where
  "push_ok cn ct state \<longleftrightarrow>
     cache_ok cn ct \<and> distinct (key_images (transaction ct)) \<and> state = set (key_images (transaction ct)) \<and>
     (\<forall>ba. write_Transaction (transaction ct) = Inr ba \<longrightarrow> length ba < 2 ^ 64)"

lemma excludeFromState_eq: "excludeFromState state ct = state - set (key_images (transaction ct))"
proof -
  have "foldl exclude_input state ins = state - set (map keyImage (filter is_KeyInput ins))" for ins
    by (induction ins arbitrary: state) (auto simp: exclude_input_def split: TransactionInput.split)
  then show ?thesis by (simp add: excludeFromState_def)
qed

lemma write_Transaction_nonempty: "write_Transaction tx = Inr ba \<Longrightarrow> ba \<noteq> []"
proof -
  have "writeVarint w \<noteq> []" for w by (subst writeVarint.simps) simp
  then show "write_Transaction tx = Inr ba \<Longrightarrow> ba \<noteq> []"
    by (auto simp: write_Transaction_def write_TransactionPrefix_def Let_def split: if_splits sum.splits)
qed

lemma cost_insert_split:
  obtains xs ys where "ps = xs @ ys" "cost_insert p ps = xs @ p # ys"
  by (rule that [OF takeWhile_dropWhile_id [symmetric]]) (simp add: cost_insert_def)

lemma sorted_insert:
  fixes f :: "'a \<Rightarrow> 'b::linorder"
  assumes "sorted_wrt (\<lambda>x y. f y \<le> f x) ps"
  shows "sorted_wrt (\<lambda>x y. f y \<le> f x) (takeWhile (\<lambda>q. \<not> f q < f p) ps @ p # dropWhile (\<lambda>q. \<not> f q < f p) ps)"
  using assms
proof (induction ps)
  case (Cons q qs)
  show ?case
  proof (cases "f q < f p")
    case True
    with Cons.prems show ?thesis by (auto intro: order_trans)
  next
    case False
    have "set (takeWhile (\<lambda>q. \<not> f q < f p) qs @ p # dropWhile (\<lambda>q. \<not> f q < f p) qs) = insert p (set qs)"
      by (metis insert_is_Un list.simps(15) set_append sup.left_commute takeWhile_dropWhile_id)
    with False Cons show ?thesis by auto
  qed
qed simp

lemma cost_insert_sorted:
  assumes "sorted_wrt (\<lambda>p q. priority q \<le> priority p) ps" "\<forall>q \<in> set (p # ps). blob_size q \<noteq> 0"
  shows "sorted_wrt (\<lambda>p q. priority q \<le> priority p) (cost_insert p ps)"
proof -
  have "cost_insert p ps = takeWhile (\<lambda>q. \<not> priority q < priority p) ps @ p # dropWhile (\<lambda>q. \<not> priority q < priority p) ps"
    using assms(2) unfolding cost_insert_def
    by (auto simp: comparator_priority intro!: arg_cong2 [where f = append] takeWhile_cong dropWhile_cong)
  then show ?thesis using sorted_insert [OF assms(1)] by simp
qed

lemma find_hash_Some:
  assumes "find_hash cn h pool = Some p"
  obtains xs ys where "transactions pool = xs @ p # ys" "remove1 p (transactions pool) = xs @ ys" "pending_hash cn p = Some h"
proof -
  have "p \<in> set (transactions pool)" "pending_hash cn p = Some h"
    using assms by (auto simp: find_hash_def find_Some_iff)
  moreover from this(1) obtain xs ys where "transactions pool = xs @ p # ys" "p \<notin> set xs" by (meson split_list_first)
  ultimately show thesis using that by (auto simp: remove1_append)
qed

lemma find_hash_None: "find_hash cn h pool = None \<longleftrightarrow> \<not> checkIfTransactionPresent cn h pool"
  by (auto simp: find_hash_def find_None_iff checkIfTransactionPresent_def)


lemma pushTransaction_cases:
  assumes "push_ok cn ct state" "pushTransaction cn now ct state pool = Inr (ok, pool')"
  obtains
    (refused) "\<not> ok" "pool' = pool"
  | (added) p h where "ok" "stored_ok cn p" "pending_hash cn p = Some h" "\<not> checkIfTransactionPresent cn h pool"
      "transaction (cachedTransaction p) = transaction ct" "set (spent p) \<inter> poolState pool = {}"
      "pool' = pool\<lparr>poolState := poolState pool \<union> set (spent p), transactions := cost_insert p (transactions pool)\<rparr>"
      "p = \<lparr>receiveTime = now, cachedTransaction = cachedTransaction p, paymentId = getPaymentIdFromTxExtra (extra (transaction ct))\<rparr>"
proof -
  obtain h ct' where hash: "getTransactionHash cn ct = Inr (h, ct')"
    using assms(2) by (auto simp: pushTransaction_def bind_e_def Let_def split: sum.splits)
  have ct': "map_sum id cn (write_Transaction (transaction ct)) = Inr h" "cache_ok cn ct'" "transaction ct' = transaction ct"
    "transactionHash ct' = Some h"
    using getTransactionHash_ok [of cn ct] hash assms(1) by (auto simp: push_ok_def)
  let ?p = "\<lparr>receiveTime = now, cachedTransaction = ct', paymentId = getPaymentIdFromTxExtra (extra (transaction ct))\<rparr>"
  obtain ba where ba: "write_Transaction (transaction ct) = Inr ba" using ct'(1) by (cases "write_Transaction (transaction ct)") auto
  have size: "length ba < 2 ^ 64" "ba \<noteq> []" using assms(1) ba write_Transaction_nonempty [OF ba] by (auto simp: push_ok_def)
  have "blob_size ?p = of_nat (length ba)"
    using getTransactionBinaryArray_ok [OF ct'(2)] ba ct'(3) by (auto simp: blob_size_def split: sum.splits)
  then have "blob_size ?p \<noteq> 0" using size by (simp add: word_unat_eq_iff unat_of_nat_u64)
  moreover have ph: "pending_hash cn ?p = Some h" by (simp add: pending_hash_def getTransactionHash_def ct'(4))
  ultimately have stored: "stored_ok cn ?p" by (simp add: stored_ok_def ct'(2))
  have state: "state = set (spent ?p)" using assms(1) ct'(3) by (simp add: push_ok_def)
  show thesis
  proof (cases "ok")
    case True
    then have "\<not> checkIfTransactionPresent cn h pool" "\<not> hasIntersections (poolState pool) state"
      "pool' = pool\<lparr>poolState := mergeStates (poolState pool) state, transactions := cost_insert ?p (transactions pool)\<rparr>"
      using assms(2) by (auto simp: pushTransaction_def bind_e_def hash split: if_splits)
    then show thesis using added [of ?p h] True stored ph ct'(3) state by (auto simp: hasIntersections_def mergeStates_def)
  next
    case False
    then show thesis using refused assms(2) by (auto simp: pushTransaction_def bind_e_def hash split: if_splits)
  qed
qed

lemma pool_inv_empty: "pool_inv cn empty_pool"
  by (simp add: pool_inv_def empty_pool_def)

lemma distinct_middle: "distinct (A @ B @ C) \<longleftrightarrow> distinct B \<and> distinct (A @ C) \<and> set B \<inter> set (A @ C) = {}"
  by auto

lemma set_middle: "distinct (A @ B @ C) \<Longrightarrow> set (A @ B @ C) - set B = set (A @ C)"
  by auto

lemmas spent_split = map_append concat_append list.map concat.simps

lemma pushTransaction_inv:
  assumes "pool_inv cn pool" "push_ok cn ct state" "pushTransaction cn now ct state pool = Inr (ok, pool')"
  shows "pool_inv cn pool'"
  using assms(2,3)
proof (cases rule: pushTransaction_cases)
  case (added p h)
  obtain xs ys where split: "transactions pool = xs @ ys" "cost_insert p (transactions pool) = xs @ p # ys"
    by (rule cost_insert_split)
  have inv: "\<forall>p \<in> set (xs @ ys). stored_ok cn p" "distinct (map (pending_hash cn) (xs @ ys))"
    "sorted_wrt (\<lambda>p q. priority q \<le> priority p) (transactions pool)"
    "distinct (concat (map spent (xs @ ys)))" "poolState pool = set (concat (map spent (xs @ ys)))"
    using assms(1) by (simp_all add: pool_inv_def split(1))
  have "distinct (spent p)" using assms(2) added(5) by (simp add: push_ok_def)
  then have "distinct (concat (map spent (xs @ p # ys)))"
    using inv(4) added(6) unfolding inv(5) spent_split distinct_middle by blast
  moreover have "distinct (map (pending_hash cn) (xs @ p # ys))"
    using inv(2) added(3,4) by (auto simp: checkIfTransactionPresent_def split(1) dest: sym)
  moreover have "sorted_wrt (\<lambda>p q. priority q \<le> priority p) (cost_insert p (transactions pool))"
    using inv(1,3) added(2) by (intro cost_insert_sorted) (auto simp: stored_ok_def split(1))
  ultimately show ?thesis using inv(1,5) added(2,7) by (auto simp: pool_inv_def split(2))
qed (use assms(1) in simp)

lemma removeTransaction_inv:
  assumes "pool_inv cn pool"
  shows "pool_inv cn (snd (removeTransaction cn h pool))"
proof (cases "find_hash cn h pool")
  case (Some p)
  from find_hash_Some [OF this] obtain xs ys where split: "transactions pool = xs @ p # ys" "remove1 p (transactions pool) = xs @ ys"
    by metis
  let ?pool = "pool\<lparr>poolState := poolState pool - set (spent p), transactions := xs @ ys\<rparr>"
  have inv: "\<forall>q \<in> set (xs @ p # ys). stored_ok cn q" "distinct (map (pending_hash cn) (xs @ p # ys))"
    "sorted_wrt (\<lambda>p q. priority q \<le> priority p) (xs @ p # ys)"
    "distinct (concat (map spent (xs @ p # ys)))" "poolState pool = set (concat (map spent (xs @ p # ys)))"
    using assms unfolding pool_inv_def split(1) by blast+
  have "poolState pool - set (spent p) = set (concat (map spent (xs @ ys)))"
    using inv(4) unfolding inv(5) spent_split by (rule set_middle)
  moreover have "distinct (concat (map spent (xs @ ys)))" using inv(4) unfolding spent_split distinct_middle by blast
  ultimately have "pool_inv cn ?pool"
    unfolding pool_inv_def using inv(1-3) by (simp add: sorted_wrt_append del: concat_append)
  then show ?thesis by (simp add: removeTransaction_def Some split(2) excludeFromState_eq)
qed (use assms in \<open>simp add: removeTransaction_def\<close>)

section \<open>The interface of a pool\<close>

text \<open>
  What the users of \<^verbatim>\<open>ITransactionPool\<close> rely on when they remove transactions: the listed hashes are
  those with an entry, and removing one affects no other.
\<close>

locale removable =
  fixes inv :: "'p \<Rightarrow> bool"
    and entries :: "'p \<Rightarrow> 'h list"
    and lookup :: "'h \<Rightarrow> 'p \<Rightarrow> 'e option"
    and remove :: "'h \<Rightarrow> 'p \<Rightarrow> bool \<times> 'p"
  assumes distinct_entries: "inv p \<Longrightarrow> distinct (entries p)"
    and entries_lookup: "inv p \<Longrightarrow> h \<in> set (entries p) \<longleftrightarrow> lookup h p \<noteq> None"
    and remove_inv: "inv p \<Longrightarrow> inv (snd (remove h p))"
    and remove_found: "inv p \<Longrightarrow> fst (remove h p) \<longleftrightarrow> lookup h p \<noteq> None"
    and remove_lookup: "inv p \<Longrightarrow> lookup h' (snd (remove h p)) = (if h' = h then None else lookup h' p)"
    and remove_entries: "inv p \<Longrightarrow> entries (snd (remove h p)) = removeAll h (entries p)"
begin

text \<open>Removing the entries of a list that fail a test.\<close>

lemma remove_where:
  fixes bad :: "'e option \<Rightarrow> bool"
  assumes "inv p" "distinct hs"
  defines "p' \<equiv> foldl (\<lambda>p h. if bad (lookup h p) then snd (remove h p) else p) p hs"
  shows "inv p' \<and> entries p' = filter (\<lambda>h. \<not> (h \<in> set hs \<and> bad (lookup h p))) (entries p) \<and>
    (\<forall>h. lookup h p' = (if h \<in> set hs \<and> bad (lookup h p) then None else lookup h p))"
  using assms(1,2) unfolding p'_def
proof (induction hs arbitrary: p)
  case (Cons h hs)
  define q where "q = (if bad (lookup h p) then snd (remove h p) else p)"
  have step: "inv q" "entries q = filter (\<lambda>h'. \<not> (h' = h \<and> bad (lookup h p))) (entries p)"
    "lookup h' q = (if h' = h \<and> bad (lookup h p) then None else lookup h' p)" for h'
    using Cons.prems(1)
    by (auto simp: q_def remove_inv remove_lookup remove_entries removeAll_filter_not_eq intro!: filter_cong)
  have "h \<notin> set hs" "distinct hs" using Cons.prems(2) by auto
  with Cons.IH [OF step(1)] show ?case by (auto simp: step(2,3) simp flip: q_def intro!: filter_cong)
qed simp

lemma remove_all: "inv p \<Longrightarrow> entries (foldl (\<lambda>p h. snd (remove h p)) p (entries p)) = []"
  using remove_where [of p "entries p" "\<lambda>_. True"] distinct_entries [of p] by (simp add: filter_empty_conv)

end

lemma pool_hashes: "pool_inv cn pool \<Longrightarrow> map Some (getTransactionHashes cn pool) = map (pending_hash cn) (transactions pool)"
proof -
  have "\<forall>p \<in> set ps. pending_hash cn p \<noteq> None \<Longrightarrow> map Some (List.map_filter (pending_hash cn) ps) = map (pending_hash cn) ps" for ps
    by (induction ps) (auto simp: map_filter_simps)
  then show "pool_inv cn pool \<Longrightarrow> ?thesis" by (auto simp: pool_inv_def stored_ok_def getTransactionHashes_def)
qed

lemma removeTransaction_split:
  assumes "pool_inv cn pool" "find_hash cn h pool = Some p"
  obtains xs ys where "transactions pool = xs @ p # ys" "transactions (snd (removeTransaction cn h pool)) = xs @ ys"
    "pending_hash cn p = Some h" "Some h \<notin> pending_hash cn ` set (xs @ ys)"
proof -
  from find_hash_Some [OF assms(2)] obtain xs ys where split: "transactions pool = xs @ p # ys"
    "remove1 p (transactions pool) = xs @ ys" "pending_hash cn p = Some h" by metis
  moreover have "Some h \<notin> pending_hash cn ` set (xs @ ys)" using assms(1) split(1,3) by (auto simp: pool_inv_def)
  ultimately show thesis using that by (simp add: removeTransaction_def assms(2))
qed

lemma removeTransaction_entries:
  assumes "pool_inv cn pool"
  shows "getTransactionHashes cn (snd (removeTransaction cn h pool)) = removeAll h (getTransactionHashes cn pool)"
proof (cases "find_hash cn h pool")
  case None
  then have "h \<notin> set (getTransactionHashes cn pool)"
    by (auto simp: find_hash_None checkIfTransactionPresent_def getTransactionHashes_def map_filter_def)
  with None show ?thesis by (simp add: removeTransaction_def)
next
  case (Some p)
  obtain xs ys where split: "transactions pool = xs @ p # ys" "transactions (snd (removeTransaction cn h pool)) = xs @ ys"
    "pending_hash cn p = Some h" "Some h \<notin> pending_hash cn ` set (xs @ ys)"
    using removeTransaction_split [OF assms Some] by metis
  have "map Some (removeAll h (getTransactionHashes cn pool)) = removeAll (Some h) (map (pending_hash cn) (transactions pool))"
    unfolding pool_hashes [OF assms, symmetric] by (simp add: removeAll_filter_not_eq filter_map o_def)
  also have "\<dots> = map (pending_hash cn) (xs @ ys)"
    using split(3,4) by (simp add: split(1) removeAll_id image_Un)
  also have "\<dots> = map Some (getTransactionHashes cn (snd (removeTransaction cn h pool)))"
    using pool_hashes [OF removeTransaction_inv [OF assms]] split(2) by simp
  finally show ?thesis by simp
qed

lemma removeTransaction_lookup:
  assumes "pool_inv cn pool"
  shows "find_hash cn h' (snd (removeTransaction cn h pool)) = (if h' = h then None else find_hash cn h' pool)"
proof (cases "find_hash cn h pool")
  case None
  then show ?thesis by (simp add: removeTransaction_def)
next
  case (Some p)
  obtain xs ys where split: "transactions pool = xs @ p # ys" "transactions (snd (removeTransaction cn h pool)) = xs @ ys"
    "pending_hash cn p = Some h" "Some h \<notin> pending_hash cn ` set (xs @ ys)"
    using removeTransaction_split [OF assms Some] by metis
  show ?thesis
  proof (cases "h' = h")
    case True
    then show ?thesis using split(4) by (force simp: find_hash_def split(2) find_None_iff)
  next
    case False
    then show ?thesis using split(3) by (simp add: find_hash_def split(1,2) find_append split: option.split)
  qed
qed

interpretation pool: removable "pool_inv cn" "getTransactionHashes cn" "find_hash cn" "removeTransaction cn" for cn
proof
  fix pool h h'
  assume inv: "pool_inv cn pool"
  show "distinct (getTransactionHashes cn pool)"
    using inv pool_hashes [OF inv] distinct_map [of Some "getTransactionHashes cn pool"] by (simp add: pool_inv_def)
  show "h \<in> set (getTransactionHashes cn pool) \<longleftrightarrow> find_hash cn h pool \<noteq> None"
    by (auto simp: find_hash_None checkIfTransactionPresent_def getTransactionHashes_def map_filter_def image_iff)
  show "fst (removeTransaction cn h pool) \<longleftrightarrow> find_hash cn h pool \<noteq> None"
    by (simp add: removeTransaction_def split: option.split)
qed (simp_all add: removeTransaction_inv removeTransaction_lookup removeTransaction_entries)

lemma flush_empties: "pool_inv cn pool \<Longrightarrow> flush cn pool = empty_pool"
proof -
  assume inv: "pool_inv cn pool"
  have flushed: "pool_inv cn (flush cn pool)" "getTransactionHashes cn (flush cn pool) = []"
    using pool.remove_where [OF inv pool.distinct_entries [OF inv], of "\<lambda>_. True"] pool.remove_all [OF inv]
    by (simp_all add: flush_def)
  have "transactions (flush cn pool) = []" using pool_hashes [OF flushed(1)] flushed(2) by simp
  then show ?thesis using flushed(1) by (simp add: pool_inv_def empty_pool_def)
qed

section \<open>Every pool\<close>

inductive pool_step :: "(bytes \<Rightarrow> bytes) \<Rightarrow> TransactionPool \<Rightarrow> TransactionPool \<Rightarrow> bool" for cn where
  push: "push_ok cn ct state \<Longrightarrow> pushTransaction cn now ct state pool = Inr (ok, pool') \<Longrightarrow> pool_step cn pool pool'"
| remove: "removeTransaction cn h pool = (ok, pool') \<Longrightarrow> pool_step cn pool pool'"
| flush: "pool_step cn pool (flush cn pool)"

lemma pool_step_inv: "pool_step cn pool pool' \<Longrightarrow> pool_inv cn pool \<Longrightarrow> pool_inv cn pool'"
proof (induction rule: pool_step.induct)
  case (push ct state now pool ok pool')
  then show ?case by (blast intro: pushTransaction_inv)
next
  case (remove h pool ok pool')
  then show ?case using removeTransaction_inv [of cn pool h] by simp
next
  case (flush pool)
  then show ?case by (simp add: flush_empties pool_inv_empty)
qed

lemma pool_steps_inv: "(pool_step cn)\<^sup>*\<^sup>* pool pool' \<Longrightarrow> pool_inv cn pool \<Longrightarrow> pool_inv cn pool'"
  by (induction rule: rtranclp_induct) (auto intro: pool_step_inv)

text \<open>C11: However transactions were added and removed, no key image is spent twice by the transactions of the pool, the recorded key images are exactly those of its transactions, every hash occurs once, the transactions are listed by falling fee per byte, and a flush leaves nothing.\<close>

theorem pool_no_double_spend:
  assumes "(pool_step cn)\<^sup>*\<^sup>* empty_pool pool"
  shows "distinct (concat (map (\<lambda>ct. key_images (transaction ct)) (getPoolTransactions pool))) \<and>
    poolState pool = set (concat (map (\<lambda>ct. key_images (transaction ct)) (getPoolTransactions pool))) \<and>
    distinct (getTransactionHashes cn pool) \<and> length (getTransactionHashes cn pool) = getTransactionCount pool \<and>
    sorted_wrt (\<lambda>p q. priority q \<le> priority p) (transactions pool) \<and>
    flush cn pool = empty_pool"
proof -
  have inv: "pool_inv cn pool" by (rule pool_steps_inv [OF assms pool_inv_empty])
  then show ?thesis using pool.distinct_entries [OF inv] arg_cong [OF pool_hashes [OF inv], of length]
    by (simp add: flush_empties getPoolTransactions_def getTransactionCount_def pool_inv_def comp_def)
qed

text \<open>C31: A transaction that was added can be fetched by its hash, and removing it again restores the pool exactly, whatever was in it.\<close>

theorem push_remove_roundtrip:
  assumes "pool_inv cn pool" "push_ok cn ct state" "pushTransaction cn now ct state pool = Inr (True, pool')"
  shows "\<exists>h ct'. map_sum id fst (getTransactionHash cn ct) = Inr h \<and> getTransaction cn h pool' = Some ct' \<and>
    transaction ct' = transaction ct \<and> getTransactionReceiveTime cn h pool' = Some now \<and>
    removeTransaction cn h pool' = (True, pool)"
  using assms(2,3)
proof (cases rule: pushTransaction_cases)
  case (added p h)
  obtain xs ys where split: "transactions pool = xs @ ys" "cost_insert p (transactions pool) = xs @ p # ys"
    by (rule cost_insert_split)
  have fresh: "\<forall>q \<in> set (xs @ ys). pending_hash cn q \<noteq> Some h"
    using added(4) by (simp add: checkIfTransactionPresent_def split(1))
  then have "find (\<lambda>q. pending_hash cn q = Some h) (xs @ p # ys) = Some p" using added(3) by (induction xs) auto
  then have find: "find_hash cn h pool' = Some p" by (simp add: find_hash_def added(7) split(2))
  have "p \<notin> set xs" using fresh added(3) by auto
  then have "remove1 p (xs @ p # ys) = transactions pool" by (simp add: remove1_append split(1))
  moreover have "poolState pool \<union> set (spent p) - set (spent p) = poolState pool" using added(6) by blast
  ultimately have "removeTransaction cn h pool' = (True, pool)"
    by (simp add: removeTransaction_def find excludeFromState_eq, simp add: added(7) split(2))
  moreover have "map_sum id fst (getTransactionHash cn ct) = Inr h"
    using getTransactionHash_ok [of cn ct] assms(2) added(2,3,5) getTransactionHash_ok [of cn "cachedTransaction p"]
    by (auto simp: push_ok_def stored_ok_def pending_hash_def split: sum.splits)
  moreover have "receiveTime p = now" using added(8) by (metis PendingTransactionInfo.select_convs(1))
  ultimately show ?thesis using find added(5) by (auto simp: getTransaction_def getTransactionReceiveTime_def)
qed simp

text \<open>The comparator of the cost index, computed with 128 bit products, is the order by the exact fee per byte, then by size, then by age.\<close>

theorem comparator_price_order:
  assumes "blob_size l \<noteq> 0" "blob_size r \<noteq> 0"
  shows "TransactionPriorityComparator l r \<longleftrightarrow> priority r < priority l"
  using assms by (rule comparator_priority)

section \<open>Examples\<close>

definition spend_tx :: "u8 \<Rightarrow> Transaction" where
  "spend_tx k = \<lparr>version = 1, unlockTime = 0, inputs = [KeyInput 100 [] (replicate 32 k)], outputs = [], extra = [], signatures = [[]]\<rparr>"

lemma spend_tx_bytes:
  "write_Transaction (spend_tx k) = Inr ([1, 0, 1, 2, 100, 0] @ replicate 32 k @ [0, 0])"
  by (simp add: write_Transaction_def spend_tx_def write_TransactionPrefix_def writeContainer_def writeAsBinary_def
      write_TransactionInput_def write_varint_vector_def input_tag_def write_int_def writeVarint_small
      getSignaturesCount_def write_string_def)

lemma spend_tx_push_ok: "push_ok cn (CachedTransaction_of (spend_tx k)) {replicate 32 k}"
proof -
  have "transaction (CachedTransaction_of (spend_tx k)) = spend_tx k" by (simp add: CachedTransaction_of_def)
  moreover have "key_images (spend_tx k) = [replicate 32 k]" by (simp add: spend_tx_def)
  ultimately show ?thesis unfolding push_ok_def by (simp only: cache_ok_new spend_tx_bytes) simp
qed

definition spend_pending :: "(bytes \<Rightarrow> bytes) \<Rightarrow> PendingTransactionInfo" where
  "spend_pending cn = \<lparr>receiveTime = 1000, cachedTransaction = (CachedTransaction_of (spend_tx 5))\<lparr>
     transactionBinaryArray := Some ([1, 0, 1, 2, 100, 0] @ replicate 32 5 @ [0, 0]),
     transactionHash := Some (cn ([1, 0, 1, 2, 100, 0] @ replicate 32 5 @ [0, 0]))\<rparr>,
     paymentId = getPaymentIdFromTxExtra []\<rparr>"

lemma spend_tx_pushed:
  "pushTransaction cn 1000 (CachedTransaction_of (spend_tx 5)) {replicate 32 5} empty_pool =
     Inr (True, \<lparr>poolState = {replicate 32 5}, transactions = [spend_pending cn]\<rparr>)"
proof -
  have ct: "transaction (CachedTransaction_of (spend_tx 5)) = spend_tx 5" "extra (spend_tx 5) = []"
    "transactionHash (CachedTransaction_of (spend_tx 5)) = None"
    "transactionBinaryArray (CachedTransaction_of (spend_tx 5)) = None"
    by (simp_all add: CachedTransaction_of_def spend_tx_def)
  show ?thesis
    by (simp add: pushTransaction_def getTransactionHash_def getTransactionBinaryArray_def ct spend_tx_bytes bind_e_def
        checkIfTransactionPresent_def empty_pool_def hasIntersections_def mergeStates_def cost_insert_def spend_pending_def)
qed

lemma pool_no_double_spend_witness:
  "\<exists>pool. (pool_step (take 32))\<^sup>*\<^sup>* empty_pool pool \<and> poolState pool = {replicate 32 5} \<and> flush (take 32) pool = empty_pool"
proof -
  let ?pool = "\<lparr>poolState = {replicate 32 5}, transactions = [spend_pending (take 32)]\<rparr>"
  have steps: "(pool_step (take 32))\<^sup>*\<^sup>* empty_pool ?pool"
    using pool_step.push [OF spend_tx_push_ok spend_tx_pushed] by blast
  from pool_no_double_spend [OF steps] steps show ?thesis by auto
qed

lemma push_remove_roundtrip_witness:
  "\<exists>pool h. pushTransaction (take 32) 1000 (CachedTransaction_of (spend_tx 5)) {replicate 32 5} empty_pool = Inr (True, pool) \<and>
    removeTransaction (take 32) h pool = (True, empty_pool)"
  using push_remove_roundtrip [OF pool_inv_empty spend_tx_push_ok spend_tx_pushed] spend_tx_pushed by blast

lemma comparator_price_order_witness:
  "blob_size (spend_pending id) = 40 \<and>
   TransactionPriorityComparator (spend_pending id) ((spend_pending id)\<lparr>receiveTime := 1001\<rparr>)"
proof -
  have sizes: "blob_size (spend_pending id) = 40" "blob_size ((spend_pending id)\<lparr>receiveTime := 1001\<rparr>) = 40"
    by (simp_all add: blob_size_def spend_pending_def getTransactionBinaryArray_def)
  moreover have "priority ((spend_pending id)\<lparr>receiveTime := 1001\<rparr>) < priority (spend_pending id)"
    by (simp add: priority_def less_prod_def' sizes pending_fee_def) (simp add: spend_pending_def)
  ultimately show ?thesis using comparator_price_order [of "spend_pending id" "(spend_pending id)\<lparr>receiveTime := 1001\<rparr>"] by simp
qed

end
