(* ===== verification/Pool_Cleaner.thy ===== *)
theory Pool_Cleaner
  imports Tx_Pool Mixins Checkpoints
begin

text \<open>
  The wrapper that removes invalid and old transactions from the pool,
  \<^verbatim>\<open>src/mevacoin_core/transaction_pool_cleaner.cpp\<close>.  The JSON library is given by two parameters: \<open>json_parse\<close> and
  the number under the key \<open>t\<close> of an object; \<open>None\<close> stands for an exception of the library.  The clock is an
  argument, log messages are left out.
\<close>

section \<open>State\<close>

record TransactionPoolCleanWrapper =
  transactionPool :: TransactionPool
  recentlyDeletedTransactions :: "bytes \<rightharpoonup> u64"
  timeout :: u64

record 'j json_library =
  json_parse :: "string \<Rightarrow> 'j option"
  json_at_t :: "'j \<Rightarrow> u64 option"

definition isTransactionRecentlyDeleted :: "TransactionPoolCleanWrapper \<Rightarrow> bytes \<Rightarrow> bool" where
  "isTransactionRecentlyDeleted w h \<longleftrightarrow>
     (case recentlyDeletedTransactions w h of None \<Rightarrow> False | Some t \<Rightarrow> timeout w \<le> t)"

definition wrapper_push ::
  "(bytes \<Rightarrow> bytes) \<Rightarrow> u64 \<Rightarrow> CachedTransaction \<Rightarrow> TransactionValidatorState \<Rightarrow> TransactionPoolCleanWrapper \<Rightarrow>
   ser_error + (bool \<times> TransactionPoolCleanWrapper)" where
  "wrapper_push cn now tx state w =
     bind_e (getTransactionHash cn tx) (\<lambda>(h, tx).
       if isTransactionRecentlyDeleted w h then Inr (False, w)
       else bind_e (pushTransaction cn now tx state (transactionPool w)) (\<lambda>(ok, pool). Inr (ok, w\<lparr>transactionPool := pool\<rparr>)))"

definition wrapper_remove ::
  "(bytes \<Rightarrow> bytes) \<Rightarrow> bytes \<Rightarrow> TransactionPoolCleanWrapper \<Rightarrow> bool \<times> TransactionPoolCleanWrapper" where
  "wrapper_remove cn h w =
     (let (ok, pool) = removeTransaction cn h (transactionPool w) in (ok, w\<lparr>transactionPool := pool\<rparr>))"

definition wrapper_flush :: "(bytes \<Rightarrow> bytes) \<Rightarrow> TransactionPoolCleanWrapper \<Rightarrow> TransactionPoolCleanWrapper" where
  "wrapper_flush cn w = w\<lparr>transactionPool := flush cn (transactionPool w)\<rparr>"

section \<open>The message in a large extra field\<close>

text \<open>\<open>stoul\<close> to the base 16, with white space, a sign and the prefix \<open>0x\<close>.\<close>

definition hex_value :: "char \<Rightarrow> nat option" where
  "hex_value ch = map_option unat (fromHex_char ch)"

definition stoul16 :: "string \<Rightarrow> u64 option" where
  "stoul16 s =
     (let s = dropWhile is_space s;
          (negative, s) = (case s of
              [] \<Rightarrow> (False, [])
            | ch # t \<Rightarrow> if ch = CHR ''-'' then (True, t) else if ch = CHR ''+'' then (False, t) else (False, s));
          s = (case s of
              z # x # d # _ \<Rightarrow> if z = CHR ''0'' \<and> x \<in> {CHR ''x'', CHR ''X''} \<and> hex_value d \<noteq> None then drop 2 s else s
            | _ \<Rightarrow> s);
          ds = List.map_filter hex_value (takeWhile (\<lambda>ch. hex_value ch \<noteq> None) s);
          v = foldl (\<lambda>v d. 16 * v + d) 0 ds
      in if ds = [] \<or> 2 ^ 64 \<le> v then None
         else Some (if negative then - of_nat v else of_nat v))"

fun hex2ascii :: "string \<Rightarrow> string option" where
  "hex2ascii [] = Some []"
| "hex2ascii [c] = map_option (\<lambda>v. [char_of (unat v mod 256)]) (stoul16 [c])"
| "hex2ascii (c # d # hex) =
     do { v \<leftarrow> stoul16 [c, d]; rest \<leftarrow> hex2ascii hex; Some (char_of (unat v mod 256) # rest) }"

text \<open>\<open>extra.substr(n)\<close> throws when \<open>n\<close> is larger than the length.\<close>

definition payload_at :: "'j json_library \<Rightarrow> nat \<Rightarrow> string \<Rightarrow> 'j option" where
  "payload_at J n extraData =
     (if length extraData < n then None
      else do { payload \<leftarrow> hex2ascii (drop n extraData); json_parse J payload })"

definition trimExtra :: "'j json_library \<Rightarrow> string \<Rightarrow> 'j option" where
  "trimExtra J extraData =
     (case payload_at J 66 extraData of
        Some j \<Rightarrow> Some j
      | None \<Rightarrow> (case payload_at J 78 extraData of
                   Some j \<Rightarrow> Some j
                 | None \<Rightarrow> json_parse J ''{ 't': 0 }''))"

section \<open>Cleaning\<close>

text \<open>The conditions under which the body of the loop deletes a transaction.\<close>

definition should_delete :: "'j json_library \<Rightarrow> u64 \<Rightarrow> u64 \<Rightarrow> u32 \<Rightarrow> PendingTransactionInfo \<Rightarrow> bool" where
  "should_delete J currentTime limit height p =
     (let transactionAge = currentTime - receiveTime p;
          tx = transaction (cachedTransaction p);
          tx_extra_data_size = length (extra tx)
      in if validate_transactions [tx] (ucast height) \<noteq> Inr () then True
         else if limit \<le> transactionAge then True
         else if unat MAX_EXTRA_SIZE_BLOCK < tx_extra_data_size
         then if MEVACOIN_MEMPOOL_TX_LIVETIME \<le> transactionAge \<or> unat MAX_EXTRA_SIZE_POOL \<le> tx_extra_data_size then True
              else (case do { j \<leftarrow> trimExtra J (toHex (extra tx)); json_at_t J j } of
                      None \<Rightarrow> True
                    | Some box_time \<Rightarrow> MEVACOIN_MEMPOOL_TX_LIVETIME \<le> currentTime - box_time div 1000)
         else False)"

text \<open>\<open>recentlyDeletedTransactions.emplace\<close> keeps an entry that is present.\<close>

definition emplace_deleted :: "bytes \<Rightarrow> u64 \<Rightarrow> (bytes \<rightharpoonup> u64) \<Rightarrow> (bytes \<rightharpoonup> u64)" where
  "emplace_deleted h t m = (if m h = None then m(h \<mapsto> t) else m)"

fun clean_loop ::
  "(bytes \<Rightarrow> bytes) \<Rightarrow> 'j json_library \<Rightarrow> u64 \<Rightarrow> u32 \<Rightarrow> bytes list \<Rightarrow> bytes list \<Rightarrow> TransactionPoolCleanWrapper \<Rightarrow>
   (bytes list \<times> TransactionPoolCleanWrapper) option" where
  "clean_loop cn J currentTime height [] deleted w = Some (deleted, w)"
| "clean_loop cn J currentTime height (h # hs) deleted w =
     (case find_hash cn h (transactionPool w) of
        None \<Rightarrow> None
      | Some p \<Rightarrow>
          if should_delete J currentTime (timeout w) height p
          then clean_loop cn J currentTime height hs (deleted @ [h])
                 (snd (wrapper_remove cn h (w\<lparr>recentlyDeletedTransactions :=
                    emplace_deleted h currentTime (recentlyDeletedTransactions w)\<rparr>)))
          else clean_loop cn J currentTime height hs deleted w)"

definition cleanRecentlyDeletedTransactions :: "u64 \<Rightarrow> TransactionPoolCleanWrapper \<Rightarrow> TransactionPoolCleanWrapper" where
  "cleanRecentlyDeletedTransactions currentTime w =
     w\<lparr>recentlyDeletedTransactions := (\<lambda>h. case recentlyDeletedTransactions w h of
         None \<Rightarrow> None
       | Some t \<Rightarrow> if timeout w \<le> currentTime - t then None else Some t)\<rparr>"

definition clean ::
  "(bytes \<Rightarrow> bytes) \<Rightarrow> 'j json_library \<Rightarrow> u64 \<Rightarrow> u32 \<Rightarrow> TransactionPoolCleanWrapper \<Rightarrow>
   (bytes list \<times> TransactionPoolCleanWrapper) option" where
  "clean cn J currentTime height w =
     do {
       (deleted, w) \<leftarrow> clean_loop cn J currentTime height (getTransactionHashes cn (transactionPool w)) [] w;
       Some (deleted, cleanRecentlyDeletedTransactions currentTime w)
     }"

section \<open>What is left\<close>

definition bad_entry :: "'j json_library \<Rightarrow> u64 \<Rightarrow> u64 \<Rightarrow> u32 \<Rightarrow> PendingTransactionInfo option \<Rightarrow> bool" where
  "bad_entry J now limit height e = (case e of None \<Rightarrow> False | Some p \<Rightarrow> should_delete J now limit height p)"

lemma clean_loop_eq:
  fixes J :: "'j json_library" and now :: u64 and height :: u32
  assumes "pool_inv cn (transactionPool w)" "distinct hs" "\<forall>h \<in> set hs. find_hash cn h (transactionPool w) \<noteq> None"
  defines "bad \<equiv> bad_entry J now (timeout w) height"
  shows "clean_loop cn J now height hs deleted w = Some
    (deleted @ filter (\<lambda>h. bad (find_hash cn h (transactionPool w))) hs,
     w\<lparr>transactionPool := foldl (\<lambda>p h. if bad (find_hash cn h p) then snd (removeTransaction cn h p) else p) (transactionPool w) hs,
       recentlyDeletedTransactions := foldl (\<lambda>m h. if bad (find_hash cn h (transactionPool w)) then emplace_deleted h now m else m)
         (recentlyDeletedTransactions w) hs\<rparr>)"
  using assms(1-3) unfolding bad_def
proof (induction hs arbitrary: w deleted)
  case (Cons h hs)
  obtain p where p: "find_hash cn h (transactionPool w) = Some p" using Cons.prems(3) by auto
  show ?case
  proof (cases "should_delete J now (timeout w) height p")
    case True
    define v where "v = snd (wrapper_remove cn h (w\<lparr>recentlyDeletedTransactions :=
      emplace_deleted h now (recentlyDeletedTransactions w)\<rparr>))"
    have v: "transactionPool v = snd (removeTransaction cn h (transactionPool w))" "timeout v = timeout w"
      "recentlyDeletedTransactions v = emplace_deleted h now (recentlyDeletedTransactions w)"
      by (simp_all add: v_def wrapper_remove_def split_def Let_def)
    have same: "find_hash cn h' (transactionPool v) = find_hash cn h' (transactionPool w)" if "h' \<in> set hs" for h'
      using that Cons.prems(1,2) by (auto simp: v(1) pool.remove_lookup)
    have "clean_loop cn J now height (h # hs) deleted w = clean_loop cn J now height hs (deleted @ [h]) v"
      by (simp add: p True v_def)
    also have "\<dots> = Some (deleted @ [h] @ filter (\<lambda>h. bad_entry J now (timeout w) height (find_hash cn h (transactionPool w))) hs,
      v\<lparr>transactionPool := foldl (\<lambda>p h. if bad_entry J now (timeout w) height (find_hash cn h p) then snd (removeTransaction cn h p) else p) (transactionPool v) hs,
       recentlyDeletedTransactions := foldl (\<lambda>m h. if bad_entry J now (timeout w) height (find_hash cn h (transactionPool w)) then emplace_deleted h now m else m)
         (recentlyDeletedTransactions v) hs\<rparr>)"
    proof -
      have "filter (\<lambda>h. B (find_hash cn h (transactionPool v))) hs = filter (\<lambda>h. B (find_hash cn h (transactionPool w))) hs" for B
        using same by (auto intro!: filter_cong)
      moreover have "foldl (\<lambda>m h. if B (find_hash cn h (transactionPool v)) then emplace_deleted h now m else m) m hs =
          foldl (\<lambda>m h. if B (find_hash cn h (transactionPool w)) then emplace_deleted h now m else m) m hs" for B m
        using same by (auto intro!: foldl_cong)
      moreover have "pool_inv cn (transactionPool v)" "distinct hs" "\<forall>h \<in> set hs. find_hash cn h (transactionPool v) \<noteq> None"
        using Cons.prems same by (simp_all add: v(1) removeTransaction_inv)
      ultimately show ?thesis using Cons.IH [of v "deleted @ [h]"] by (simp add: v(2))
    qed
    finally have loop: "clean_loop cn J now height (h # hs) deleted w = \<dots>" .
    have "v\<lparr>transactionPool := P, recentlyDeletedTransactions := M\<rparr> = w\<lparr>transactionPool := P, recentlyDeletedTransactions := M\<rparr>" for P M
      by (simp add: v_def wrapper_remove_def split_def Let_def)
    moreover have "bad_entry J now (timeout w) height (find_hash cn h (transactionPool w))" by (simp add: p True bad_entry_def)
    ultimately show ?thesis unfolding loop by (simp add: v)
  next
    case False
    then show ?thesis using Cons by (simp add: p bad_entry_def)
  qed
qed simp

lemma foldl_emplace:
  "foldl (\<lambda>m h. if B h then emplace_deleted h now m else m) m hs h =
     (if m h = None \<and> h \<in> set hs \<and> B h then Some now else m h)"
  by (induction hs arbitrary: m) (auto simp: emplace_deleted_def)

lemma clean_spec:
  fixes J :: "'j json_library" and now :: u64 and height :: u32
  assumes "pool_inv cn (transactionPool w)"
  defines "bad \<equiv> \<lambda>h. bad_entry J now (timeout w) height (find_hash cn h (transactionPool w))"
  obtains w' where "clean cn J now height w = Some (filter bad (getTransactionHashes cn (transactionPool w)), w')"
    "pool_inv cn (transactionPool w')"
    "getTransactionHashes cn (transactionPool w') = filter (\<lambda>h. \<not> bad h) (getTransactionHashes cn (transactionPool w))"
    "\<And>h. find_hash cn h (transactionPool w') = (if bad h then None else find_hash cn h (transactionPool w))"
    "timeout w' = timeout w"
    "\<And>h. recentlyDeletedTransactions w' h =
       (case if recentlyDeletedTransactions w h = None \<and> bad h then Some now else recentlyDeletedTransactions w h of
          None \<Rightarrow> None | Some t \<Rightarrow> if timeout w \<le> now - t then None else Some t)"
proof -
  let ?hs = "getTransactionHashes cn (transactionPool w)"
  let ?B = "bad_entry J now (timeout w) height"
  define pool' where "pool' = foldl (\<lambda>p h. if ?B (find_hash cn h p) then snd (removeTransaction cn h p) else p) (transactionPool w) ?hs"
  have hs: "distinct ?hs" "\<forall>h \<in> set ?hs. find_hash cn h (transactionPool w) \<noteq> None"
    using pool.distinct_entries pool.entries_lookup assms(1) by blast+
  have mem: "h \<in> set ?hs" if "bad h" for h
    using that pool.entries_lookup [OF assms(1)] by (auto simp: bad_def bad_entry_def split: option.splits)
  have pool': "pool_inv cn pool'" "getTransactionHashes cn pool' = filter (\<lambda>h. \<not> (h \<in> set ?hs \<and> bad h)) ?hs"
    "\<And>h. find_hash cn h pool' = (if h \<in> set ?hs \<and> bad h then None else find_hash cn h (transactionPool w))"
    using pool.remove_where [OF assms(1) hs(1), of ?B] by (auto simp: pool'_def bad_def)
  show thesis
  proof (rule that)
    show "clean cn J now height w = Some (filter bad ?hs,
        cleanRecentlyDeletedTransactions now (w\<lparr>transactionPool := pool', recentlyDeletedTransactions :=
          foldl (\<lambda>m h. if bad h then emplace_deleted h now m else m) (recentlyDeletedTransactions w) ?hs\<rparr>))"
      using clean_loop_eq [OF assms(1) hs, of J now height "[]"] by (simp add: clean_def bad_def pool'_def)
  qed (use pool' mem in \<open>auto simp: cleanRecentlyDeletedTransactions_def foldl_emplace intro!: filter_cong split: option.split\<close>)
qed

lemma find_hash_stored:
  assumes "pool_inv cn pool"
  shows "find_hash cn h pool = Some p \<longleftrightarrow> p \<in> set (transactions pool) \<and> pending_hash cn p = Some h"
proof
  show "find_hash cn h pool = Some p \<Longrightarrow> p \<in> set (transactions pool) \<and> pending_hash cn p = Some h"
    by (auto simp: find_hash_def find_Some_iff)
next
  assume p: "p \<in> set (transactions pool) \<and> pending_hash cn p = Some h"
  then obtain q where "find_hash cn h pool = Some q" using find_hash_None [of cn h pool] by (auto simp: checkIfTransactionPresent_def)
  moreover from this have "q \<in> set (transactions pool)" "pending_hash cn q = Some h" by (auto simp: find_hash_def find_Some_iff)
  ultimately show "find_hash cn h pool = Some p"
    using p assms inj_onD [of "pending_hash cn" "set (transactions pool)" p q] by (auto simp: pool_inv_def distinct_map)
qed

lemma stored_has_hash: "pool_inv cn pool \<Longrightarrow> p \<in> set (transactions pool) \<Longrightarrow> \<exists>h. pending_hash cn p = Some h"
  by (auto simp: pool_inv_def stored_ok_def)

lemma stored_iff: "pool_inv cn pool \<Longrightarrow> p \<in> set (transactions pool) \<longleftrightarrow> (\<exists>h. find_hash cn h pool = Some p)"
  using stored_has_hash [of cn pool p] by (auto simp: find_hash_stored)

lemma stored_hashes:
  assumes "pool_inv cn pool"
  shows "pending_hash cn ` {p \<in> set (transactions pool). B p} = Some ` {h. \<exists>p. find_hash cn h pool = Some p \<and> B p}"
proof (intro equalityI subsetI)
  fix e assume "e \<in> pending_hash cn ` {p \<in> set (transactions pool). B p}"
  then obtain p where p: "e = pending_hash cn p" "p \<in> set (transactions pool)" "B p" by blast
  moreover obtain h where "pending_hash cn p = Some h" using stored_has_hash [OF assms p(2)] by blast
  ultimately show "e \<in> Some ` {h. \<exists>p. find_hash cn h pool = Some p \<and> B p}" by (auto simp: find_hash_stored [OF assms])
next
  fix e assume "e \<in> Some ` {h. \<exists>p. find_hash cn h pool = Some p \<and> B p}"
  then obtain h p where "e = Some h" "find_hash cn h pool = Some p" "B p" by blast
  then have "e = pending_hash cn p" "p \<in> set (transactions pool)" "B p" by (auto simp: find_hash_stored [OF assms])
  then show "e \<in> pending_hash cn ` {p \<in> set (transactions pool). B p}" by blast
qed

text \<open>C32: Cleaning always returns and keeps the pool consistent; exactly the transactions that fail a condition are removed, their hashes are returned, and each of them is refused when it is pushed again.\<close>

theorem clean_correct:
  assumes "pool_inv cn (transactionPool w)"
  shows "\<exists>deleted w'. clean cn J now height w = Some (deleted, w') \<and> pool_inv cn (transactionPool w') \<and>
    set (transactions (transactionPool w')) =
      {p \<in> set (transactions (transactionPool w)). \<not> should_delete J now (timeout w) height p} \<and>
    set (map Some deleted) = pending_hash cn ` {p \<in> set (transactions (transactionPool w)). should_delete J now (timeout w) height p} \<and>
    (\<forall>h ct state time. h \<in> set deleted \<and> recentlyDeletedTransactions w h = None \<and> 0 < timeout w \<and> timeout w \<le> now \<and>
       map_sum id fst (getTransactionHash cn ct) = Inr h \<longrightarrow> wrapper_push cn time ct state w' = Inr (False, w'))"
proof -
  obtain w' where w': "clean cn J now height w = Some
      (filter (\<lambda>h. bad_entry J now (timeout w) height (find_hash cn h (transactionPool w))) (getTransactionHashes cn (transactionPool w)), w')"
    (is "_ = Some (?deleted, _)")
    "pool_inv cn (transactionPool w')"
    "getTransactionHashes cn (transactionPool w') = filter (\<lambda>h. \<not> bad_entry J now (timeout w) height (find_hash cn h (transactionPool w)))
       (getTransactionHashes cn (transactionPool w))"
    "\<And>h. find_hash cn h (transactionPool w') =
       (if bad_entry J now (timeout w) height (find_hash cn h (transactionPool w)) then None else find_hash cn h (transactionPool w))"
    "timeout w' = timeout w"
    "\<And>h. recentlyDeletedTransactions w' h =
       (case if recentlyDeletedTransactions w h = None \<and> bad_entry J now (timeout w) height (find_hash cn h (transactionPool w))
             then Some now else recentlyDeletedTransactions w h of
          None \<Rightarrow> None | Some t \<Rightarrow> if timeout w \<le> now - t then None else Some t)"
    by (rule clean_spec [OF assms, where J = J and now = now and height = height]) (rule that)
  have deleted: "h \<in> set ?deleted \<longleftrightarrow> (\<exists>p. find_hash cn h (transactionPool w) = Some p \<and> should_delete J now (timeout w) height p)" for h
    using pool.entries_lookup [OF assms, of h] by (auto simp: bad_entry_def split: option.split)
  have kept: "find_hash cn h (transactionPool w') = Some p \<longleftrightarrow>
      find_hash cn h (transactionPool w) = Some p \<and> \<not> should_delete J now (timeout w) height p" for h p
    by (auto simp: w'(4) bad_entry_def split: option.split)
  have "set (transactions (transactionPool w')) = {p \<in> set (transactions (transactionPool w)). \<not> should_delete J now (timeout w) height p}"
    by (auto simp: stored_iff [OF assms] stored_iff [OF w'(2)] kept)
  moreover have "set (map Some ?deleted) = pending_hash cn ` {p \<in> set (transactions (transactionPool w)). should_delete J now (timeout w) height p}"
    unfolding stored_hashes [OF assms] set_map by (rule arg_cong [of _ _ "image Some"]) (use deleted in blast)
  moreover have "wrapper_push cn time ct state w' = Inr (False, w')"
    if "h \<in> set ?deleted" "recentlyDeletedTransactions w h = None" "0 < timeout w" "timeout w \<le> now"
      "map_sum id fst (getTransactionHash cn ct) = Inr h" for h ct state time
  proof -
    have "bad_entry J now (timeout w) height (find_hash cn h (transactionPool w))" using that(1) by simp
    then have "isTransactionRecentlyDeleted w' h" using that(2-4) by (simp add: isTransactionRecentlyDeleted_def w'(5,6))
    then show ?thesis using that(5) by (auto simp: wrapper_push_def bind_e_def split: sum.splits)
  qed
  ultimately show ?thesis using w'(1,2) by (intro exI [of _ ?deleted] exI [of _ w'] conjI allI impI) (simp_all only:, blast)
qed

text \<open>An old transaction is deleted and then refused.\<close>

definition no_json :: "unit json_library" where
  "no_json = \<lparr>json_parse = (\<lambda>_. None), json_at_t = (\<lambda>_. None)\<rparr>"

definition sample_wrapper :: TransactionPoolCleanWrapper where
  "sample_wrapper = \<lparr>transactionPool = \<lparr>poolState = {replicate 32 5}, transactions = [spend_pending id]\<rparr>,
     recentlyDeletedTransactions = Map.empty, timeout = 86400\<rparr>"

lemma clean_correct_witness:
  "\<exists>deleted w'. clean id no_json 100000 0 sample_wrapper = Some (deleted, w') \<and> transactions (transactionPool w') = [] \<and> deleted \<noteq> []"
proof -
  have inv: "pool_inv id (transactionPool sample_wrapper)"
    using pushTransaction_inv [OF pool_inv_empty spend_tx_push_ok spend_tx_pushed] by (simp add: sample_wrapper_def)
  have bad: "should_delete no_json 100000 (timeout sample_wrapper) 0 (spend_pending id)"
    by (simp add: should_delete_def sample_wrapper_def spend_pending_def word_le_nat_alt)
  have "transactions (transactionPool sample_wrapper) = [spend_pending id]" by (simp add: sample_wrapper_def)
  then have sets: "{p \<in> set (transactions (transactionPool sample_wrapper)). \<not> should_delete no_json 100000 (timeout sample_wrapper) 0 p} = {}"
    "{p \<in> set (transactions (transactionPool sample_wrapper)). should_delete no_json 100000 (timeout sample_wrapper) 0 p} = {spend_pending id}"
    using bad by auto
  from clean_correct [OF inv, of no_json 100000 0, unfolded sets] obtain deleted w'
    where "clean id no_json 100000 0 sample_wrapper = Some (deleted, w')" "set (transactions (transactionPool w')) = {}"
      "set (map Some deleted) = pending_hash id ` {spend_pending id}"
    by (elim exE conjE) (rule that)
  then show ?thesis by (intro exI [of _ deleted] exI [of _ w'] conjI) auto
qed

end
