(* ===== verification/Tx_Validation.thy ===== *)
theory Tx_Validation
  imports Pool_Cleaner Currency
begin

text \<open>
  The checks of a transaction in \<^verbatim>\<open>src/mevacoin_core/core.cpp\<close>, up to its way into the pool.  The curve operations, the
  hash function and the block chain, which the code reaches through the interface \<^verbatim>\<open>IBlockchainCache\<close>, are
  parameters.  The success code is \<open>Inr\<close>; on an error the callers use neither the fee nor the set of key
  images.
\<close>

section \<open>Interfaces\<close>

datatype TransactionValidationError =
    EMPTY_INPUTS | INPUT_UNKNOWN_TYPE | INPUT_EMPTY_OUTPUT_USAGE | INPUT_INVALID_DOMAIN_KEYIMAGES
  | INPUT_IDENTICAL_KEYIMAGES | INPUT_IDENTICAL_OUTPUT_INDEXES | INPUT_KEYIMAGE_ALREADY_SPENT
  | INPUT_INVALID_GLOBAL_INDEX | INPUT_SPEND_LOCKED_OUT | INPUT_INVALID_SIGNATURES | INPUT_WRONG_SIGNATURES_COUNT
  | INPUTS_AMOUNT_OVERFLOW | INPUT_WRONG_COUNT | INPUT_UNEXPECTED_TYPE | BASE_INPUT_WRONG_BLOCK_INDEX
  | OUTPUT_ZERO_AMOUNT | OUTPUT_INVALID_KEY | OUTPUT_INVALID_REQUIRED_SIGNATURES_COUNT | OUTPUT_UNKNOWN_TYPE
  | OUTPUTS_AMOUNT_OVERFLOW | WRONG_AMOUNT | WRONG_TRANSACTION_UNLOCK_TIME | INVALID_MIXIN | EXTRA_TOO_LARGE
  | BASE_INVALID_SIGNATURES_COUNT | INPUT_INVALID_SIGNATURES_COUNT

datatype ExtractOutputKeysResult = SUCCESS | INVALID_GLOBAL_INDEX | OUTPUT_LOCKED

record crypto_ops =
  cn_fast_hash :: "bytes \<Rightarrow> bytes"
  check_key :: "bytes \<Rightarrow> bool"
  scalarmultKey :: "bytes \<Rightarrow> bytes \<Rightarrow> bytes"
  checkRingSignature :: "bytes \<Rightarrow> bytes \<Rightarrow> bytes list \<Rightarrow> bytes list \<Rightarrow> bool"

record IBlockchainCache =
  checkIfSpent :: "bytes \<Rightarrow> u32 \<Rightarrow> bool"
  extractKeyOutputKeys :: "u64 \<Rightarrow> u32 \<Rightarrow> u32 list \<Rightarrow> ExtractOutputKeysResult \<times> bytes list"

section \<open>Checks without the block chain\<close>

text \<open>The neutral element and the order of the base point, in the encoding of key images.\<close>

definition key_image_I :: bytes where
  "key_image_I = 1 # replicate 31 0"

definition key_image_L :: bytes where
  "key_image_L = [0xed, 0xd3, 0xf5, 0x5c, 0x1a, 0x63, 0x12, 0x58, 0xd6, 0x9c, 0xf7, 0xa2, 0xde, 0xf9, 0xde, 0x14] @
     replicate 15 0 @ [0x10]"

text \<open>An output has one kind of target, so the code for other kinds has no case here.\<close>

fun semantic_outputs :: "crypto_ops \<Rightarrow> u64 \<Rightarrow> TransactionOutput list \<Rightarrow> TransactionValidationError + u64" where
  "semantic_outputs C summaryOutputAmount [] = Inr summaryOutputAmount"
| "semantic_outputs C summaryOutputAmount (output # outs) =
     (if out_amount output = 0 then Inl OUTPUT_ZERO_AMOUNT
      else if \<not> check_key C (out_key (target output)) then Inl OUTPUT_INVALID_KEY
      else if -1 - out_amount output < summaryOutputAmount then Inl OUTPUTS_AMOUNT_OVERFLOW
      else semantic_outputs C (summaryOutputAmount + out_amount output) outs)"

fun semantic_inputs :: "crypto_ops \<Rightarrow> bytes set \<Rightarrow> u64 \<Rightarrow> TransactionInput list \<Rightarrow> TransactionValidationError + u64" where
  "semantic_inputs C ki summaryInputAmount [] = Inr summaryInputAmount"
| "semantic_inputs C ki summaryInputAmount (BaseInput _ # ins) = Inl INPUT_UNKNOWN_TYPE"
| "semantic_inputs C ki summaryInputAmount (KeyInput amount indexes im # ins) =
     (if im \<in> ki then Inl INPUT_IDENTICAL_KEYIMAGES
      else if indexes = [] then Inl INPUT_EMPTY_OUTPUT_USAGE
      else if scalarmultKey C im key_image_L \<noteq> key_image_I then Inl INPUT_INVALID_DOMAIN_KEYIMAGES
      else if 0 \<in> set (tl indexes) then Inl INPUT_IDENTICAL_OUTPUT_INDEXES
      else if -1 - amount < summaryInputAmount then Inl INPUTS_AMOUNT_OVERFLOW
      else semantic_inputs C (insert im ki) (summaryInputAmount + amount) ins)"

definition validateSemantic :: "crypto_ops \<Rightarrow> 'z TransactionPrefix_scheme \<Rightarrow> TransactionValidationError + u64" where
  "validateSemantic C tx =
     (if inputs tx = [] then Inl EMPTY_INPUTS
      else case semantic_outputs C 0 (outputs tx) of
             Inl e \<Rightarrow> Inl e
           | Inr summaryOutputAmount \<Rightarrow>
               (case semantic_inputs C {} 0 (inputs tx) of
                  Inl e \<Rightarrow> Inl e
                | Inr summaryInputAmount \<Rightarrow>
                    if summaryInputAmount < summaryOutputAmount then Inl WRONG_AMOUNT
                    else Inr (summaryInputAmount - summaryOutputAmount)))"

section \<open>Checks against the block chain\<close>

text \<open>
  One input outside the checkpoint zone.  The global indices are the sums of the offsets, as computed by
  \<open>relativeOutputOffsetsToAbsolute\<close>.  A missing vector of signatures is \<open>None\<close>.
\<close>

definition validate_key_input ::
  "crypto_ops \<Rightarrow> IBlockchainCache \<Rightarrow> u32 \<Rightarrow> CachedTransaction \<Rightarrow> nat \<Rightarrow> u64 \<Rightarrow> u32 list \<Rightarrow> bytes \<Rightarrow>
   (TransactionValidationError + unit) option" where
  "validate_key_input C cache index ct inputIndex amount indexes im =
     (if checkIfSpent cache im index then Some (Inl INPUT_KEYIMAGE_ALREADY_SPENT)
      else case extractKeyOutputKeys cache amount index (relativeOutputOffsetsToAbsolute indexes) of
        (INVALID_GLOBAL_INDEX, _) \<Rightarrow> Some (Inl INPUT_INVALID_GLOBAL_INDEX)
      | (OUTPUT_LOCKED, _) \<Rightarrow> Some (Inl INPUT_SPEND_LOCKED_OUT)
      | (SUCCESS, outputKeys) \<Rightarrow>
          if length (signatures (transaction ct)) \<le> inputIndex then None
          else let sigs = signatures (transaction ct) ! inputIndex
               in if TRANSACTION_SIGNATURE_COUNT_VALIDATION_HEIGHT \<le> ucast index \<and> length outputKeys \<noteq> length sigs
                  then Some (Inl INPUT_INVALID_SIGNATURES_COUNT)
                  else if \<not> checkRingSignature C (fst (getTransactionPrefixHash (cn_fast_hash C) ct)) im outputKeys sigs
                  then Some (Inl INPUT_INVALID_SIGNATURES)
                  else Some (Inr ()))"

fun validate_inputs ::
  "crypto_ops \<Rightarrow> checkpoints \<Rightarrow> IBlockchainCache \<Rightarrow> u32 \<Rightarrow> CachedTransaction \<Rightarrow> nat \<Rightarrow> TransactionInput list \<Rightarrow>
   TransactionValidatorState \<Rightarrow> (TransactionValidationError + TransactionValidatorState) option" where
  "validate_inputs C points cache index ct inputIndex [] state = Some (Inr state)"
| "validate_inputs C points cache index ct inputIndex (BaseInput _ # ins) state = Some (Inl INPUT_UNKNOWN_TYPE)"
| "validate_inputs C points cache index ct inputIndex (KeyInput amount indexes im # ins) state =
     (if im \<in> state then Some (Inl INPUT_KEYIMAGE_ALREADY_SPENT)
      else if isInCheckpointZone points (index + 1)
      then validate_inputs C points cache index ct (inputIndex + 1) ins (insert im state)
      else do {
        result \<leftarrow> validate_key_input C cache index ct inputIndex amount indexes im;
        case result of
          Inl e \<Rightarrow> Some (Inl e)
        | Inr _ \<Rightarrow> validate_inputs C points cache index ct (inputIndex + 1) ins (insert im state) })"

definition validateTransaction ::
  "crypto_ops \<Rightarrow> checkpoints \<Rightarrow> CachedTransaction \<Rightarrow> TransactionValidatorState \<Rightarrow> IBlockchainCache \<Rightarrow> u32 \<Rightarrow>
   (TransactionValidationError + (u64 \<times> TransactionValidatorState)) option" where
  "validateTransaction C points ct state cache index =
     (case validateSemantic C (transaction ct) of
        Inl e \<Rightarrow> Some (Inl e)
      | Inr fee \<Rightarrow> map_option (map_sum id (Pair fee))
          (validate_inputs C points cache index ct 0 (inputs (transaction ct)) state))"

section \<open>The way into the pool\<close>

text \<open>The members of \<^verbatim>\<open>Core\<close> that the checks read.\<close>

record Core_view =
  core_currency :: Currency
  core_checkpoints :: checkpoints
  core_leaf :: IBlockchainCache
  core_top :: u32
  blockMedianSize :: u64

definition getMaximumTransactionAllowedSize :: "u64 \<Rightarrow> Currency \<Rightarrow> u64" where
  "getMaximumTransactionAllowedSize blockSizeMedian c = blockSizeMedian * 2 - m_minerTxBlobReservedSize c"

text \<open>A call that does not return, by an exception or by undefined behaviour, is \<open>None\<close>.\<close>

definition returned :: "'e + 'a \<Rightarrow> 'a option" where
  "returned r = (case r of Inl _ \<Rightarrow> None | Inr x \<Rightarrow> Some x)"

definition isTransactionValidForPool ::
  "crypto_ops \<Rightarrow> Core_view \<Rightarrow> CachedTransaction \<Rightarrow> (bool \<times> TransactionValidatorState) option" where
  "isTransactionValidForPool C core ct =
     do {
       (_, ct) \<leftarrow> returned (getTransactionHash (cn_fast_hash C) ct);
       if validate_transactions [transaction ct] (ucast (core_top core)) \<noteq> Inr () then Some (False, {})
       else if unat MAX_EXTRA_SIZE_POOL \<le> length (extra (transaction ct)) then Some (False, {})
       else do {
         result \<leftarrow> validateTransaction C (core_checkpoints core) ct {} (core_leaf core) (core_top core);
         case result of
           Inl _ \<Rightarrow> Some (False, {})
         | Inr (fee, state) \<Rightarrow> do {
             (ba, ct) \<leftarrow> returned (getTransactionBinaryArray ct);
             let sz = (of_nat (length ba) :: u64);
             if getMaximumTransactionAllowedSize (blockMedianSize core) (core_currency core) < sz then Some (False, state)
             else let isFusion = (fee = 0 \<and> isFusionTransaction (core_currency core) (transaction ct) sz (core_top core))
                  in if \<not> isFusion \<and> fee < m_mininumFee (core_currency core) then Some (False, state)
                     else Some (True, state)
           }
       }
     }"

definition addTransactionToPool ::
  "crypto_ops \<Rightarrow> Core_view \<Rightarrow> u64 \<Rightarrow> CachedTransaction \<Rightarrow> TransactionPoolCleanWrapper \<Rightarrow>
   (bool \<times> TransactionPoolCleanWrapper) option" where
  "addTransactionToPool C core now ct w =
     do {
       (h, ct) \<leftarrow> returned (getTransactionHash (cn_fast_hash C) ct);
       if checkIfTransactionPresent (cn_fast_hash C) h (transactionPool w) then Some (False, w)
       else do {
         (valid, validatorState) \<leftarrow> isTransactionValidForPool C core ct;
         if \<not> valid then Some (False, w)
         else returned (wrapper_push (cn_fast_hash C) now ct validatorState w)
       }
     }"

definition addTransactionToPool_bytes ::
  "crypto_ops \<Rightarrow> Core_view \<Rightarrow> u64 \<Rightarrow> bytes \<Rightarrow> TransactionPoolCleanWrapper \<Rightarrow>
   (bool \<times> TransactionPoolCleanWrapper) option" where
  "addTransactionToPool_bytes C core now ba w =
     (case fromBinaryArray read_Transaction ba of
        Inl _ \<Rightarrow> Some (False, w)
      | Inr tx \<Rightarrow>
          do {
            (_, ct) \<leftarrow> returned (getTransactionHash (cn_fast_hash C) (CachedTransaction_of tx));
            addTransactionToPool C core now ct w
          })"

section \<open>What the checks mean\<close>

lemma max_minus_less: "(-1 - a < s) \<longleftrightarrow> 2 ^ 64 \<le> unat s + unat (a :: u64)"
proof -
  have "unat (-1 - a) = 2 ^ 64 - 1 - unat a"
    using unat_sub [of a "-1"] word_order.extremum [of a] by (simp add: unsigned_minus_1_eq_mask mask_eq_exp_minus_1)
  then show ?thesis using unat_lt_u64 [of a] by (simp add: word_less_nat_alt del: unat_lt_u64 unat_lt_u64_numeral) linarith
qed

definition output_ok :: "crypto_ops \<Rightarrow> TransactionOutput \<Rightarrow> bool" where
  "output_ok C out \<longleftrightarrow> out_amount out \<noteq> 0 \<and> check_key C (out_key (target out))"

definition input_ok :: "crypto_ops \<Rightarrow> TransactionInput \<Rightarrow> bool" where
  "input_ok C i \<longleftrightarrow> is_KeyInput i \<and> outputIndexes i \<noteq> [] \<and> 0 \<notin> set (tl (outputIndexes i)) \<and>
     scalarmultKey C (keyImage i) key_image_L = key_image_I"

abbreviation input_sum :: "'z TransactionPrefix_scheme \<Rightarrow> nat" where
  "input_sum tx \<equiv> (\<Sum>i\<leftarrow>inputs tx. unat (in_amount i))"

abbreviation output_sum :: "'z TransactionPrefix_scheme \<Rightarrow> nat" where
  "output_sum tx \<equiv> (\<Sum>out\<leftarrow>outputs tx. unat (out_amount out))"

lemma semantic_outputs_iff:
  "semantic_outputs C s outs = Inr t \<longleftrightarrow>
     (\<forall>out \<in> set outs. output_ok C out) \<and> unat t = unat s + (\<Sum>out\<leftarrow>outs. unat (out_amount out))"
proof (induction outs arbitrary: s)
  case Nil
  then show ?case by (auto simp: word_unat_eq_iff)
next
  case (Cons out outs)
  show ?case
  proof (cases "2 ^ 64 \<le> unat s + unat (out_amount out)")
    case True
    then have "unat t \<noteq> unat s + (unat (out_amount out) + R)" for R using unat_lt_u64 [of t] by linarith
    then show ?thesis using True max_minus_less [of "out_amount out" s] by (auto simp: output_ok_def)
  next
    case False
    then have "unat (s + out_amount out) = unat s + unat (out_amount out)" by (simp add: unat_add_no_overflow)
    then show ?thesis using False max_minus_less [of "out_amount out" s] Cons.IH by (auto simp: output_ok_def)
  qed
qed

lemma semantic_inputs_iff:
  "semantic_inputs C ki s ins = Inr t \<longleftrightarrow>
     (\<forall>i \<in> set ins. input_ok C i) \<and> distinct (map keyImage ins) \<and> keyImage ` set ins \<inter> ki = {} \<and>
     unat t = unat s + (\<Sum>i\<leftarrow>ins. unat (in_amount i))"
proof (induction ins arbitrary: s ki)
  case Nil
  then show ?case by (auto simp: word_unat_eq_iff)
next
  case (Cons i ins)
  show ?case
  proof (cases i)
    case (BaseInput index)
    then show ?thesis by (simp add: input_ok_def)
  next
    case (KeyInput amount indexes im)
    show ?thesis
    proof (cases "2 ^ 64 \<le> unat s + unat amount")
      case True
      then have "unat t \<noteq> unat s + (unat amount + R)" for R using unat_lt_u64 [of t] by linarith
      then show ?thesis using True max_minus_less [of amount s] by (auto simp: input_ok_def KeyInput)
    next
      case False
      then have "unat (s + amount) = unat s + unat amount" by (simp add: unat_add_no_overflow)
      then show ?thesis using False max_minus_less [of amount s] Cons.IH by (auto simp: input_ok_def KeyInput)
    qed
  qed
qed

lemma validateSemantic_Inr:
  "validateSemantic C tx = Inr fee \<longleftrightarrow>
     inputs tx \<noteq> [] \<and> (\<forall>i \<in> set (inputs tx). input_ok C i) \<and> distinct (map keyImage (inputs tx)) \<and>
     (\<forall>out \<in> set (outputs tx). output_ok C out) \<and>
     input_sum tx < 2 ^ 64 \<and> output_sum tx + unat fee = input_sum tx"
  (is "?l \<longleftrightarrow> ?r")
proof
  assume ?l
  then obtain so si where "inputs tx \<noteq> []" and so: "semantic_outputs C 0 (outputs tx) = Inr so"
    and si: "semantic_inputs C {} 0 (inputs tx) = Inr si" and le: "so \<le> si" and fee: "fee = si - so"
    by (auto simp: validateSemantic_def not_less split: if_splits sum.splits)
  moreover have "unat fee = unat si - unat so" unfolding fee using le by (rule unat_sub)
  ultimately show ?r using unat_lt_u64 [of si] by (auto simp: semantic_outputs_iff semantic_inputs_iff word_le_nat_alt)
next
  assume r: ?r
  then have sums: "output_sum tx < 2 ^ 64" "input_sum tx < 2 ^ 64" by auto
  let ?so = "of_nat (output_sum tx) :: u64" and ?si = "of_nat (input_sum tx) :: u64"
  have u: "unat ?so = output_sum tx" "unat ?si = input_sum tx" using sums unat_of_nat_u64 by blast+
  have "semantic_outputs C 0 (outputs tx) = Inr ?so" "semantic_inputs C {} 0 (inputs tx) = Inr ?si"
    using r u by (simp_all add: semantic_outputs_iff semantic_inputs_iff)
  moreover have le: "?so \<le> ?si" using r u by (simp add: word_le_nat_alt)
  moreover have "unat fee = input_sum tx - output_sum tx" using r by linarith
  then have "fee = ?si - ?so" using unat_sub [OF le] u by (simp add: word_unat_eq_iff)
  ultimately show ?l using r by (simp add: validateSemantic_def not_less)
qed

text \<open>The input at a position of the transaction passes the checks against the chain.\<close>

definition input_verified :: "crypto_ops \<Rightarrow> IBlockchainCache \<Rightarrow> u32 \<Rightarrow> Transaction \<Rightarrow> nat \<Rightarrow> TransactionInput \<Rightarrow> bool" where
  "input_verified C cache index tx j i \<longleftrightarrow>
     \<not> checkIfSpent cache (keyImage i) index \<and>
     (\<exists>keys. extractKeyOutputKeys cache (in_amount i) index (relativeOutputOffsetsToAbsolute (outputIndexes i)) = (SUCCESS, keys) \<and>
       (TRANSACTION_SIGNATURE_COUNT_VALIDATION_HEIGHT \<le> ucast index \<longrightarrow> length keys = length (signatures tx ! j)) \<and>
       checkRingSignature C (cn_fast_hash C (write_TransactionPrefix tx)) (keyImage i) keys (signatures tx ! j))"

lemma validate_key_input_iff:
  assumes "cache_ok (cn_fast_hash C) ct" "j < length (signatures (transaction ct))"
  shows "validate_key_input C cache index ct j amount indexes im = Some (Inr ()) \<longleftrightarrow>
      input_verified C cache index (transaction ct) j (KeyInput amount indexes im)"
    "validate_key_input C cache index ct j amount indexes im \<noteq> None"
  using assms(2) getTransactionPrefixHash_ok [OF assms(1)]
  by (auto simp: validate_key_input_def input_verified_def Let_def split: prod.split ExtractOutputKeysResult.split)

lemma validate_inputs_iff:
  assumes "cache_ok (cn_fast_hash C) ct" "j + length ins \<le> length (signatures (transaction ct))"
  shows "validate_inputs C points cache index ct j ins state = Some (Inr state') \<longleftrightarrow>
      (\<forall>i \<in> set ins. is_KeyInput i) \<and> distinct (map keyImage ins) \<and> keyImage ` set ins \<inter> state = {} \<and>
      state' = state \<union> keyImage ` set ins \<and>
      (isInCheckpointZone points (index + 1) \<or>
       (\<forall>k < length ins. input_verified C cache index (transaction ct) (j + k) (ins ! k)))"
    and "validate_inputs C points cache index ct j ins state \<noteq> None"
proof -
  have "validate_inputs C points cache index ct j ins state \<noteq> None \<and>
    (validate_inputs C points cache index ct j ins state = Some (Inr state') \<longleftrightarrow>
      (\<forall>i \<in> set ins. is_KeyInput i) \<and> distinct (map keyImage ins) \<and> keyImage ` set ins \<inter> state = {} \<and>
      state' = state \<union> keyImage ` set ins \<and>
      (isInCheckpointZone points (index + 1) \<or>
       (\<forall>k < length ins. input_verified C cache index (transaction ct) (j + k) (ins ! k))))"
    using assms(2)
  proof (induction ins arbitrary: j state)
    case (Cons i ins)
    show ?case
    proof (cases i)
      case (KeyInput amount indexes im)
      have j: "j < length (signatures (transaction ct))" using Cons.prems by simp
      obtain r where r: "validate_key_input C cache index ct j amount indexes im = Some r"
        using validate_key_input_iff(2) [OF assms(1) j] by blast
      have ok: "r = Inr () \<longleftrightarrow> input_verified C cache index (transaction ct) j i"
        unfolding KeyInput validate_key_input_iff(1) [OF assms(1) j, symmetric] r by simp
      note IH = Cons.IH [of "Suc j" "insert im state"]
      have split: "(\<forall>k < length (i # ins). input_verified C cache index (transaction ct) (j + k) ((i # ins) ! k)) \<longleftrightarrow>
          input_verified C cache index (transaction ct) j i \<and>
          (\<forall>k < length ins. input_verified C cache index (transaction ct) (Suc j + k) (ins ! k))"
        by (simp add: All_less_Suc2)
      show ?thesis unfolding split using IH Cons.prems ok r
        by (cases r) (auto simp: KeyInput)
    qed simp
  qed auto
  then show "validate_inputs C points cache index ct j ins state = Some (Inr state') \<longleftrightarrow>
      (\<forall>i \<in> set ins. is_KeyInput i) \<and> distinct (map keyImage ins) \<and> keyImage ` set ins \<inter> state = {} \<and>
      state' = state \<union> keyImage ` set ins \<and>
      (isInCheckpointZone points (index + 1) \<or>
       (\<forall>k < length ins. input_verified C cache index (transaction ct) (j + k) (ins ! k)))"
    and "validate_inputs C points cache index ct j ins state \<noteq> None" by blast+
qed

section \<open>Admission to the pool\<close>

definition fee_sufficient :: "Core_view \<Rightarrow> Transaction \<Rightarrow> u64 \<Rightarrow> u64 \<Rightarrow> bool" where
  "fee_sufficient core tx sz fee \<longleftrightarrow>
     m_mininumFee (core_currency core) \<le> fee \<or> fee = 0 \<and> isFusionTransaction (core_currency core) tx sz (core_top core)"

definition pool_valid :: "crypto_ops \<Rightarrow> Core_view \<Rightarrow> Transaction \<Rightarrow> nat \<Rightarrow> bool" where
  "pool_valid C core tx len \<longleftrightarrow>
     validate_transactions [tx] (ucast (core_top core)) = Inr () \<and> length (extra tx) < 2200 \<and>
     (\<exists>fee. validateSemantic C tx = Inr fee \<and> fee_sufficient core tx (of_nat len) fee) \<and>
     (isInCheckpointZone (core_checkpoints core) (core_top core + 1) \<or>
      (\<forall>k < length (inputs tx). input_verified C (core_leaf core) (core_top core) tx k (inputs tx ! k))) \<and>
     of_nat len \<le> getMaximumTransactionAllowedSize (blockMedianSize core) (core_currency core)"

lemma semantic_key_images:
  assumes "validateSemantic C tx = Inr fee"
  shows "key_images tx = map keyImage (inputs tx)" "distinct (key_images tx)"
proof -
  have "filter is_KeyInput (inputs tx) = inputs tx"
    using assms by (auto simp: validateSemantic_Inr input_ok_def filter_id_conv)
  then show "key_images tx = map keyImage (inputs tx)" "distinct (key_images tx)"
    using assms by (simp_all add: validateSemantic_Inr)
qed

lemma semantic_signatures:
  assumes "validateSemantic C tx = Inr fee" "valid_Transaction tx"
  shows "length (signatures tx) = length (inputs tx)"
proof -
  have "\<not> single_base_input (inputs tx)"
    using assms(1) by (auto simp: validateSemantic_Inr input_ok_def single_base_input_def)
  then show ?thesis using assms(2) by (auto simp: valid_Transaction_def valid_signatures_def dest: list_all2_lengthD)
qed

lemma validateTransaction_state:
  assumes "cache_ok (cn_fast_hash C) ct" "valid_Transaction (transaction ct)"
  shows "\<exists>r. validateTransaction C points ct state0 cache index = Some r \<and>
    (\<forall>fee state. r = Inr (fee, state) \<longleftrightarrow>
       validateSemantic C (transaction ct) = Inr fee \<and> set (key_images (transaction ct)) \<inter> state0 = {} \<and>
       state = state0 \<union> set (key_images (transaction ct)) \<and>
       (isInCheckpointZone points (index + 1) \<or>
        (\<forall>k < length (inputs (transaction ct)). input_verified C cache index (transaction ct) k (inputs (transaction ct) ! k))))"
proof (cases "validateSemantic C (transaction ct)")
  case (Inl e)
  then show ?thesis by (simp add: validateTransaction_def)
next
  case (Inr fee)
  let ?tx = "transaction ct"
  have len: "0 + length (inputs ?tx) \<le> length (signatures ?tx)" using semantic_signatures [OF Inr assms(2)] by simp
  obtain r where r: "validate_inputs C points cache index ct 0 (inputs ?tx) state0 = Some r"
    using validate_inputs_iff(2) [OF assms(1) len] by blast
  have "r = Inr state \<longleftrightarrow> set (key_images ?tx) \<inter> state0 = {} \<and> state = state0 \<union> set (key_images ?tx) \<and>
      (isInCheckpointZone points (index + 1) \<or> (\<forall>k < length (inputs ?tx). input_verified C cache index ?tx k (inputs ?tx ! k)))" for state
    using validate_inputs_iff(1) [OF assms(1) len, of points cache index state0 state] r semantic_key_images [OF Inr] Inr
    by (auto simp: validateSemantic_Inr input_ok_def)
  then show ?thesis using r by (cases r) (auto simp: validateTransaction_def Inr)
qed

lemma validateTransaction_eq:
  assumes "cache_ok (cn_fast_hash C) ct" "valid_Transaction (transaction ct)"
  shows "\<exists>r. validateTransaction C points ct {} cache index = Some r \<and>
    (\<forall>fee state. r = Inr (fee, state) \<longleftrightarrow>
       validateSemantic C (transaction ct) = Inr fee \<and> state = set (key_images (transaction ct)) \<and>
       (isInCheckpointZone points (index + 1) \<or>
        (\<forall>k < length (inputs (transaction ct)). input_verified C cache index (transaction ct) k (inputs (transaction ct) ! k))))"
  using validateTransaction_state [OF assms, of points "{}" cache index] by simp

lemma isTransactionValidForPool_eq:
  assumes "cache_ok (cn_fast_hash C) ct" "valid_Transaction (transaction ct)" "write_Transaction (transaction ct) = Inr ba"
  shows "\<exists>valid state. isTransactionValidForPool C core ct = Some (valid, state) \<and>
    (valid \<longleftrightarrow> pool_valid C core (transaction ct) (length ba)) \<and> (valid \<longrightarrow> state = set (key_images (transaction ct)))"
proof -
  obtain h ct' where hash: "getTransactionHash (cn_fast_hash C) ct = Inr (h, ct')"
    and ct': "cache_ok (cn_fast_hash C) ct'" "transaction ct' = transaction ct"
    using getTransactionHash_ok [OF assms(1)] assms(3) by (auto split: sum.splits)
  obtain ct'' where array: "getTransactionBinaryArray ct' = Inr (ba, ct'')" and ct'': "transaction ct'' = transaction ct"
    using getTransactionBinaryArray_ok [OF ct'(1)] assms(3) ct'(2) by (auto split: sum.splits)
  obtain r where r: "validateTransaction C (core_checkpoints core) ct' {} (core_leaf core) (core_top core) = Some r"
    "\<And>fee state. r = Inr (fee, state) \<longleftrightarrow>
       validateSemantic C (transaction ct) = Inr fee \<and> state = set (key_images (transaction ct)) \<and>
       (isInCheckpointZone (core_checkpoints core) (core_top core + 1) \<or>
        (\<forall>k < length (inputs (transaction ct)). input_verified C (core_leaf core) (core_top core) (transaction ct) k (inputs (transaction ct) ! k)))"
    using validateTransaction_eq [OF ct'(1)] assms(2) unfolding ct'(2) by metis
  let ?m = "validate_transactions [transaction ct] (ucast (core_top core)) = Inr ()" and ?e = "length (extra (transaction ct)) < 2200"
  show ?thesis
  proof (cases "?m \<and> ?e \<and> (\<exists>fee state. r = Inr (fee, state))")
    case False
    then have "isTransactionValidForPool C core ct = Some (False, {})"
      by (cases r) (auto simp: isTransactionValidForPool_def hash returned_def ct' r(1) MAX_EXTRA_SIZE_POOL_def)
    moreover have "\<not> pool_valid C core (transaction ct) (length ba)" using False r(2) unfolding pool_valid_def by blast
    ultimately show ?thesis by blast
  next
    case True
    then obtain fee state where fs: "r = Inr (fee, state)" by blast
    have "isTransactionValidForPool C core ct = Some (pool_valid C core (transaction ct) (length ba), state)"
      using True r(2) [of fee state] fs
      by (auto simp: isTransactionValidForPool_def hash returned_def ct' r(1) array ct'' MAX_EXTRA_SIZE_POOL_def
          pool_valid_def fee_sufficient_def Let_def not_less)
    moreover have "state = set (key_images (transaction ct))" using r(2) fs by blast
    ultimately show ?thesis by blast
  qed
qed

lemma wrapper_push_eq:
  assumes "pool_inv cn (transactionPool w)" "push_ok cn ct state" "write_Transaction (transaction ct) = Inr ba"
  shows "\<exists>ok w'. wrapper_push cn now ct state w = Inr (ok, w') \<and> pool_inv cn (transactionPool w') \<and> (\<not> ok \<longrightarrow> w' = w) \<and>
    (ok \<longleftrightarrow> \<not> isTransactionRecentlyDeleted w (cn ba) \<and> \<not> checkIfTransactionPresent cn (cn ba) (transactionPool w) \<and>
       state \<inter> poolState (transactionPool w) = {})"
proof -
  have ct: "cache_ok cn ct" using assms(2) by (simp add: push_ok_def)
  obtain ct' where hash: "getTransactionHash cn ct = Inr (cn ba, ct')" and ct': "cache_ok cn ct'" "transaction ct' = transaction ct"
    "transactionHash ct' = Some (cn ba)"
    using getTransactionHash_ok [OF ct] assms(3) by (auto split: sum.splits)
  have push_ok': "push_ok cn ct' state" using assms(2) ct' by (simp add: push_ok_def)
  have hash': "getTransactionHash cn ct' = Inr (cn ba, ct')" by (simp add: getTransactionHash_def ct'(3))
  have "\<exists>ok pool'. pushTransaction cn now ct' state (transactionPool w) = Inr (ok, pool')"
    by (auto simp: pushTransaction_def bind_e_def hash' Let_def)
  then obtain ok pool' where push: "pushTransaction cn now ct' state (transactionPool w) = Inr (ok, pool')" by blast
  have ok: "ok \<longleftrightarrow> \<not> checkIfTransactionPresent cn (cn ba) (transactionPool w) \<and> state \<inter> poolState (transactionPool w) = {}"
    "\<not> ok \<Longrightarrow> pool' = transactionPool w"
    using push by (auto simp: pushTransaction_def bind_e_def hash' Let_def hasIntersections_def split: if_splits)
  note pushTransaction_inv [OF assms(1) push_ok' push]
  then show ?thesis using ok assms(1) by (auto simp: wrapper_push_def bind_e_def hash push)
qed

text \<open>C8: A transaction that arrives as bytes is added to the pool exactly when it can be read, it passes the checks of ring sizes, extra size, structure, fee and size, its inputs are unspent with valid ring signatures (below the last checkpoint this is trusted), and neither its hash nor any of its key images is in the pool; in every case the call returns, the pool stays consistent, and a refusal leaves it unchanged.\<close>

theorem addTransactionToPool_iff:
  assumes "pool_inv (cn_fast_hash C) (transactionPool w)" "length ba < 2 ^ 64"
  shows "\<exists>ok w'. addTransactionToPool_bytes C core now ba w = Some (ok, w') \<and>
    pool_inv (cn_fast_hash C) (transactionPool w') \<and> (\<not> ok \<longrightarrow> w' = w) \<and>
    (ok \<longleftrightarrow> (\<exists>tx. fromBinaryArray read_Transaction ba = Inr tx \<and> pool_valid C core tx (length ba) \<and>
       \<not> checkIfTransactionPresent (cn_fast_hash C) (cn_fast_hash C ba) (transactionPool w) \<and>
       \<not> isTransactionRecentlyDeleted w (cn_fast_hash C ba) \<and>
       set (key_images tx) \<inter> poolState (transactionPool w) = {}))"
proof (cases "fromBinaryArray read_Transaction ba")
  case (Inl e)
  then show ?thesis using assms(1) by (intro exI [of _ False] exI [of _ w]) (simp add: addTransactionToPool_bytes_def)
next
  case (Inr tx)
  let ?cn = "cn_fast_hash C"
  have tx: "valid_Transaction tx" "write_Transaction tx = Inr ba" using Inr by (simp_all add: fromBinaryArray_Transaction)
  have new: "transaction (CachedTransaction_of tx) = tx" by (simp add: CachedTransaction_of_def)
  obtain ct where hash: "getTransactionHash ?cn (CachedTransaction_of tx) = Inr (?cn ba, ct)"
    and ct: "cache_ok ?cn ct" "transaction ct = tx" "transactionHash ct = Some (?cn ba)"
    using getTransactionHash_ok [OF cache_ok_new [of ?cn tx]] tx(2) new by (auto split: sum.splits)
  have hash': "getTransactionHash ?cn ct = Inr (?cn ba, ct)" by (simp add: getTransactionHash_def ct(3))
  obtain valid state where valid: "isTransactionValidForPool C core ct = Some (valid, state)"
    "valid \<longleftrightarrow> pool_valid C core tx (length ba)" "valid \<Longrightarrow> state = set (key_images tx)"
    using isTransactionValidForPool_eq [OF ct(1), of ba core] tx ct(2) by auto
  have add: "addTransactionToPool_bytes C core now ba w =
      (if checkIfTransactionPresent ?cn (?cn ba) (transactionPool w) \<or> \<not> valid then Some (False, w)
       else returned (wrapper_push ?cn now ct state w))"
    by (simp add: addTransactionToPool_bytes_def addTransactionToPool_def Inr returned_def hash hash' valid(1))
  show ?thesis
  proof (cases "valid \<and> \<not> checkIfTransactionPresent ?cn (?cn ba) (transactionPool w)")
    case True
    then have "distinct (key_images tx)" using valid(2) semantic_key_images(2) by (auto simp: pool_valid_def)
    then have push_ok: "push_ok ?cn ct state" using True valid(3) ct tx(2) assms(2) by (simp add: push_ok_def)
    have "write_Transaction (transaction ct) = Inr ba" using tx(2) ct(2) by simp
    from wrapper_push_eq [OF assms(1) push_ok this, of now]
    obtain ok w' where "wrapper_push ?cn now ct state w = Inr (ok, w')" "pool_inv ?cn (transactionPool w')" "\<not> ok \<longrightarrow> w' = w"
      "ok \<longleftrightarrow> \<not> isTransactionRecentlyDeleted w (?cn ba) \<and> \<not> checkIfTransactionPresent ?cn (?cn ba) (transactionPool w) \<and>
         state \<inter> poolState (transactionPool w) = {}"
      by (elim exE conjE) (rule that)
    moreover from this(1) have "addTransactionToPool_bytes C core now ba w = Some (ok, w')" using True add by (simp add: returned_def)
    ultimately show ?thesis using True valid(2,3) Inr by (intro exI [of _ ok] exI [of _ w'] conjI) simp_all
  next
    case False
    then have "addTransactionToPool_bytes C core now ba w = Some (False, w)" unfolding add by auto
    then show ?thesis using False assms(1) valid(2) Inr by (intro exI [of _ False] exI [of _ w] conjI) simp_all
  qed
qed

text \<open>C9: A transaction passes the checks without the chain exactly when it has inputs, all of them spend at least one output with offsets that do not repeat, with distinct key images of the prime order group, every output has an amount and a valid key, the amounts do not overflow and the outputs do not exceed the inputs; the fee is the exact difference.\<close>

theorem validateSemantic_iff:
  "validateSemantic C tx = Inr fee \<longleftrightarrow>
     inputs tx \<noteq> [] \<and> (\<forall>i \<in> set (inputs tx). input_ok C i) \<and> distinct (map keyImage (inputs tx)) \<and>
     (\<forall>out \<in> set (outputs tx). output_ok C out) \<and>
     input_sum tx < 2 ^ 64 \<and> output_sum tx + unat fee = input_sum tx"
  by (rule validateSemantic_Inr)

section \<open>Examples\<close>

definition sample_crypto :: crypto_ops where
  "sample_crypto = \<lparr>cn_fast_hash = id, check_key = (\<lambda>_. True), scalarmultKey = (\<lambda>_ _. key_image_I), checkRingSignature = (\<lambda>_ _ _ _. True)\<rparr>"

definition sample_core :: Core_view where
  "sample_core = \<lparr>core_currency = mainnet\<lparr>m_mininumFee := 10\<rparr>, core_checkpoints = [],
     core_leaf = \<lparr>checkIfSpent = (\<lambda>_ _. False), extractKeyOutputKeys = (\<lambda>_ _ _. (SUCCESS, [replicate 32 3]))\<rparr>,
     core_top = 0, blockMedianSize = 1000\<rparr>"

definition ring_tx :: Transaction where
  "ring_tx = \<lparr>version = 1, unlockTime = 0, inputs = [KeyInput 100 [4] (replicate 32 5)],
     outputs = [\<lparr>out_amount = 60, target = KeyOutput (replicate 32 6)\<rparr>], extra = [], signatures = [[replicate 64 9]]\<rparr>"

definition ring_tx_bytes :: bytes where
  "ring_tx_bytes = [1, 0, 1, 2, 100, 1, 4] @ replicate 32 5 @ [1, 60, 2] @ replicate 32 6 @ [0] @ replicate 64 9"

lemma validateSemantic_iff_witness: "validateSemantic sample_crypto ring_tx = Inr 40"
  using validateSemantic_iff [of sample_crypto ring_tx 40]
  by (simp add: ring_tx_def sample_crypto_def input_ok_def output_ok_def)

lemma ring_tx_read: "fromBinaryArray read_Transaction ring_tx_bytes = Inr ring_tx"
  unfolding fromBinaryArray_Transaction
  by (simp add: ring_tx_bytes_def write_Transaction_def ring_tx_def write_TransactionPrefix_def writeContainer_def writeAsBinary_def
      write_TransactionInput_def write_TransactionOutput_def write_TransactionOutputTarget_def write_varint_vector_def
      input_tag_def write_int_def writeVarint_small getSignaturesCount_def write_string_def valid_Transaction_def
      valid_TransactionPrefix_def valid_prefix_body_def valid_TransactionOutput_def valid_signatures_def single_base_input_def
      CURRENT_TRANSACTION_VERSION_def KEY_SIZE_def SIGNATURE_SIZE_def)

lemma addTransactionToPool_iff_witness:
  "\<exists>w'. addTransactionToPool_bytes sample_crypto sample_core 5000 ring_tx_bytes
     \<lparr>transactionPool = empty_pool, recentlyDeletedTransactions = Map.empty, timeout = 86400\<rparr> = Some (True, w')"
proof -
  let ?w = "\<lparr>transactionPool = empty_pool, recentlyDeletedTransactions = Map.empty, timeout = 86400\<rparr>"
  have len: "length ring_tx_bytes = 139" by (simp add: ring_tx_bytes_def)
  have mixin: "validate_transactions [ring_tx] 0 = Inr ()"
    by (simp add: validate_transactions_def getMixinAllowableRange_def mixin_config validate_transaction_def ring_step_def ring_tx_def
        word_le_nat_alt)
  have limit: "getMaximumTransactionAllowedSize (blockMedianSize sample_core) (core_currency sample_core) = 1400"
    "m_mininumFee (core_currency sample_core) = 10" "core_top sample_core = 0"
    by (simp_all add: getMaximumTransactionAllowedSize_def sample_core_def mainnet_def MEVACOIN_COINBASE_BLOB_RESERVED_SIZE_def)
  have verified: "input_verified sample_crypto (core_leaf sample_core) (core_top sample_core) ring_tx 0 (inputs ring_tx ! 0)"
    by (simp add: input_verified_def sample_core_def sample_crypto_def ring_tx_def)
  have "fee_sufficient sample_core ring_tx 139 40" by (simp add: fee_sufficient_def limit)
  moreover have "validateSemantic sample_crypto ring_tx = Inr 40"
    by (simp add: validateSemantic_Inr ring_tx_def sample_crypto_def input_ok_def output_ok_def)
  ultimately have "pool_valid sample_crypto sample_core ring_tx 139"
    unfolding pool_valid_def using mixin verified limit by (auto simp: ring_tx_def)
  moreover have "pool_inv (cn_fast_hash sample_crypto) (transactionPool ?w)" by (simp add: pool_inv_empty)
  ultimately show ?thesis
    using addTransactionToPool_iff [of sample_crypto ?w ring_tx_bytes sample_core 5000] ring_tx_read len
    by (auto simp: empty_pool_def checkIfTransactionPresent_def isTransactionRecentlyDeleted_def)
qed

end
