(* ===== verification/Block_Template.thy ===== *)
theory Block_Template
  imports Tx_Validation
begin

text \<open>
  The choice of the transactions of a new block, \<open>fillBlockTemplate\<close> of \<^verbatim>\<open>src/mevacoin_core/core.cpp\<close>.  The clock is an
  argument.  A call that does not return, as the read of a transaction that is no longer in the pool, is
  \<open>None\<close>.
\<close>

section \<open>Definitions\<close>

text \<open>\<open>TransactionSpentInputsChecker\<close>: the search stops at the first key image that is known; those before it stay recorded.\<close>

fun haveSpentInputs :: "bytes set \<Rightarrow> TransactionInput list \<Rightarrow> bool \<times> bytes set" where
  "haveSpentInputs alreadySpent [] = (False, alreadySpent)"
| "haveSpentInputs alreadySpent (BaseInput _ # ins) = haveSpentInputs alreadySpent ins"
| "haveSpentInputs alreadySpent (KeyInput _ _ im # ins) =
     (if im \<in> alreadySpent then (True, alreadySpent) else haveSpentInputs (insert im alreadySpent) ins)"

definition validateBlockTemplateTransaction :: "CachedTransaction \<Rightarrow> u64 \<Rightarrow> bool" where
  "validateBlockTemplateTransaction ct blockHeight \<longleftrightarrow>
     \<not> unat MAX_EXTRA_SIZE_BLOCK \<le> length (extra (transaction ct)) \<and>
     validate_transactions [transaction ct] blockHeight = Inr ()"

record template_state =
  tpl_hashes :: "bytes list"
  tpl_size :: u64
  tpl_fee :: u64
  tpl_spent :: "bytes set"
  tpl_pool :: TransactionPoolCleanWrapper

text \<open>An invalid transaction that has been in the pool for too long is removed.\<close>

definition drop_if_old :: "(bytes \<Rightarrow> bytes) \<Rightarrow> u64 \<Rightarrow> CachedTransaction \<Rightarrow> template_state \<Rightarrow> template_state option" where
  "drop_if_old cn now ct st =
     do {
       (h, ct) \<leftarrow> returned (getTransactionHash cn ct);
       time \<leftarrow> getTransactionReceiveTime cn h (transactionPool (tpl_pool st));
       Some (if MEVACOIN_MEMPOOL_TX_LIVETIME \<le> now - time
             then st\<lparr>tpl_pool := snd (wrapper_remove cn h (tpl_pool st))\<rparr> else st)
     }"

text \<open>The body of both loops: the size limit and the fee that is counted.\<close>

definition consider_tx ::
  "(bytes \<Rightarrow> bytes) \<Rightarrow> u64 \<Rightarrow> u64 \<Rightarrow> u64 \<Rightarrow> u64 \<Rightarrow> CachedTransaction \<Rightarrow> template_state \<Rightarrow> template_state option" where
  "consider_tx cn now height limit fee ct st =
     do {
       (ba, ct) \<leftarrow> returned (getTransactionBinaryArray ct);
       if limit < tpl_size st + of_nat (length ba) then Some st
       else if \<not> validateBlockTemplateTransaction ct height then drop_if_old cn now ct st
       else let (known, alreadySpent) = haveSpentInputs (tpl_spent st) (inputs (transaction ct))
            in if known then Some (st\<lparr>tpl_spent := alreadySpent\<rparr>)
               else do {
                 (h, ct) \<leftarrow> returned (getTransactionHash cn ct);
                 Some (st\<lparr>tpl_hashes := tpl_hashes st @ [h], tpl_size := tpl_size st + of_nat (length ba),
                          tpl_fee := tpl_fee st + fee, tpl_spent := alreadySpent\<rparr>)
               }
     }"

fun fold_option :: "('a \<Rightarrow> 's \<Rightarrow> 's option) \<Rightarrow> 'a list \<Rightarrow> 's \<Rightarrow> 's option" where
  "fold_option f [] s = Some s"
| "fold_option f (x # xs) s = do { s \<leftarrow> f x s; fold_option f xs s }"

definition fusion_loop ::
  "(bytes \<Rightarrow> bytes) \<Rightarrow> Currency \<Rightarrow> u64 \<Rightarrow> u64 \<Rightarrow> CachedTransaction list \<Rightarrow> template_state \<Rightarrow> template_state option" where
  "fusion_loop cn c now height poolTransactions st =
     fold_option (consider_tx cn now height (m_fusionTxMaxSize c) 0)
       (takeWhile (\<lambda>ct. fst (getTransactionFee ct) = 0) (rev poolTransactions)) st"

definition fee_loop ::
  "(bytes \<Rightarrow> bytes) \<Rightarrow> u64 \<Rightarrow> u64 \<Rightarrow> u64 \<Rightarrow> u64 \<Rightarrow> CachedTransaction list \<Rightarrow> template_state \<Rightarrow> template_state option" where
  "fee_loop cn now height medianSize maxTotalSize poolTransactions st =
     fold_option (\<lambda>ct. let fee = fst (getTransactionFee ct)
         in consider_tx cn now height (if fee = 0 then medianSize else maxTotalSize) fee ct) poolTransactions st"

definition fillBlockTemplate ::
  "(bytes \<Rightarrow> bytes) \<Rightarrow> Currency \<Rightarrow> u64 \<Rightarrow> bytes list \<Rightarrow> u64 \<Rightarrow> u64 \<Rightarrow> u64 \<Rightarrow> TransactionPoolCleanWrapper \<Rightarrow>
   template_state option" where
  "fillBlockTemplate cn c now block_hashes medianSize maxCumulativeSize height w =
     (let maxTotalSize = min ((125 * medianSize) div 100) maxCumulativeSize - m_minerTxBlobReservedSize c;
          poolTransactions = getPoolTransactions (transactionPool w);
          st = \<lparr>tpl_hashes = block_hashes, tpl_size = 0, tpl_fee = 0, tpl_spent = {}, tpl_pool = w\<rparr>
      in do {
        st \<leftarrow> fusion_loop cn c now height poolTransactions st;
        fee_loop cn now height medianSize maxTotalSize poolTransactions st
      })"

section \<open>Key images of the chosen transactions\<close>

lemma haveSpentInputs_iff:
  "fst (haveSpentInputs S ins) \<longleftrightarrow>
     \<not> (distinct (map keyImage (filter is_KeyInput ins)) \<and> set (map keyImage (filter is_KeyInput ins)) \<inter> S = {})"
  by (induction S ins rule: haveSpentInputs.induct) auto

lemma haveSpentInputs_set:
  "\<not> fst (haveSpentInputs S ins) \<Longrightarrow> snd (haveSpentInputs S ins) = S \<union> set (map keyImage (filter is_KeyInput ins))"
  by (induction S ins rule: haveSpentInputs.induct) (auto split: if_splits)

lemma haveSpentInputs_mono: "S \<subseteq> snd (haveSpentInputs S ins)"
  by (induction S ins rule: haveSpentInputs.induct) auto

section \<open>One transaction\<close>

text \<open>Not fit for a block and older than a transaction may get.\<close>

definition stale :: "u64 \<Rightarrow> u64 \<Rightarrow> PendingTransactionInfo \<Rightarrow> bool" where
  "stale now height p \<longleftrightarrow>
     \<not> validateBlockTemplateTransaction (cachedTransaction p) height \<and> MEVACOIN_MEMPOOL_TX_LIVETIME \<le> now - receiveTime p"

lemma stored_array:
  assumes "stored_ok cn p" "pending_hash cn p = Some h"
  obtains ba ct ct' where "getTransactionBinaryArray (cachedTransaction p) = Inr (ba, ct)" "blob_size p = of_nat (length ba)"
    "transaction ct = transaction (cachedTransaction p)" "getTransactionHash cn ct = Inr (h, ct')"
proof -
  have ok: "cache_ok cn (cachedTransaction p)" using assms(1) by (simp add: stored_ok_def)
  obtain ba where ba: "write_Transaction (transaction (cachedTransaction p)) = Inr ba" "h = cn ba"
    using getTransactionHash_ok [OF ok] assms(2)
    by (cases "write_Transaction (transaction (cachedTransaction p))") (auto simp: pending_hash_def split: sum.splits)
  obtain ct where ct: "getTransactionBinaryArray (cachedTransaction p) = Inr (ba, ct)" "cache_ok cn ct"
      "transaction ct = transaction (cachedTransaction p)"
    using getTransactionBinaryArray_ok [OF ok] ba(1) by (auto split: sum.splits)
  obtain ct' where "getTransactionHash cn ct = Inr (h, ct')"
    using getTransactionHash_ok [OF ct(2)] ct(3) ba by (auto split: sum.splits)
  with ct(1,3) that show thesis by (simp add: blob_size_def)
qed

lemma consider_tx_cases:
  assumes "stored_ok cn p" "pending_hash cn p = Some h" "find_hash cn h (transactionPool (tpl_pool st)) = Some p"
  obtains
    (skip) S where "consider_tx cn now height limit fee (cachedTransaction p) st = Some (st\<lparr>tpl_spent := S\<rparr>)" "tpl_spent st \<subseteq> S"
  | (drop) "consider_tx cn now height limit fee (cachedTransaction p) st =
        Some (st\<lparr>tpl_pool := snd (wrapper_remove cn h (tpl_pool st))\<rparr>)" "stale now height p"
  | (add) "consider_tx cn now height limit fee (cachedTransaction p) st =
        Some (st\<lparr>tpl_hashes := tpl_hashes st @ [h], tpl_size := tpl_size st + blob_size p, tpl_fee := tpl_fee st + fee,
          tpl_spent := tpl_spent st \<union> set (spent p)\<rparr>)"
      "tpl_size st + blob_size p \<le> limit" "distinct (spent p)" "set (spent p) \<inter> tpl_spent st = {}"
      "validateBlockTemplateTransaction (cachedTransaction p) height"
proof -
  obtain ba ct ct' where ct: "getTransactionBinaryArray (cachedTransaction p) = Inr (ba, ct)" "blob_size p = of_nat (length ba)"
    "transaction ct = transaction (cachedTransaction p)" "getTransactionHash cn ct = Inr (h, ct')"
    by (rule stored_array [OF assms(1,2)])
  have valid: "validateBlockTemplateTransaction ct height = validateBlockTemplateTransaction (cachedTransaction p) height"
    by (simp add: validateBlockTemplateTransaction_def ct(3))
  have time: "getTransactionReceiveTime cn h (transactionPool (tpl_pool st)) = Some (receiveTime p)"
    by (simp add: getTransactionReceiveTime_def assms(3))
  consider "limit < tpl_size st + blob_size p"
    | "\<not> limit < tpl_size st + blob_size p" "\<not> validateBlockTemplateTransaction ct height"
    | "\<not> limit < tpl_size st + blob_size p" "validateBlockTemplateTransaction ct height"
      "fst (haveSpentInputs (tpl_spent st) (inputs (transaction ct)))"
    | "\<not> limit < tpl_size st + blob_size p" "validateBlockTemplateTransaction ct height"
      "\<not> fst (haveSpentInputs (tpl_spent st) (inputs (transaction ct)))" by blast
  then show thesis
  proof cases
    case 1
    then show thesis using skip [of "tpl_spent st"] by (simp add: consider_tx_def returned_def ct(1,2))
  next
    case 2
    then have "consider_tx cn now height limit fee (cachedTransaction p) st =
        Some (if stale now height p then st\<lparr>tpl_pool := snd (wrapper_remove cn h (tpl_pool st))\<rparr> else st)"
      using valid by (simp add: consider_tx_def returned_def ct drop_if_old_def time stale_def)
    then show thesis using skip [of "tpl_spent st"] drop by (cases "stale now height p") simp_all
  next
    case 3
    then show thesis using skip [of "snd (haveSpentInputs (tpl_spent st) (inputs (transaction ct)))"] haveSpentInputs_mono
      by (simp add: consider_tx_def returned_def ct split_def Let_def)
  next
    case 4
    have "snd (haveSpentInputs (tpl_spent st) (inputs (transaction ct))) = tpl_spent st \<union> set (spent p)"
      using haveSpentInputs_set [OF 4(3)] by (simp add: ct(3))
    then have "consider_tx cn now height limit fee (cachedTransaction p) st =
        Some (st\<lparr>tpl_hashes := tpl_hashes st @ [h], tpl_size := tpl_size st + blob_size p, tpl_fee := tpl_fee st + fee,
          tpl_spent := tpl_spent st \<union> set (spent p)\<rparr>)"
      using 4 by (simp add: consider_tx_def returned_def ct split_def Let_def)
    then show thesis using add 4 valid haveSpentInputs_iff [of "tpl_spent st" "inputs (transaction ct)"] by (simp add: ct(3) not_less)
  qed
qed

section \<open>The loops\<close>

text \<open>The state after a choice \<open>inc\<close> of the transactions \<open>ps\<close>.\<close>

definition template_inv ::
  "(bytes \<Rightarrow> bytes) \<Rightarrow> PendingTransactionInfo list \<Rightarrow> bytes list \<Rightarrow> u64 \<Rightarrow> u64 \<Rightarrow> template_state \<Rightarrow>
   PendingTransactionInfo list \<Rightarrow> bool" where
  "template_inv cn ps block_hashes height limit st inc \<longleftrightarrow>
     set inc \<subseteq> set ps \<and> distinct inc \<and> (\<forall>p \<in> set inc. validateBlockTemplateTransaction (cachedTransaction p) height) \<and>
     map Some (tpl_hashes st) = map Some block_hashes @ map (pending_hash cn) inc \<and>
     distinct (concat (map spent inc)) \<and> set (concat (map spent inc)) \<subseteq> tpl_spent st \<and>
     unat (tpl_size st) = (\<Sum>p\<leftarrow>inc. unat (blob_size p)) \<and> tpl_size st \<le> limit \<and>
     tpl_fee st = (\<Sum>p\<leftarrow>inc. pending_fee p) \<and>
     pool_inv cn (transactionPool (tpl_pool st)) \<and> set (transactions (transactionPool (tpl_pool st))) \<subseteq> set ps"

definition pool_sizes_ok :: "PendingTransactionInfo list \<Rightarrow> bool" where
  "pool_sizes_ok ps \<longleftrightarrow> distinct ps \<and> (\<forall>p \<in> set ps. spent p \<noteq> []) \<and> (\<Sum>p\<leftarrow>ps. unat (blob_size p)) < 2 ^ 64"

lemma sum_list_subset:
  fixes f :: "'a \<Rightarrow> nat"
  assumes "distinct xs" "distinct ys" "set xs \<subseteq> set ys"
  shows "(\<Sum>x\<leftarrow>xs. f x) \<le> (\<Sum>y\<leftarrow>ys. f y)"
  using assms by (simp add: sum_list_distinct_conv_sum_set sum_mono2)

lemma template_inv_add:
  assumes inv: "template_inv cn ps bh height limit st inc" and ps: "pool_sizes_ok ps" and p: "p \<in> set ps" "pending_hash cn p = Some h"
    and new: "distinct (spent p)" "set (spent p) \<inter> tpl_spent st = {}" "tpl_size st + blob_size p \<le> limit"
      "validateBlockTemplateTransaction (cachedTransaction p) height"
  shows "template_inv cn ps bh height limit (st\<lparr>tpl_hashes := tpl_hashes st @ [h], tpl_size := tpl_size st + blob_size p,
      tpl_fee := tpl_fee st + pending_fee p, tpl_spent := tpl_spent st \<union> set (spent p)\<rparr>) (inc @ [p])"
proof -
  have inc: "set inc \<subseteq> set ps" "distinct inc" "distinct (concat (map spent inc))" "set (concat (map spent inc)) \<subseteq> tpl_spent st"
    "unat (tpl_size st) = (\<Sum>p\<leftarrow>inc. unat (blob_size p))"
    using inv unfolding template_inv_def by blast+
  have "spent p \<noteq> []" using ps p(1) by (simp add: pool_sizes_ok_def)
  then have "hd (spent p) \<notin> set (concat (map spent inc))" using new(2) inc(4) hd_in_set by blast
  moreover have "hd (spent p) \<in> set (spent p)" using \<open>spent p \<noteq> []\<close> by (rule hd_in_set)
  ultimately have fresh: "p \<notin> set inc" by auto
  have "(\<Sum>q\<leftarrow>inc @ [p]. unat (blob_size q)) \<le> (\<Sum>q\<leftarrow>ps. unat (blob_size q))"
    using inc(1,2) fresh p(1) ps by (intro sum_list_subset) (auto simp: pool_sizes_ok_def)
  then have "unat (tpl_size st) + unat (blob_size p) < 2 ^ 64" using ps inc(5) by (simp add: pool_sizes_ok_def)
  then have "unat (tpl_size st + blob_size p) = unat (tpl_size st) + unat (blob_size p)" by (simp add: unat_add_no_overflow)
  moreover have "distinct (concat (map spent inc) @ spent p)" using inc(3,4) new(1,2) by (simp del: set_concat) blast
  moreover have "set (concat (map spent inc)) \<union> set (spent p) \<subseteq> tpl_spent st \<union> set (spent p)" using inc(4) by blast
  ultimately show ?thesis
    using inv fresh p new(3,4) unfolding template_inv_def by (simp del: set_concat)
qed

lemma template_step:
  assumes inv: "template_inv cn ps bh height limit st inc" and ps: "pool_sizes_ok ps" and p: "p \<in> set ps"
    and found: "find_hash cn h (transactionPool (tpl_pool st)) = Some p" and l: "l \<le> limit"
  shows "\<exists>st' inc'. consider_tx cn now height l (pending_fee p) (cachedTransaction p) st = Some st' \<and>
    template_inv cn ps bh height limit st' inc' \<and>
    (tpl_pool st' = tpl_pool st \<or> stale now height p \<and> tpl_pool st' = snd (wrapper_remove cn h (tpl_pool st)))"
proof -
  have pool: "pool_inv cn (transactionPool (tpl_pool st))" using inv by (simp add: template_inv_def)
  have stored: "stored_ok cn p" "pending_hash cn p = Some h"
    using pool found find_hash_stored [OF pool] by (auto simp: pool_inv_def)
  show ?thesis
    using stored found
  proof (cases rule: consider_tx_cases [where now = now and height = height and limit = l and fee = "pending_fee p"])
    case (skip S)
    have "set (concat (map spent inc)) \<subseteq> S" using inv skip(2) unfolding template_inv_def by blast
    then have "template_inv cn ps bh height limit (st\<lparr>tpl_spent := S\<rparr>) inc" using inv by (simp add: template_inv_def del: set_concat)
    with skip(1) show ?thesis by (intro exI [of _ "st\<lparr>tpl_spent := S\<rparr>"] exI [of _ inc]) simp
  next
    case drop
    let ?w = "snd (wrapper_remove cn h (tpl_pool st))"
    have w: "transactionPool ?w = snd (removeTransaction cn h (transactionPool (tpl_pool st)))"
      by (simp add: wrapper_remove_def split_def Let_def)
    then have "pool_inv cn (transactionPool ?w)" using removeTransaction_inv [OF pool] by simp
    moreover have "set (transactions (transactionPool ?w)) \<subseteq> set (transactions (transactionPool (tpl_pool st)))"
      unfolding w by (simp add: removeTransaction_def set_remove1_subset split: option.split)
    then have "set (transactions (transactionPool ?w)) \<subseteq> set ps" using inv unfolding template_inv_def by blast
    ultimately have "template_inv cn ps bh height limit (st\<lparr>tpl_pool := ?w\<rparr>) inc" using inv by (simp add: template_inv_def)
    with drop show ?thesis by (intro exI [of _ "st\<lparr>tpl_pool := ?w\<rparr>"] exI [of _ inc]) simp
  next
    case add
    have "tpl_size st + blob_size p \<le> limit" using add(2) l by (rule order_trans)
    from template_inv_add [OF inv ps p stored(2) add(3,4) this add(5)] add(1) show ?thesis by (intro exI conjI) (assumption, simp_all)
  qed
qed

lemma template_loop:
  assumes "template_inv cn ps bh height limit st inc" "pool_sizes_ok ps" "set qs \<subseteq> set ps" "distinct (map (pending_hash cn) qs)"
    "set qs \<subseteq> set (transactions (transactionPool (tpl_pool st)))" "\<forall>p. lmt p \<le> limit"
  shows "\<exists>st' inc'. fold_option (\<lambda>p. consider_tx cn now height (lmt p) (pending_fee p) (cachedTransaction p)) qs st = Some st' \<and>
    template_inv cn ps bh height limit st' inc' \<and> ((\<forall>p \<in> set qs. \<not> stale now height p) \<longrightarrow> tpl_pool st' = tpl_pool st)"
  using assms
proof (induction qs arbitrary: st inc)
  case (Cons p qs)
  have pool: "pool_inv cn (transactionPool (tpl_pool st))" using Cons.prems(1) by (simp add: template_inv_def)
  obtain h where h: "find_hash cn h (transactionPool (tpl_pool st)) = Some p" using Cons.prems(5) stored_iff [OF pool, of p] by auto
  have hash: "pending_hash cn p = Some h" using h find_hash_stored [OF pool] by blast
  have "p \<in> set ps" "lmt p \<le> limit" using Cons.prems(3,6) by auto
  from template_step [OF Cons.prems(1,2) this(1) h this(2), of now]
  obtain st' inc' where step: "consider_tx cn now height (lmt p) (pending_fee p) (cachedTransaction p) st = Some st'"
    "template_inv cn ps bh height limit st' inc'"
    "tpl_pool st' = tpl_pool st \<or> stale now height p \<and> tpl_pool st' = snd (wrapper_remove cn h (tpl_pool st))"
    by (elim exE conjE) (rule that)
  have kept: "set qs \<subseteq> set (transactions (transactionPool (tpl_pool st')))"
  proof
    fix q assume q: "q \<in> set qs"
    have "q \<in> set (transactions (transactionPool (tpl_pool st)))" using q Cons.prems(5) by auto
    moreover have "q \<in> set (transactions (snd (removeTransaction cn h (transactionPool (tpl_pool st)))))"
    proof -
      obtain g where g: "find_hash cn g (transactionPool (tpl_pool st)) = Some q" using calculation stored_iff [OF pool, of q] by auto
      have "pending_hash cn q \<noteq> pending_hash cn p" using q Cons.prems(4) by (auto intro: rev_image_eqI)
      moreover have "pending_hash cn q = Some g" using g find_hash_stored [OF pool] by blast
      ultimately have "g \<noteq> h" using hash by auto
      then have "find_hash cn g (snd (removeTransaction cn h (transactionPool (tpl_pool st)))) = Some q"
        using g pool.remove_lookup [OF pool] by simp
      then show ?thesis using stored_iff [OF removeTransaction_inv [OF pool]] by blast
    qed
    ultimately show "q \<in> set (transactions (transactionPool (tpl_pool st')))"
      using step(3) by (auto simp: wrapper_remove_def split_def Let_def)
  qed
  have "set qs \<subseteq> set ps" "distinct (map (pending_hash cn) qs)" using Cons.prems(3,4) by simp_all
  from Cons.IH [OF step(2) Cons.prems(2) this kept Cons.prems(6)] obtain st'' inc'' where rest:
    "fold_option (\<lambda>p. consider_tx cn now height (lmt p) (pending_fee p) (cachedTransaction p)) qs st' = Some st''"
    "template_inv cn ps bh height limit st'' inc''" "(\<forall>p \<in> set qs. \<not> stale now height p) \<longrightarrow> tpl_pool st'' = tpl_pool st'"
    by (elim exE conjE) (rule that)
  have "(\<forall>q \<in> set (p # qs). \<not> stale now height q) \<longrightarrow> tpl_pool st'' = tpl_pool st" using rest(3) step(3) by auto
  then show ?case using rest(1,2) step(1) by (intro exI [of _ st''] exI [of _ inc''] conjI) simp_all
qed (simp, blast)

section \<open>The template\<close>

lemma fold_option_map: "fold_option f (map g xs) = fold_option (\<lambda>x. f (g x)) xs"
  by (induction xs) (rule ext, simp)+

lemma fold_option_cong: "(\<And>x. x \<in> set xs \<Longrightarrow> f x = g x) \<Longrightarrow> fold_option f xs s = fold_option g xs s"
proof (induction xs arbitrary: s)
  case (Cons x xs)
  then have "fold_option f xs = fold_option g xs" by (intro ext) simp
  with Cons.prems show ?case by simp
qed simp

lemma fusion_loop_eq:
  "fusion_loop cn c now height (map cachedTransaction ps) st =
     fold_option (\<lambda>p. consider_tx cn now height (m_fusionTxMaxSize c) (pending_fee p) (cachedTransaction p))
       (takeWhile (\<lambda>p. pending_fee p = 0) (rev ps)) st"
  unfolding fusion_loop_def rev_map takeWhile_map o_def fold_option_map pending_fee_def [symmetric]
  by (rule fold_option_cong) (auto dest: set_takeWhileD)

lemma fee_loop_eq:
  "fee_loop cn now height medianSize maxTotalSize (map cachedTransaction ps) st =
     fold_option (\<lambda>p. consider_tx cn now height (if pending_fee p = 0 then medianSize else maxTotalSize) (pending_fee p) (cachedTransaction p)) ps st"
  by (simp add: fee_loop_def fold_option_map Let_def pending_fee_def)

text \<open>C14: Call a transaction fit for a block if its extra field is below the limit for blocks and its ring sizes are allowed at the height; these are the only rules that the function checks. For a consistent pool in which every transaction has a key input and the sizes add up to less than \<open>2 ^ 64\<close>, and in which no transaction without fee is both unfit and older than a transaction may get, the function returns. The template then has distinct transactions of the pool, all of them fit, and spends every key image at most once; their sizes add up to the reported size, which is at most the greatest of the three size limits, and their fees to the reported fee, as 64 bit numbers; the pool stays consistent.\<close>

theorem fillBlockTemplate_sound:
  assumes pool: "pool_inv cn (transactionPool w)"
    and sizes: "\<forall>p \<in> set (transactions (transactionPool w)). spent p \<noteq> []" "(\<Sum>p\<leftarrow>transactions (transactionPool w). unat (blob_size p)) < 2 ^ 64"
    and old: "\<forall>p \<in> set (transactions (transactionPool w)). pending_fee p = 0 \<longrightarrow> \<not> stale now height p"
  shows "\<exists>st inc. fillBlockTemplate cn c now block_hashes medianSize maxCumulativeSize height w = Some st \<and>
    set inc \<subseteq> set (transactions (transactionPool w)) \<and> distinct inc \<and>
    map Some (tpl_hashes st) = map Some block_hashes @ map (pending_hash cn) inc \<and>
    (\<forall>p \<in> set inc. validateBlockTemplateTransaction (cachedTransaction p) height) \<and>
    distinct (concat (map spent inc)) \<and>
    unat (tpl_size st) = (\<Sum>p\<leftarrow>inc. unat (blob_size p)) \<and>
    tpl_size st \<le> max (m_fusionTxMaxSize c) (max medianSize
      (min ((125 * medianSize) div 100) maxCumulativeSize - m_minerTxBlobReservedSize c)) \<and>
    tpl_fee st = (\<Sum>p\<leftarrow>inc. pending_fee p) \<and> pool_inv cn (transactionPool (tpl_pool st))"
proof -
  let ?ps = "transactions (transactionPool w)" and ?qs = "takeWhile (\<lambda>p. pending_fee p = 0) (rev (transactions (transactionPool w)))"
  let ?mt = "min ((125 * medianSize) div 100) maxCumulativeSize - m_minerTxBlobReservedSize c"
  define limit where "limit = max (m_fusionTxMaxSize c) (max medianSize ?mt)"
  let ?st = "\<lparr>tpl_hashes = block_hashes, tpl_size = 0, tpl_fee = 0, tpl_spent = {}, tpl_pool = w\<rparr>"
  have dist: "distinct (map (pending_hash cn) ?ps)" using pool by (simp add: pool_inv_def)
  then have ok: "pool_sizes_ok ?ps" using sizes by (simp add: pool_sizes_ok_def distinct_map)
  have start: "template_inv cn ?ps block_hashes height limit ?st []" using pool by (simp add: template_inv_def)
  have qs: "set ?qs \<subseteq> set ?ps" "\<forall>p \<in> set ?qs. \<not> stale now height p" using old by (auto dest: set_takeWhileD)
  have "distinct (map (pending_hash cn) ?qs)" using dist
    by (metis distinct_rev rev_map takeWhile_eq_take take_map distinct_take)
  moreover have "set ?qs \<subseteq> set (transactions (transactionPool (tpl_pool ?st)))" using qs(1) by simp
  moreover have "\<forall>p. (\<lambda>_. m_fusionTxMaxSize c) p \<le> limit" by (simp add: limit_def)
  ultimately obtain st1 inc1 where one: "fusion_loop cn c now height (map cachedTransaction ?ps) ?st = Some st1"
    "template_inv cn ?ps block_hashes height limit st1 inc1"
    "(\<forall>p \<in> set ?qs. \<not> stale now height p) \<longrightarrow> tpl_pool st1 = tpl_pool ?st"
    using template_loop [OF start ok qs(1), of "\<lambda>_. m_fusionTxMaxSize c" now] unfolding fusion_loop_eq by blast
  have "set ?ps \<subseteq> set (transactions (transactionPool (tpl_pool st1)))" using one(3) qs(2) by simp
  moreover have "\<forall>p. (\<lambda>p. if pending_fee p = 0 then medianSize else ?mt) p \<le> limit" by (simp add: limit_def le_max_iff_disj)
  ultimately obtain st inc where two: "fee_loop cn now height medianSize ?mt (map cachedTransaction ?ps) st1 = Some st"
    "template_inv cn ?ps block_hashes height limit st inc"
    using template_loop [OF one(2) ok order_refl dist, of "\<lambda>p. if pending_fee p = 0 then medianSize else ?mt" now]
    unfolding fee_loop_eq by blast
  have "fillBlockTemplate cn c now block_hashes medianSize maxCumulativeSize height w = Some st"
    using one(1) two(1) by (simp add: fillBlockTemplate_def Let_def getPoolTransactions_def)
  then show ?thesis using two(2) unfolding template_inv_def limit_def by blast
qed

text \<open>C27: A single transaction without fee that is unfit for a block and too old makes the function read a transaction that it has removed itself: the first loop removes it from the pool, the second asks the pool for its time.\<close>

theorem fillBlockTemplate_reads_removed:
  assumes "pool_inv cn (transactionPool w)" "transactions (transactionPool w) = [p]" "pending_fee p = 0" "stale now height p"
    and "blob_size p \<le> m_fusionTxMaxSize c" "blob_size p \<le> medianSize"
  shows "fillBlockTemplate cn c now block_hashes medianSize maxCumulativeSize height w = None"
proof -
  obtain h where h: "find_hash cn h (transactionPool w) = Some p" using stored_iff [OF assms(1), of p] assms(2) by auto
  have stored: "stored_ok cn p" "pending_hash cn p = Some h"
    using assms(1,2) h find_hash_stored [OF assms(1)] by (auto simp: pool_inv_def)
  obtain ba ct ct' where ct: "getTransactionBinaryArray (cachedTransaction p) = Inr (ba, ct)" "blob_size p = of_nat (length ba)"
    "transaction ct = transaction (cachedTransaction p)" "getTransactionHash cn ct = Inr (h, ct')"
    by (rule stored_array [OF stored])
  have unfit: "\<not> validateBlockTemplateTransaction ct height" using assms(4) by (simp add: stale_def validateBlockTemplateTransaction_def ct(3))
  have step: "consider_tx cn now height limit fee (cachedTransaction p) st = drop_if_old cn now ct st"
    if "blob_size p \<le> limit" "tpl_size st = 0" for limit fee st
    using that(2) unfit leD [OF that(1)] by (simp add: consider_tx_def returned_def ct(1) ct(2) [symmetric])
  let ?st = "\<lparr>tpl_hashes = block_hashes, tpl_size = 0, tpl_fee = 0, tpl_spent = {}, tpl_pool = w\<rparr>"
  let ?st1 = "?st\<lparr>tpl_pool := snd (wrapper_remove cn h w)\<rparr>"
  have "drop_if_old cn now ct ?st = Some ?st1"
    using assms(4) by (simp add: drop_if_old_def returned_def ct(4) getTransactionReceiveTime_def h stale_def)
  then have one: "fusion_loop cn c now height [cachedTransaction p] ?st = Some ?st1"
    using fusion_loop_eq [of cn c now height "[p]" ?st] assms(3,5) step by simp
  have "find_hash cn h (transactionPool (snd (wrapper_remove cn h w))) = None"
    using pool.remove_lookup [OF assms(1)] by (simp add: wrapper_remove_def split_def Let_def)
  then have "drop_if_old cn now ct ?st1 = None" by (simp add: drop_if_old_def returned_def ct(4) getTransactionReceiveTime_def)
  then have "fee_loop cn now height medianSize mt [cachedTransaction p] ?st1 = None" for mt
    using fee_loop_eq [of cn now height medianSize mt "[p]" ?st1] assms(3,6) step by simp
  with one show ?thesis by (simp add: fillBlockTemplate_def Let_def getPoolTransactions_def assms(2))
qed

section \<open>Examples\<close>

definition sample_pool :: TransactionPoolCleanWrapper where
  "sample_pool = \<lparr>transactionPool = \<lparr>poolState = {replicate 32 5}, transactions = [spend_pending id]\<rparr>,
     recentlyDeletedTransactions = Map.empty, timeout = 86400\<rparr>"

lemma sample_pool_inv: "pool_inv id (transactionPool sample_pool)"
  using pushTransaction_inv [OF pool_inv_empty spend_tx_push_ok spend_tx_pushed] by (simp add: sample_pool_def)

lemma spend_pending_facts: "pending_fee (spend_pending id) = 100" "blob_size (spend_pending id) = 40"
  "spent (spend_pending id) = [replicate 32 5]"
  by (simp_all add: pending_fee_def blob_size_def spend_pending_def getTransactionBinaryArray_def getTransactionFee_def
      CachedTransaction_of_def spend_tx_def)

lemma fillBlockTemplate_sound_witness:
  "\<exists>st. fillBlockTemplate id mainnet 2000 [] 100000 200000 5 sample_pool = Some st \<and> tpl_size st \<le> 124400"
proof -
  have ps: "transactions (transactionPool sample_pool) = [spend_pending id]" by (simp add: sample_pool_def)
  have sizes: "\<forall>p \<in> set (transactions (transactionPool sample_pool)). spent p \<noteq> []"
    "(\<Sum>p\<leftarrow>transactions (transactionPool sample_pool). unat (blob_size p)) < 2 ^ 64"
    unfolding ps using spend_pending_facts by auto
  have "\<forall>p \<in> set (transactions (transactionPool sample_pool)). pending_fee p = 0 \<longrightarrow> \<not> stale 2000 5 p"
    by (simp add: ps spend_pending_facts)
  from fillBlockTemplate_sound [OF sample_pool_inv sizes this, of mainnet "[]" 100000 200000]
  obtain st where st: "fillBlockTemplate id mainnet 2000 [] 100000 200000 5 sample_pool = Some st"
    "tpl_size st \<le> max (m_fusionTxMaxSize mainnet) (max 100000 (min ((125 * 100000) div 100) 200000 - m_minerTxBlobReservedSize mainnet))"
    by (elim exE conjE) (rule that)
  moreover have "max (m_fusionTxMaxSize mainnet) (max 100000 (min ((125 * 100000) div 100) 200000 - m_minerTxBlobReservedSize mainnet)) \<le> 124400"
    by (simp add: mainnet_def FUSION_TX_MAX_SIZE_def MEVACOIN_COINBASE_BLOB_RESERVED_SIZE_def
        MEVACOIN_BLOCK_GRANTED_FULL_REWARD_ZONE_CURRENT_def MEVACOIN_BLOCK_GRANTED_FULL_REWARD_ZONE_def)
  ultimately show ?thesis by (meson order_trans)
qed

text \<open>A transaction without amounts and without a ring, which is refused since height 1250000.\<close>

definition free_tx :: Transaction where
  "free_tx = \<lparr>version = 1, unlockTime = 0, inputs = [KeyInput 0 [] (replicate 32 5)], outputs = [], extra = [], signatures = [[]]\<rparr>"

definition free_pending :: PendingTransactionInfo where
  "free_pending = \<lparr>receiveTime = 1000, cachedTransaction = (CachedTransaction_of free_tx)\<lparr>
     transactionBinaryArray := Some ([1, 0, 1, 2, 0, 0] @ replicate 32 5 @ [0, 0]),
     transactionHash := Some ([1, 0, 1, 2, 0, 0] @ replicate 32 5 @ [0, 0])\<rparr>,
     paymentId = getPaymentIdFromTxExtra []\<rparr>"

lemma free_tx_bytes: "write_Transaction free_tx = Inr ([1, 0, 1, 2, 0, 0] @ replicate 32 5 @ [0, 0])"
  by (simp add: write_Transaction_def free_tx_def write_TransactionPrefix_def writeContainer_def writeAsBinary_def
      write_TransactionInput_def write_varint_vector_def input_tag_def write_int_def writeVarint_small
      getSignaturesCount_def write_string_def)

lemma free_pending_facts: "pending_fee free_pending = 0" "blob_size free_pending = 40" "stale 200000 1250000 free_pending"
proof -
  show "pending_fee free_pending = 0" "blob_size free_pending = 40"
    by (simp_all add: pending_fee_def blob_size_def free_pending_def getTransactionBinaryArray_def getTransactionFee_def
        CachedTransaction_of_def free_tx_def)
  have "validate_transactions [free_tx] 1250000 \<noteq> Inr ()"
    by (simp add: validate_transactions_def getMixinAllowableRange_def mixin_config validate_transaction_def ring_step_def free_tx_def
        word_le_nat_alt)
  then show "stale 200000 1250000 free_pending"
    by (simp add: stale_def validateBlockTemplateTransaction_def free_pending_def CachedTransaction_of_def
        MEVACOIN_MEMPOOL_TX_LIVETIME_def word_le_nat_alt)
qed

definition free_pool :: TransactionPoolCleanWrapper where
  "free_pool = \<lparr>transactionPool = \<lparr>poolState = {replicate 32 5}, transactions = [free_pending]\<rparr>,
     recentlyDeletedTransactions = Map.empty, timeout = 86400\<rparr>"

lemma free_pool_inv: "pool_inv id (transactionPool free_pool)"
proof -
  have "cache_ok id (cachedTransaction free_pending)"
    using free_tx_bytes by (simp add: cache_ok_def free_pending_def CachedTransaction_of_def)
  moreover have "pending_hash id free_pending \<noteq> None" by (simp add: pending_hash_def free_pending_def getTransactionHash_def)
  moreover have "spent free_pending = [replicate 32 5]" by (simp add: free_pending_def CachedTransaction_of_def free_tx_def)
  ultimately show ?thesis unfolding pool_inv_def free_pool_def by (simp add: stored_ok_def free_pending_facts del: filter.simps)
qed

lemma fillBlockTemplate_reads_removed_witness:
  "fillBlockTemplate id mainnet 200000 [] 100000 200000 1250000 free_pool = None"
  by (rule fillBlockTemplate_reads_removed [OF free_pool_inv, of free_pending])
    (simp_all add: free_pool_def free_pending_facts mainnet_def FUSION_TX_MAX_SIZE_def
      MEVACOIN_BLOCK_GRANTED_FULL_REWARD_ZONE_CURRENT_def MEVACOIN_BLOCK_GRANTED_FULL_REWARD_ZONE_def word_le_nat_alt)

end
