(* ===== verification/Blockchain_Cache.thy ===== *)
theory Blockchain_Cache
  imports Tx_Validation Consensus Upgrades "HOL-Library.Multiset"
begin

text \<open>
  The block chain in memory, \<^verbatim>\<open>src/mevacoin_core/blockchain_cache.cpp\<close>: a segment of consecutive blocks with the
  indices over them and a pointer to the segment below.  A segment with all the segments below it is a list, the
  segment itself first; the pointer \<open>parent\<close> is the tail of the list and the null pointer the empty list.  Reading
  through a null pointer, out of the bounds of a vector, and an exception are \<open>None\<close>.  The containers with a unique
  hashed index reject an element whose key they have.  The order in which a hashed container is traversed is
  unspecified: the spent key images are a set, and results that depend on the order are multisets or sets.
\<close>

section \<open>Data\<close>

record SpentKeyImage =
  ski_blockIndex :: u32
  ski_keyImage :: bytes

record CachedTransactionInfo =
  cti_blockIndex :: u32
  cti_transactionIndex :: u32
  cti_transactionHash :: bytes
  cti_unlockTime :: u64
  cti_outputs :: "TransactionOutputTarget list"
  cti_globalIndexes :: "u32 list"

record CachedBlockInfo =
  cbi_blockHash :: bytes
  cbi_timestamp :: u64
  cbi_cumulativeDifficulty :: u64
  cbi_alreadyGeneratedCoins :: u64
  cbi_alreadyGeneratedTransactions :: u64
  cbi_blockSize :: u32

record PackedOutIndex =
  poi_blockIndex :: u32
  poi_transactionIndex :: u16
  poi_outputIndex :: u16

record OutputGlobalIndexesForAmount =
  ogi_startIndex :: u32
  ogi_outputs :: "PackedOutIndex list"

record PaymentIdTransactionHashPair =
  pth_paymentId :: bytes
  pth_transactionHash :: bytes

record PushedBlockInfo =
  pbi_rawBlock :: RawBlock
  pbi_validatorState :: TransactionValidatorState
  pbi_blockSize :: u64
  pbi_generatedCoins :: u64
  pbi_blockDifficulty :: u64

record BlockchainCache =
  startIndex :: u32
  cache_transactions :: "CachedTransactionInfo list"
  spentKeyImages :: "SpentKeyImage set"
  blockInfos :: "CachedBlockInfo list"
  keyOutputsGlobalIndexes :: "u64 \<rightharpoonup> OutputGlobalIndexesForAmount"
  paymentIds :: "PaymentIdTransactionHashPair list"
  storage :: "RawBlock list"

type_synonym chain = "BlockchainCache list"

definition INVALID_BLOCK_INDEX :: u32 where "INVALID_BLOCK_INDEX = - 1"

section \<open>Vectors\<close>

text \<open>Reading a vector at an index.\<close>

definition vector_at :: "'a list \<Rightarrow> nat \<Rightarrow> 'a option" where
  "vector_at xs i = (if i < length xs then Some (xs ! i) else None)"

text \<open>The binary search of \<^verbatim>\<open>std::lower_bound\<close> in the range of \<open>len\<close> elements from \<open>first\<close>.\<close>

function lower_bound_from :: "('a \<Rightarrow> bool) \<Rightarrow> 'a list \<Rightarrow> nat \<Rightarrow> nat \<Rightarrow> nat" where
  "lower_bound_from prior xs first len =
     (if len = 0 then first
      else let half = len div 2
           in if prior (xs ! (first + half)) then lower_bound_from prior xs (first + half + 1) (len - half - 1)
              else lower_bound_from prior xs first half)"
  by pat_completeness auto
termination by (relation "measure (\<lambda>(_, _, _, len). len)") auto

declare lower_bound_from.simps [simp del]

definition lower_bound :: "('a \<Rightarrow> bool) \<Rightarrow> 'a list \<Rightarrow> nat" where
  "lower_bound prior xs = lower_bound_from prior xs 0 (length xs)"

section \<open>Queries about blocks\<close>

definition getBlockCount :: "BlockchainCache \<Rightarrow> u32" where
  "getBlockCount s = of_nat (length (blockInfos s))"

definition getTopBlockIndex :: "BlockchainCache \<Rightarrow> u32" where
  "getTopBlockIndex s = startIndex s + of_nat (length (blockInfos s)) - 1"

definition getTopBlockHash :: "BlockchainCache \<Rightarrow> bytes option" where
  "getTopBlockHash s = (if blockInfos s = [] then None else Some (cbi_blockHash (last (blockInfos s))))"

definition hasBlock :: "BlockchainCache \<Rightarrow> bytes \<Rightarrow> bool" where
  "hasBlock s blockHash = list_ex (\<lambda>b. cbi_blockHash b = blockHash) (blockInfos s)"

text \<open>The position of a block in its segment, found by its hash; \<open>None\<close> is the exception \<^verbatim>\<open>no such block\<close>.\<close>

definition cache_getBlockIndex :: "BlockchainCache \<Rightarrow> bytes \<Rightarrow> u32 option" where
  "cache_getBlockIndex s blockHash =
     (if hasBlock s blockHash
      then Some (of_nat (length (takeWhile (\<lambda>b. cbi_blockHash b \<noteq> blockHash) (blockInfos s))) + startIndex s)
      else None)"

text \<open>The description of a block, for the queries that go down to the segment of the block.\<close>

fun block_info_at :: "chain \<Rightarrow> u32 \<Rightarrow> CachedBlockInfo option" where
  "block_info_at [] index = None"
| "block_info_at (s # ps) index =
     (if index < startIndex s then block_info_at ps index
      else vector_at (blockInfos s) (unat (index - startIndex s)))"

definition cache_getBlockHash :: "chain \<Rightarrow> u32 \<Rightarrow> bytes option" where
  "cache_getBlockHash ch index = map_option cbi_blockHash (block_info_at ch index)"

definition getAlreadyGeneratedCoins :: "chain \<Rightarrow> u32 \<Rightarrow> u64 option" where
  "getAlreadyGeneratedCoins ch index = map_option cbi_alreadyGeneratedCoins (block_info_at ch index)"

definition getAlreadyGeneratedTransactions :: "chain \<Rightarrow> u32 \<Rightarrow> u64 option" where
  "getAlreadyGeneratedTransactions ch index = map_option cbi_alreadyGeneratedTransactions (block_info_at ch index)"

text \<open>This query does not go down.\<close>

definition getCurrentCumulativeDifficulty :: "BlockchainCache \<Rightarrow> u32 \<Rightarrow> u64 option" where
  "getCurrentCumulativeDifficulty s index =
     map_option cbi_cumulativeDifficulty (vector_at (blockInfos s) (unat (index - startIndex s)))"

definition getCurrentCumulativeDifficulty_top :: "BlockchainCache \<Rightarrow> u64 option" where
  "getCurrentCumulativeDifficulty_top s =
     (if blockInfos s = [] then None else Some (cbi_cumulativeDifficulty (last (blockInfos s))))"

fun cache_getBlockHashes :: "chain \<Rightarrow> u32 \<Rightarrow> u64 \<Rightarrow> bytes list option" where
  "cache_getBlockHashes [] startBlockIndex maxCount = None"
| "cache_getBlockHashes (s # ps) startBlockIndex maxCount =
     do {
       (found, start, blocksLeft) \<leftarrow>
         (if startBlockIndex < startIndex s
          then do {
            found \<leftarrow> cache_getBlockHashes ps startBlockIndex maxCount;
            Some (found, 0, min (maxCount - of_nat (length found)) (of_nat (length (blockInfos s))))
          }
          else let start = (ucast (startBlockIndex - startIndex s) :: u64)
               in Some ([], start, min (of_nat (length (blockInfos s)) - start) maxCount));
       let stop = start + blocksLeft;
       if stop \<le> start then Some found
       else if unat stop \<le> length (blockInfos s)
       then Some (found @ map cbi_blockHash (drop (unat start) (take (unat stop) (blockInfos s))))
       else None
     }"

fun getLastUnits :: "(CachedBlockInfo \<Rightarrow> u64) \<Rightarrow> chain \<Rightarrow> u64 \<Rightarrow> u32 \<Rightarrow> bool \<Rightarrow> u64 list option" where
  "getLastUnits pred [] cnt index useGenesis = None"
| "getLastUnits pred (s # ps) cnt index useGenesis =
     (let upto = (if index < startIndex s then 0 else index - startIndex s + 1);
          realCount = min cnt (ucast upto);
          from = ucast upto - realCount;
          skip = (\<not> useGenesis \<and> from = 0 \<and> realCount \<noteq> 0 \<and> ps = []);
          from = (if skip then from + 1 else from);
          realCount = (if skip then realCount - 1 else realCount)
      in do {
        result \<leftarrow> (if realCount < cnt \<and> ps \<noteq> []
                   then getLastUnits pred ps (cnt - realCount) (min index (getTopBlockIndex (hd ps))) useGenesis
                   else Some []);
        if unat upto \<le> length (blockInfos s)
        then Some (result @ map pred (drop (unat from) (take (unat upto) (blockInfos s))))
        else None
      })"

text \<open>In the calls below the last argument is \<^verbatim>\<open>addGenesisBlock\<close>, that is true, or \<^verbatim>\<open>skipGenesisBlock\<close>, that is false.\<close>

definition getLastTimestamps :: "chain \<Rightarrow> u64 \<Rightarrow> u32 \<Rightarrow> bool \<Rightarrow> u64 list option" where
  "getLastTimestamps = getLastUnits cbi_timestamp"

definition getLastBlocksSizes :: "chain \<Rightarrow> u64 \<Rightarrow> u32 \<Rightarrow> bool \<Rightarrow> u64 list option" where
  "getLastBlocksSizes = getLastUnits (\<lambda>cb. ucast (cbi_blockSize cb))"

definition getLastCumulativeDifficulties :: "chain \<Rightarrow> u64 \<Rightarrow> u32 \<Rightarrow> bool \<Rightarrow> u64 list option" where
  "getLastCumulativeDifficulties = getLastUnits cbi_cumulativeDifficulty"

definition getDifficultyForNextBlock :: "Currency \<Rightarrow> chain \<Rightarrow> u32 \<Rightarrow> u64 option" where
  "getDifficultyForNextBlock c ch index =
     (let nextBlockMajorVersion = getBlockMajorVersionForHeight c (index + 1);
          n = difficultyBlocksCountByBlockVersion c nextBlockMajorVersion index
      in do {
        timestamps \<leftarrow> getLastTimestamps ch n index False;
        commulativeDifficulties \<leftarrow> getLastCumulativeDifficulties ch n index False;
        getNextDifficulty c nextBlockMajorVersion index timestamps commulativeDifficulties
      })"

text \<open>The height of the first block that is not older than a time.\<close>

fun getBlockHeightForTimestamp :: "chain \<Rightarrow> u64 \<Rightarrow> (bool \<times> u64) option" where
  "getBlockHeightForTimestamp [] time = None"
| "getBlockHeightForTimestamp (s # ps) time =
     (if blockInfos s = [] then None
      else if cbi_timestamp (last (blockInfos s)) < time then Some (False, 0)
      else if time \<le> cbi_timestamp (hd (blockInfos s))
      then Some (True, ucast (startIndex s) + of_nat (lower_bound (\<lambda>b. cbi_timestamp b < time) (blockInfos s)))
      else if ps = [] then Some (False, 0)
      else getBlockHeightForTimestamp ps time)"

text \<open>The left result is the exception \<^verbatim>\<open>runtime_error\<close>, which the segment above catches.\<close>

fun getTimestampLowerBoundBlockIndex :: "chain \<Rightarrow> u64 \<Rightarrow> (unit + u32) option" where
  "getTimestampLowerBoundBlockIndex [] time = None"
| "getTimestampLowerBoundBlockIndex (s # ps) time =
     (if blockInfos s = [] then None
      else if cbi_timestamp (last (blockInfos s)) < time then Some (Inl ())
      else if cbi_timestamp (hd (blockInfos s)) < time
      then Some (Inr (startIndex s + of_nat (lower_bound (\<lambda>b. cbi_timestamp b < time) (blockInfos s))))
      else if ps = [] then Some (Inr 0)
      else case getTimestampLowerBoundBlockIndex ps time of
             None \<Rightarrow> None
           | Some (Inl _) \<Rightarrow> Some (Inr (startIndex s))
           | Some (Inr index) \<Rightarrow> Some (Inr (if index \<noteq> INVALID_BLOCK_INDEX then index else startIndex s)))"

text \<open>
  The blocks of a segment in the order of their times, with the positions of \<^verbatim>\<open>lower_bound\<close> and \<^verbatim>\<open>upper_bound\<close>; a
  range that ends before it begins, after a wrapped end of the interval, is undefined.
\<close>

fun getBlockHashesByTimestamps :: "chain \<Rightarrow> u64 \<Rightarrow> u64 \<Rightarrow> bytes list option" where
  "getBlockHashesByTimestamps [] timestampBegin secondsCount = Some []"
| "getBlockHashesByTimestamps (s # ps) timestampBegin secondsCount =
     (if secondsCount = 0 then Some []
      else do {
        blockHashes \<leftarrow> getBlockHashesByTimestamps ps timestampBegin secondsCount;
        let index = sort_key cbi_timestamp (blockInfos s);
        let from = length (takeWhile (\<lambda>b. cbi_timestamp b < timestampBegin) index);
        let upto = length (takeWhile (\<lambda>b. cbi_timestamp b \<le> timestampBegin + secondsCount - 1) index);
        if from \<le> upto then Some (blockHashes @ map cbi_blockHash (drop from (take upto index))) else None
      })"

section \<open>Queries about transactions and spent outputs\<close>

fun cache_checkIfSpent :: "chain \<Rightarrow> bytes \<Rightarrow> u32 \<Rightarrow> bool option" where
  "cache_checkIfSpent [] ki index = None"
| "cache_checkIfSpent (s # ps) ki index =
     (if index < startIndex s then cache_checkIfSpent ps ki index
      else if \<forall>sp \<in> spentKeyImages s. ski_keyImage sp \<noteq> ki
      then (if ps \<noteq> [] then cache_checkIfSpent ps ki index else Some False)
      else Some (\<exists>sp \<in> spentKeyImages s. ski_keyImage sp = ki \<and> ski_blockIndex sp \<le> index))"

definition checkIfSpent_any :: "chain \<Rightarrow> bytes \<Rightarrow> bool" where
  "checkIfSpent_any ch ki = list_ex (\<lambda>s. \<exists>sp \<in> spentKeyImages s. ski_keyImage sp = ki) ch"

definition fillOutputsSpentByBlock :: "BlockchainCache \<Rightarrow> u32 \<Rightarrow> TransactionValidatorState" where
  "fillOutputsSpentByBlock s index = ski_keyImage ` {sp \<in> spentKeyImages s. ski_blockIndex sp = index}"

definition find_transaction :: "BlockchainCache \<Rightarrow> bytes \<Rightarrow> CachedTransactionInfo option" where
  "find_transaction s h = find (\<lambda>t. cti_transactionHash t = h) (cache_transactions s)"

definition hasTransaction :: "BlockchainCache \<Rightarrow> bytes \<Rightarrow> bool" where
  "hasTransaction s h \<longleftrightarrow> find_transaction s h \<noteq> None"

definition getBlockIndexContainingTx :: "BlockchainCache \<Rightarrow> bytes \<Rightarrow> u32 option" where
  "getBlockIndexContainingTx s h = map_option cti_blockIndex (find_transaction s h)"

definition getTransactionGlobalIndexes :: "BlockchainCache \<Rightarrow> bytes \<Rightarrow> u32 list option" where
  "getTransactionGlobalIndexes s h = map_option cti_globalIndexes (find_transaction s h)"

definition cache_getTransactionHashes :: "BlockchainCache \<Rightarrow> bytes set" where
  "cache_getTransactionHashes s = cti_transactionHash ` {t \<in> set (cache_transactions s). cti_transactionIndex t \<noteq> 0}"

definition cache_getTransactionCount :: "chain \<Rightarrow> u64" where
  "cache_getTransactionCount ch = (\<Sum>s\<leftarrow>ch. of_nat (length (cache_transactions s)))"

definition cache_getTransactionHashesByPaymentId :: "chain \<Rightarrow> bytes \<Rightarrow> bytes multiset" where
  "cache_getTransactionHashesByPaymentId ch pid =
     (\<Sum>s\<leftarrow>rev ch. mset (map pth_transactionHash (filter (\<lambda>p. pth_paymentId p = pid) (paymentIds s))))"

text \<open>The result is a map; the hashes no segment has lead to a read through the null pointer.\<close>

fun cache_getGlobalIndexes :: "chain \<Rightarrow> bytes list \<Rightarrow> (bytes \<rightharpoonup> u64 list) option" where
  "cache_getGlobalIndexes [] txHashes = None"
| "cache_getGlobalIndexes (s # ps) txHashes =
     (let own = (\<lambda>h. if h \<in> set txHashes then map_option (map ucast) (getTransactionGlobalIndexes s h) else None);
          remaining = filter (\<lambda>h. \<not> hasTransaction s h) txHashes
      in if remaining = [] then Some own
         else map_option (\<lambda>below. below ++ own) (cache_getGlobalIndexes ps remaining))"

fun getBlockByIndex :: "chain \<Rightarrow> u32 \<Rightarrow> RawBlock option" where
  "getBlockByIndex [] index = None"
| "getBlockByIndex (s # ps) index =
     (if index < startIndex s then getBlockByIndex ps index else vector_at (storage s) (unat (index - startIndex s)))"

fun getBlocksByHeight :: "chain \<Rightarrow> u64 \<Rightarrow> u64 \<Rightarrow> RawBlock list option" where
  "getBlocksByHeight [] startHeight endHeight = None"
| "getBlocksByHeight (s # ps) startHeight endHeight =
     (if endHeight < ucast (startIndex s) then getBlocksByHeight ps startHeight endHeight
      else do {
        blocks \<leftarrow> (if startHeight < ucast (startIndex s)
                   then getBlocksByHeight ps startHeight (ucast (startIndex s)) else Some []);
        let startOffset = max startHeight (ucast (startIndex s));
        let blockCount = (ucast (of_nat (length (storage s)) :: u32) :: u64);
        let endHeight = (if ucast (startIndex s) + blockCount < endHeight then ucast (startIndex s) + blockCount else endHeight);
        Some (blocks @ drop (unat (startOffset - ucast (startIndex s)))
                         (take (unat (endHeight - ucast (startIndex s))) (storage s)))
      })"

definition base_transaction_bytes :: "BlockTemplate \<Rightarrow> bytes \<Rightarrow> bytes option" where
  "base_transaction_bytes uninit ba =
     do {
       block \<leftarrow> returned (fromBinaryArray (read_BlockTemplate uninit) ba);
       returned (write_Transaction (baseTransaction block))
     }"

fun getRawTransaction :: "BlockTemplate \<Rightarrow> chain \<Rightarrow> u32 \<Rightarrow> u32 \<Rightarrow> bytes option" where
  "getRawTransaction uninit [] index transactionIndex = None"
| "getRawTransaction uninit (s # ps) index transactionIndex =
     (if index < startIndex s then getRawTransaction uninit ps index transactionIndex
      else do {
        rawBlock \<leftarrow> vector_at (storage s) (unat (index - startIndex s));
        if transactionIndex = 0 then base_transaction_bytes uninit (raw_block rawBlock)
        else vector_at (raw_transactions rawBlock) (unat (transactionIndex - 1))
      })"

text \<open>The transactions found and the hashes missed.\<close>

fun getRawTransactions :: "BlockTemplate \<Rightarrow> chain \<Rightarrow> bytes list \<Rightarrow> bytes list \<times> bytes list \<Rightarrow> (bytes list \<times> bytes list) option" where
  "getRawTransactions uninit ch [] (found, missed) = Some (found, missed)"
| "getRawTransactions uninit ch (h # hs) (found, missed) =
     (if ch = [] then None
      else case find_transaction (hd ch) h of
        None \<Rightarrow> getRawTransactions uninit ch hs (found, missed @ [h])
      | Some t \<Rightarrow> do {
          ba \<leftarrow> getRawTransaction uninit ch (cti_blockIndex t) (cti_transactionIndex t);
          getRawTransactions uninit ch hs (found @ [ba], missed)
        })"

text \<open>Whether an output can be spent; \<open>now\<close> is the value of the clock.\<close>

definition isTransactionSpendTimeUnlocked :: "Currency \<Rightarrow> u64 \<Rightarrow> u64 \<Rightarrow> u32 \<Rightarrow> bool" where
  "isTransactionSpendTimeUnlocked c now unlock index =
     (if unlock < ucast (m_maxBlockHeight c) then unlock \<le> ucast index + m_lockedTxAllowedDeltaBlocks c
      else unlock \<le> now + m_lockedTxAllowedDeltaSeconds c)"

fun getKeyOutputsCountForAmount :: "chain \<Rightarrow> u64 \<Rightarrow> u32 \<Rightarrow> u64" where
  "getKeyOutputsCountForAmount [] amount index = 0"
| "getKeyOutputsCountForAmount (s # ps) amount index =
     (case keyOutputsGlobalIndexes s amount of
        None \<Rightarrow> getKeyOutputsCountForAmount ps amount index
      | Some e \<Rightarrow> ucast (ogi_startIndex e) + of_nat (lower_bound (\<lambda>out. poi_blockIndex out < index) (ogi_outputs e)))"

text \<open>
  The loop over the global indices of one segment.  The function \<open>pred\<close> is called for every output; it may change a
  state, as the closures of the callers do.
\<close>

type_synonym 'st output_pred = "CachedTransactionInfo \<Rightarrow> PackedOutIndex \<Rightarrow> u32 \<Rightarrow> 'st \<Rightarrow> (ExtractOutputKeysResult \<times> 'st) option"

definition find_in_block :: "BlockchainCache \<Rightarrow> PackedOutIndex \<Rightarrow> CachedTransactionInfo option" where
  "find_in_block s out = find (\<lambda>t. cti_blockIndex t = poi_blockIndex out \<and>
     cti_transactionIndex t = ucast (poi_transactionIndex out)) (cache_transactions s)"

fun extract_own :: "'st output_pred \<Rightarrow> BlockchainCache \<Rightarrow> u32 \<Rightarrow> PackedOutIndex list \<Rightarrow> u32 list \<Rightarrow> 'st \<Rightarrow>
  (ExtractOutputKeysResult \<times> 'st) option" where
  "extract_own pred s start outs [] st = Some (SUCCESS, st)"
| "extract_own pred s start outs (gi # gis) st =
     (if length outs \<le> unat (gi - start) then Some (INVALID_GLOBAL_INDEX, st)
      else case find_in_block s (outs ! unat (gi - start)) of
        None \<Rightarrow> Some (INVALID_GLOBAL_INDEX, st)
      | Some t \<Rightarrow> do {
          (ret, st) \<leftarrow> pred t (outs ! unat (gi - start)) gi st;
          if ret \<noteq> SUCCESS then Some (ret, st) else extract_own pred s start outs gis st
        })"

fun extractKeyOutputs :: "'st output_pred \<Rightarrow> chain \<Rightarrow> u64 \<Rightarrow> u32 \<Rightarrow> u32 list \<Rightarrow> 'st \<Rightarrow> (ExtractOutputKeysResult \<times> 'st) option" where
  "extractKeyOutputs pred [] amount index globalIndexes st = None"
| "extractKeyOutputs pred (s # ps) amount index globalIndexes st =
     (case keyOutputsGlobalIndexes s amount of
        None \<Rightarrow> (if ps \<noteq> [] then extractKeyOutputs pred ps amount index globalIndexes st
                 else Some (INVALID_GLOBAL_INDEX, st))
      | Some e \<Rightarrow>
          (if index < startIndex s
           then (if ps \<noteq> [] then extractKeyOutputs pred ps amount index globalIndexes st
                 else Some (INVALID_GLOBAL_INDEX, st))
           else let start = ogi_startIndex e;
                    offset = lower_bound (\<lambda>gi. gi < start) globalIndexes
                in do {
                  (ret, st) \<leftarrow> (if offset \<noteq> 0
                               then extractKeyOutputs pred ps amount index (take offset globalIndexes) st
                               else Some (SUCCESS, st));
                  if ret \<noteq> SUCCESS then Some (ret, st)
                  else extract_own pred s start (ogi_outputs e) (drop offset globalIndexes) st
                }))"

definition collect_keys :: "Currency \<Rightarrow> u64 \<Rightarrow> u32 \<Rightarrow> bytes list output_pred" where
  "collect_keys c now index info out gi publicKeys =
     (if \<not> isTransactionSpendTimeUnlocked c now (cti_unlockTime info) index then Some (OUTPUT_LOCKED, publicKeys)
      else do {
        tgt \<leftarrow> vector_at (cti_outputs info) (unat (poi_outputIndex out));
        Some (SUCCESS, publicKeys @ [out_key tgt])
      })"

definition cache_extractKeyOutputKeys ::
  "Currency \<Rightarrow> u64 \<Rightarrow> chain \<Rightarrow> u64 \<Rightarrow> u32 \<Rightarrow> u32 list \<Rightarrow> (ExtractOutputKeysResult \<times> bytes list) option" where
  "cache_extractKeyOutputKeys c now ch amount index globalIndexes =
     extractKeyOutputs (collect_keys c now index) ch amount index globalIndexes []"

definition extractKeyOtputIndexes :: "chain \<Rightarrow> u64 \<Rightarrow> u32 list \<Rightarrow> (ExtractOutputKeysResult \<times> PackedOutIndex list) option" where
  "extractKeyOtputIndexes ch amount globalIndexes =
     (if ch = [] then None
      else extractKeyOutputs (\<lambda>info out gi outs. Some (SUCCESS, outs @ [out])) ch amount (getTopBlockIndex (hd ch)) globalIndexes [])"

definition extractKeyOtputReferences :: "chain \<Rightarrow> u64 \<Rightarrow> u32 list \<Rightarrow> (ExtractOutputKeysResult \<times> (bytes \<times> u16) list) option" where
  "extractKeyOtputReferences ch amount globalIndexes =
     (if ch = [] then None
      else extractKeyOutputs (\<lambda>info out gi refs. Some (SUCCESS, refs @ [(cti_transactionHash info, poi_outputIndex out)]))
        ch amount (getTopBlockIndex (hd ch)) globalIndexes [])"

section \<open>Adding a block\<close>

definition insertKeyOutputToGlobalIndex ::
  "chain \<Rightarrow> u64 \<Rightarrow> PackedOutIndex \<Rightarrow> u32 \<Rightarrow> (u64 \<rightharpoonup> OutputGlobalIndexesForAmount) \<Rightarrow> u32 \<times> (u64 \<rightharpoonup> OutputGlobalIndexesForAmount)" where
  "insertKeyOutputToGlobalIndex ps amount out index m =
     (let e = (case m amount of
                 Some e \<Rightarrow> e\<lparr>ogi_outputs := ogi_outputs e @ [out]\<rparr>
               | None \<Rightarrow> \<lparr>ogi_startIndex = (if ps \<noteq> [] then ucast (getKeyOutputsCountForAmount ps amount index) else 0),
                          ogi_outputs = [out]\<rparr>)
      in (ogi_startIndex e + of_nat (length (ogi_outputs e)) - 1, m(amount \<mapsto> e)))"

fun push_outputs ::
  "chain \<Rightarrow> u32 \<Rightarrow> u16 \<Rightarrow> nat \<Rightarrow> TransactionOutput list \<Rightarrow> (u64 \<rightharpoonup> OutputGlobalIndexesForAmount) \<Rightarrow>
   u32 list \<times> (u64 \<rightharpoonup> OutputGlobalIndexesForAmount)" where
  "push_outputs ps index ti outputCount [] m = ([], m)"
| "push_outputs ps index ti outputCount (out # outs) m =
     (let poi = \<lparr>poi_blockIndex = index, poi_transactionIndex = ti, poi_outputIndex = of_nat outputCount\<rparr>;
          (gi, m) = insertKeyOutputToGlobalIndex ps (out_amount out) poi index m;
          (gis, m) = push_outputs ps index ti (outputCount + 1) outs m
      in (gi # gis, m))"

definition insert_transaction :: "CachedTransactionInfo \<Rightarrow> CachedTransactionInfo list \<Rightarrow> CachedTransactionInfo list" where
  "insert_transaction t ts =
     (if list_ex (\<lambda>t'. cti_transactionHash t' = cti_transactionHash t \<or>
            cti_blockIndex t' = cti_blockIndex t \<and> cti_transactionIndex t' = cti_transactionIndex t) ts
      then ts else ts @ [t])"

definition insert_payment :: "PaymentIdTransactionHashPair \<Rightarrow> PaymentIdTransactionHashPair list \<Rightarrow> PaymentIdTransactionHashPair list" where
  "insert_payment p pids = (if list_ex (\<lambda>p'. pth_transactionHash p' = pth_transactionHash p) pids then pids else pids @ [p])"

definition cache_pushTransaction :: "(bytes \<Rightarrow> bytes) \<Rightarrow> chain \<Rightarrow> CachedTransaction \<Rightarrow> u32 \<Rightarrow> u16 \<Rightarrow> BlockchainCache \<Rightarrow> BlockchainCache option" where
  "cache_pushTransaction cn ps ct index ti s =
     do {
       (h, ct) \<leftarrow> returned (getTransactionHash cn ct);
       let tx = transaction ct;
       let (gis, m) = push_outputs ps index ti 0 (outputs tx) (keyOutputsGlobalIndexes s);
       let info = \<lparr>cti_blockIndex = index, cti_transactionIndex = ucast ti, cti_transactionHash = h,
                    cti_unlockTime = unlockTime tx, cti_outputs = map target (outputs tx), cti_globalIndexes = gis\<rparr>;
       let s = s\<lparr>keyOutputsGlobalIndexes := m, cache_transactions := insert_transaction info (cache_transactions s)\<rparr>;
       Some (case getPaymentIdFromTxExtra (extra tx) of
               None \<Rightarrow> s
             | Some pid \<Rightarrow> s\<lparr>paymentIds := insert_payment \<lparr>pth_paymentId = pid, pth_transactionHash = h\<rparr> (paymentIds s)\<rparr>)
     }"

fun push_transactions :: "(bytes \<Rightarrow> bytes) \<Rightarrow> chain \<Rightarrow> u32 \<Rightarrow> nat \<Rightarrow> CachedTransaction list \<Rightarrow> BlockchainCache \<Rightarrow> BlockchainCache option" where
  "push_transactions cn ps index ti [] s = Some s"
| "push_transactions cn ps index ti (ct # cts) s =
     do { s \<leftarrow> cache_pushTransaction cn ps ct index (of_nat ti) s; push_transactions cn ps index (ti + 1) cts s }"

text \<open>Every key image of the set is added unless the container has it.\<close>

definition addSpentKeyImages :: "TransactionValidatorState \<Rightarrow> u32 \<Rightarrow> SpentKeyImage set \<Rightarrow> SpentKeyImage set" where
  "addSpentKeyImages kis index S =
     S \<union> (\<lambda>ki. \<lparr>ski_blockIndex = index, ski_keyImage = ki\<rparr>) ` {ki \<in> kis. \<forall>sp \<in> S. ski_keyImage sp \<noteq> ki}"

text \<open>The totals up to the block before the new one: of this segment, or of the one below if this one is empty.\<close>

definition previous_totals :: "chain \<Rightarrow> u32 \<Rightarrow> (u64 \<times> u64 \<times> u64) option" where
  "previous_totals ch index =
     (if getBlockCount (hd ch) = 0
      then (if tl ch \<noteq> []
            then do {
              difficulty \<leftarrow> getCurrentCumulativeDifficulty (hd (tl ch)) (index - 1);
              coins \<leftarrow> getAlreadyGeneratedCoins (tl ch) (index - 1);
              txs \<leftarrow> getAlreadyGeneratedTransactions (tl ch) (index - 1);
              Some (difficulty, coins, txs)
            }
            else Some (0, 0, 0))
      else let lastBlockInfo = last (blockInfos (hd ch))
           in Some (cbi_cumulativeDifficulty lastBlockInfo, cbi_alreadyGeneratedCoins lastBlockInfo,
                    cbi_alreadyGeneratedTransactions lastBlockInfo))"

definition doPushBlock ::
  "(bytes \<Rightarrow> bytes) \<Rightarrow> BlockTemplate \<Rightarrow> CachedTransaction list \<Rightarrow> TransactionValidatorState \<Rightarrow> u64 \<Rightarrow> u64 \<Rightarrow> u64 \<Rightarrow> RawBlock \<Rightarrow>
   chain \<Rightarrow> chain option" where
  "doPushBlock cn block cts validatorState blockSize generatedCoins blockDifficulty rawBlock ch =
     (case ch of
        [] \<Rightarrow> None
      | s # ps \<Rightarrow>
          do {
            h \<leftarrow> returned (getBlockHash cn block);
            let index = getBlockIndex block;
            (difficulty, coins, txs) \<leftarrow> previous_totals ch index;
            let info = \<lparr>cbi_blockHash = h, cbi_timestamp = timestamp block,
                         cbi_cumulativeDifficulty = difficulty + blockDifficulty,
                         cbi_alreadyGeneratedCoins = coins + generatedCoins,
                         cbi_alreadyGeneratedTransactions = txs + of_nat (length cts) + 1,
                         cbi_blockSize = ucast blockSize\<rparr>;
            let s = s\<lparr>blockInfos := (if hasBlock s h then blockInfos s else blockInfos s @ [info]),
                      spentKeyImages := addSpentKeyImages validatorState index (spentKeyImages s)\<rparr>;
            s \<leftarrow> push_transactions cn ps index 0 (CachedTransaction_of (baseTransaction block) # cts) s;
            Some (s\<lparr>storage := storage s @ [rawBlock]\<rparr> # ps)
          })"

definition new_segment :: "u32 \<Rightarrow> BlockchainCache" where
  "new_segment start = \<lparr>startIndex = start, cache_transactions = [], spentKeyImages = {}, blockInfos = [],
     keyOutputsGlobalIndexes = Map.empty, paymentIds = [], storage = []\<rparr>"

text \<open>The constructor: a segment without parent starts with the genesis block.\<close>

definition BlockchainCache_root :: "(bytes \<Rightarrow> bytes) \<Rightarrow> Currency \<Rightarrow> chain option" where
  "BlockchainCache_root cn c =
     do {
       genesisBlock \<leftarrow> generateGenesisBlock c;
       let minerReward = sum_list (map out_amount (outputs (baseTransaction genesisBlock)));
       let coinbaseTransactionSize = fst (getObjectBinarySize write_Transaction (baseTransaction genesisBlock));
       ba \<leftarrow> returned (write_BlockTemplate cn genesisBlock);
       doPushBlock cn genesisBlock [] {} coinbaseTransactionSize minerReward 1
         \<lparr>raw_block = ba, raw_transactions = []\<rparr> [new_segment 0]
     }"

definition getPushedBlockInfo :: "chain \<Rightarrow> u32 \<Rightarrow> PushedBlockInfo option" where
  "getPushedBlockInfo ch index =
     (case ch of
        [] \<Rightarrow> None
      | s # ps \<Rightarrow>
          do {
            let localIndex = unat (index - startIndex s);
            cachedBlock \<leftarrow> vector_at (blockInfos s) localIndex;
            rawBlock \<leftarrow> vector_at (storage s) localIndex;
            (difficulty, coins) \<leftarrow>
              (if startIndex s < index
               then do {
                 previousBlock \<leftarrow> vector_at (blockInfos s) (unat (index - startIndex s - 1));
                 Some (cbi_cumulativeDifficulty previousBlock, cbi_alreadyGeneratedCoins previousBlock)
               }
               else if ps = [] then Some (0, 0)
               else do {
                 difficulties \<leftarrow> getLastCumulativeDifficulties ps 1 (startIndex s - 1) True;
                 difficulty \<leftarrow> vector_at difficulties 0;
                 coins \<leftarrow> getAlreadyGeneratedCoins ps (startIndex s - 1);
                 Some (difficulty, coins)
               });
            Some \<lparr>pbi_rawBlock = rawBlock, pbi_validatorState = fillOutputsSpentByBlock s index,
                   pbi_blockSize = ucast (cbi_blockSize cachedBlock),
                   pbi_generatedCoins = cbi_alreadyGeneratedCoins cachedBlock - coins,
                   pbi_blockDifficulty = cbi_cumulativeDifficulty cachedBlock - difficulty\<rparr>
          })"

section \<open>Splitting a segment\<close>

definition removePaymentId ::
  "bytes \<Rightarrow> PaymentIdTransactionHashPair list \<times> PaymentIdTransactionHashPair list \<Rightarrow>
   PaymentIdTransactionHashPair list \<times> PaymentIdTransactionHashPair list" where
  "removePaymentId h pp =
     (case find (\<lambda>p. pth_transactionHash p = h) (fst pp) of
        None \<Rightarrow> pp
      | Some p \<Rightarrow> (filter (\<lambda>p. pth_transactionHash p \<noteq> h) (fst pp), insert_payment p (snd pp)))"

definition splitGlobalIndexes ::
  "u32 \<Rightarrow> OutputGlobalIndexesForAmount \<Rightarrow> OutputGlobalIndexesForAmount option \<times> OutputGlobalIndexesForAmount option" where
  "splitGlobalIndexes splitBlockIndex e =
     (let k = lower_bound (\<lambda>out. poi_blockIndex out < splitBlockIndex) (ogi_outputs e);
          newCount = (of_nat (length (ogi_outputs e) - k) :: u32)
      in (if k = length (ogi_outputs e) then None
          else Some \<lparr>ogi_startIndex = ogi_startIndex e + of_nat (length (ogi_outputs e)) - newCount,
                     ogi_outputs = drop k (ogi_outputs e)\<rparr>,
          if k = 0 then None else Some (e\<lparr>ogi_outputs := take k (ogi_outputs e)\<rparr>)))"

text \<open>The payment identifiers that stay and those that move with the transactions from an index on.\<close>

definition split_payments :: "u32 \<Rightarrow> BlockchainCache \<Rightarrow> PaymentIdTransactionHashPair list \<times> PaymentIdTransactionHashPair list" where
  "split_payments splitBlockIndex s =
     fold removePaymentId (map cti_transactionHash (filter (\<lambda>t. splitBlockIndex \<le> cti_blockIndex t) (cache_transactions s)))
       (paymentIds s, [])"

definition upper_part :: "u32 \<Rightarrow> BlockchainCache \<Rightarrow> BlockchainCache" where
  "upper_part splitBlockIndex s =
     (let k = unat (splitBlockIndex - startIndex s)
      in \<lparr>startIndex = splitBlockIndex,
           cache_transactions = filter (\<lambda>t. splitBlockIndex \<le> cti_blockIndex t) (cache_transactions s),
           spentKeyImages = {sp \<in> spentKeyImages s. splitBlockIndex \<le> ski_blockIndex sp},
           blockInfos = drop k (blockInfos s),
           keyOutputsGlobalIndexes = (\<lambda>amount. Option.bind (keyOutputsGlobalIndexes s amount) (\<lambda>e. fst (splitGlobalIndexes splitBlockIndex e))),
           paymentIds = snd (split_payments splitBlockIndex s), storage = drop k (storage s)\<rparr>)"

definition lower_part :: "u32 \<Rightarrow> BlockchainCache \<Rightarrow> BlockchainCache" where
  "lower_part splitBlockIndex s =
     (let k = unat (splitBlockIndex - startIndex s)
      in \<lparr>startIndex = startIndex s,
           cache_transactions = filter (\<lambda>t. cti_blockIndex t < splitBlockIndex) (cache_transactions s),
           spentKeyImages = {sp \<in> spentKeyImages s. ski_blockIndex sp < splitBlockIndex},
           blockInfos = take k (blockInfos s),
           keyOutputsGlobalIndexes = (\<lambda>amount. Option.bind (keyOutputsGlobalIndexes s amount) (\<lambda>e. snd (splitGlobalIndexes splitBlockIndex e))),
           paymentIds = fst (split_payments splitBlockIndex s), storage = take k (storage s)\<rparr>)"

text \<open>The result is the new upper part, with what remains in this segment as its parent.\<close>

definition split_cache :: "chain \<Rightarrow> u32 \<Rightarrow> chain option" where
  "split_cache ch splitBlockIndex =
     (case ch of
        [] \<Rightarrow> None
      | s # ps \<Rightarrow>
          let k = unat (splitBlockIndex - startIndex s)
          in if length (storage s) < k \<or> length (blockInfos s) < k then None
             else Some (upper_part splitBlockIndex s # lower_part splitBlockIndex s # ps))"

section \<open>The binary search\<close>

lemma lower_bound_from_bounds: "first \<le> lower_bound_from prior xs first len \<and> lower_bound_from prior xs first len \<le> first + len"
proof (induction prior xs first len rule: lower_bound_from.induct)
  case (1 prior xs first len)
  show ?case
  proof (cases "len = 0")
    case False
    then show ?thesis using 1 [OF False refl] by (subst (1 2) lower_bound_from.simps) (force simp: Let_def)
  qed (simp add: lower_bound_from.simps)
qed

lemma lower_bound_le: "lower_bound prior xs \<le> length xs"
  using lower_bound_from_bounds [of 0 prior xs "length xs"] by (simp add: lower_bound_def)

lemma lower_bound_from_partition:
  assumes "first \<le> k" "k \<le> first + len" "first + len \<le> length xs"
    and "\<forall>i < length xs. prior (xs ! i) \<longleftrightarrow> i < k"
  shows "lower_bound_from prior xs first len = k"
  using assms
proof (induction prior xs first len rule: lower_bound_from.induct)
  case (1 prior xs first len)
  show ?case
  proof (cases "len = 0")
    case False
    then show ?thesis using 1 by (subst lower_bound_from.simps) (simp add: Let_def)
  qed (use 1 in \<open>simp add: lower_bound_from.simps\<close>)
qed

lemma lower_bound_partition:
  assumes "k \<le> length xs" "\<forall>i < length xs. prior (xs ! i) \<longleftrightarrow> i < k"
  shows "lower_bound prior xs = k"
  using lower_bound_from_partition [of 0 k "length xs" xs prior] assms by (simp add: lower_bound_def)

lemma lower_bound_append:
  assumes "\<forall>x \<in> set xs. prior x" "\<forall>y \<in> set ys. \<not> prior y"
  shows "lower_bound prior (xs @ ys) = length xs"
  using assms by (intro lower_bound_partition) (auto simp: nth_append)

lemma sorted_partition:
  assumes "sorted (map f xs)"
  shows "filter (\<lambda>x. f x < b) xs @ filter (\<lambda>x. b \<le> f x) xs = xs"
  using assms
proof (induction xs)
  case (Cons x xs)
  show ?case
  proof (cases "f x < b")
    case False
    then have "\<forall>y \<in> set xs. b \<le> f y" using Cons.prems by (auto intro: order_trans)
    then have "filter (\<lambda>x. f x < b) xs = []" "filter (\<lambda>x. b \<le> f x) xs = xs"
      by (auto simp: filter_empty_conv filter_id_conv not_less)
    then show ?thesis using False by simp
  qed (use Cons in simp)
qed simp

lemma lower_bound_sorted:
  assumes "sorted (map f xs)"
  shows "lower_bound (\<lambda>x. f x < b) xs = length (filter (\<lambda>x. f x < b) xs)"
  using lower_bound_append [of "filter (\<lambda>x. f x < b) xs" "\<lambda>x. f x < b" "filter (\<lambda>x. b \<le> f x) xs"]
  by (auto simp: sorted_partition [OF assms] not_less)

end
