(* ===== verification/Chain_Views.thy ===== *)
theory Chain_Views
  imports Blockchain_Cache
begin

text \<open>
  A chain of segments answers as one long segment does.  \<open>flatten\<close> joins the segments; the queries commute with it,
  so that splitting a segment, which leaves the joined chain as it is, cannot be seen through them.
\<close>

section \<open>The joined chain\<close>

definition seg_outputs :: "BlockchainCache \<Rightarrow> u64 \<Rightarrow> PackedOutIndex list" where
  "seg_outputs s amount = (case keyOutputsGlobalIndexes s amount of None \<Rightarrow> [] | Some e \<Rightarrow> ogi_outputs e)"

primrec chain_blocks :: "chain \<Rightarrow> CachedBlockInfo list" where
  "chain_blocks [] = []"
| "chain_blocks (s # ps) = chain_blocks ps @ blockInfos s"

primrec chain_storage :: "chain \<Rightarrow> RawBlock list" where
  "chain_storage [] = []"
| "chain_storage (s # ps) = chain_storage ps @ storage s"

primrec chain_txs :: "chain \<Rightarrow> CachedTransactionInfo list" where
  "chain_txs [] = []"
| "chain_txs (s # ps) = chain_txs ps @ cache_transactions s"

primrec chain_outputs :: "chain \<Rightarrow> u64 \<Rightarrow> PackedOutIndex list" where
  "chain_outputs [] amount = []"
| "chain_outputs (s # ps) amount = chain_outputs ps amount @ seg_outputs s amount"

primrec chain_images :: "chain \<Rightarrow> SpentKeyImage set" where
  "chain_images [] = {}"
| "chain_images (s # ps) = chain_images ps \<union> spentKeyImages s"

abbreviation chain_height :: "chain \<Rightarrow> nat" where
  "chain_height ch \<equiv> length (chain_blocks ch)"

text \<open>The payment identifiers are treated apart: a split may change their order.\<close>

definition flatten :: "chain \<Rightarrow> BlockchainCache" where
  "flatten ch = \<lparr>startIndex = 0, cache_transactions = chain_txs ch, spentKeyImages = chain_images ch,
     blockInfos = chain_blocks ch,
     keyOutputsGlobalIndexes = (\<lambda>amount. if chain_outputs ch amount = [] then None
        else Some \<lparr>ogi_startIndex = 0, ogi_outputs = chain_outputs ch amount\<rparr>),
     paymentIds = [], storage = chain_storage ch\<rparr>"

section \<open>Well formed chains\<close>

definition in_segment :: "BlockchainCache \<Rightarrow> u32 \<Rightarrow> bool" where
  "in_segment s i \<longleftrightarrow> unat (startIndex s) \<le> unat i \<and> unat i < unat (startIndex s) + length (blockInfos s)"

definition entry_ok :: "BlockchainCache \<Rightarrow> nat \<Rightarrow> OutputGlobalIndexesForAmount \<Rightarrow> bool" where
  "entry_ok s below e \<longleftrightarrow> ogi_outputs e \<noteq> [] \<and> unat (ogi_startIndex e) = below \<and>
     sorted (map poi_blockIndex (ogi_outputs e)) \<and> (\<forall>out \<in> set (ogi_outputs e). in_segment s (poi_blockIndex out))"

definition segment_ok :: "BlockchainCache \<Rightarrow> chain \<Rightarrow> bool" where
  "segment_ok s ps \<longleftrightarrow>
     (ps \<noteq> [] \<longrightarrow> blockInfos (hd ps) \<noteq> []) \<and>
     unat (startIndex s) = chain_height ps \<and> length (storage s) = length (blockInfos s) \<and>
     (\<forall>sp \<in> spentKeyImages s. in_segment s (ski_blockIndex sp)) \<and>
     (\<forall>t \<in> set (cache_transactions s). in_segment s (cti_blockIndex t)) \<and>
     sorted (map cti_blockIndex (cache_transactions s)) \<and> distinct (map pth_transactionHash (paymentIds s)) \<and>
     (\<forall>amount e. keyOutputsGlobalIndexes s amount = Some e \<longrightarrow> entry_ok s (length (chain_outputs ps amount)) e)"

primrec segments_ok :: "chain \<Rightarrow> bool" where
  "segments_ok [] \<longleftrightarrow> True"
| "segments_ok (s # ps) \<longleftrightarrow> segment_ok s ps \<and> segments_ok ps"

text \<open>The part of this that concerns the blocks only.\<close>

primrec linked :: "chain \<Rightarrow> bool" where
  "linked [] \<longleftrightarrow> True"
| "linked (s # ps) \<longleftrightarrow> (ps \<noteq> [] \<longrightarrow> blockInfos (hd ps) \<noteq> []) \<and> unat (startIndex s) = chain_height ps \<and>
     length (storage s) = length (blockInfos s) \<and> linked ps"

definition tx_place :: "CachedTransactionInfo \<Rightarrow> u32 \<times> u32" where
  "tx_place t = (cti_blockIndex t, cti_transactionIndex t)"

definition out_place :: "PackedOutIndex \<Rightarrow> u32 \<times> u32" where
  "out_place out = (poi_blockIndex out, ucast (poi_transactionIndex out))"

definition chain_ok :: "chain \<Rightarrow> bool" where
  "chain_ok ch \<longleftrightarrow> ch \<noteq> [] \<and> segments_ok ch \<and> chain_height ch < 2 ^ 32 \<and>
     (\<forall>amount. length (chain_outputs ch amount) < 2 ^ 32) \<and>
     distinct (map cbi_blockHash (chain_blocks ch)) \<and> inj_on ski_keyImage (chain_images ch) \<and>
     distinct (map cti_transactionHash (chain_txs ch)) \<and> distinct (map tx_place (chain_txs ch)) \<and>
     (\<forall>amount. \<forall>out \<in> set (chain_outputs ch amount). \<exists>t \<in> set (chain_txs ch).
        tx_place t = out_place out \<and> unat (poi_outputIndex out) < length (cti_outputs t))"

lemma segments_ok_linked: "segments_ok ch \<Longrightarrow> linked ch"
  by (induction ch) (simp_all add: segment_ok_def)

lemma flatten_simps [simp]:
  "startIndex (flatten ch) = 0" "cache_transactions (flatten ch) = chain_txs ch" "spentKeyImages (flatten ch) = chain_images ch"
  "blockInfos (flatten ch) = chain_blocks ch" "storage (flatten ch) = chain_storage ch"
  "keyOutputsGlobalIndexes (flatten ch) amount = (if chain_outputs ch amount = [] then None
     else Some \<lparr>ogi_startIndex = 0, ogi_outputs = chain_outputs ch amount\<rparr>)"
  by (simp_all add: flatten_def)

lemma flatten_no_payments [simp]: "paymentIds (flatten ch) = []"
  by (simp add: flatten_def)

lemma seg_outputs_flatten [simp]: "seg_outputs (flatten ch) = chain_outputs ch"
  by (auto simp: seg_outputs_def)

lemma linked_storage_length: "linked ch \<Longrightarrow> length (chain_storage ch) = chain_height ch"
  by (induction ch) simp_all

lemmas chain_storage_length = linked_storage_length [OF segments_ok_linked]

lemma in_chain_height: "segments_ok (s # ps) \<Longrightarrow> in_segment s i \<Longrightarrow> chain_height ps \<le> unat i \<and> unat i < chain_height (s # ps)"
  by (simp add: in_segment_def segment_ok_def)

lemma chain_txs_bound: "segments_ok ch \<Longrightarrow> t \<in> set (chain_txs ch) \<Longrightarrow> unat (cti_blockIndex t) < chain_height ch"
  by (induction ch) (auto simp: segment_ok_def in_segment_def)

lemma chain_images_bound: "segments_ok ch \<Longrightarrow> sp \<in> chain_images ch \<Longrightarrow> unat (ski_blockIndex sp) < chain_height ch"
  by (induction ch) (auto simp: segment_ok_def in_segment_def)

lemma seg_outputs_in_segment: "segment_ok s ps \<Longrightarrow> out \<in> set (seg_outputs s amount) \<Longrightarrow> in_segment s (poi_blockIndex out)"
  by (cases "keyOutputsGlobalIndexes s amount") (auto simp: segment_ok_def seg_outputs_def entry_ok_def)

lemma chain_outputs_bound: "segments_ok ch \<Longrightarrow> out \<in> set (chain_outputs ch amount) \<Longrightarrow> unat (poi_blockIndex out) < chain_height ch"
proof (induction ch)
  case (Cons s ps)
  then show ?case using seg_outputs_in_segment [of s ps out amount] in_chain_height [of s ps] by auto
qed simp

lemma sorted_chain_txs: "segments_ok ch \<Longrightarrow> sorted (map cti_blockIndex (chain_txs ch))"
proof (induction ch)
  case (Cons s ps)
  moreover have "cti_blockIndex t \<le> cti_blockIndex t'" if "t \<in> set (chain_txs ps)" "t' \<in> set (cache_transactions s)" for t t'
    using that chain_txs_bound [of ps t] Cons.prems by (auto simp: segment_ok_def in_segment_def word_le_nat_alt)
  ultimately show ?case by (auto simp: sorted_append segment_ok_def)
qed simp

lemma sorted_chain_outputs: "segments_ok ch \<Longrightarrow> sorted (map poi_blockIndex (chain_outputs ch amount))"
proof (induction ch)
  case (Cons s ps)
  moreover have "poi_blockIndex t \<le> poi_blockIndex t'" if "t \<in> set (chain_outputs ps amount)" "t' \<in> set (seg_outputs s amount)" for t t'
    using that chain_outputs_bound [of ps t] seg_outputs_in_segment [of s ps t'] in_chain_height [of s ps] Cons.prems
    by (fastforce simp: word_le_nat_alt)
  moreover have "sorted (map poi_blockIndex (seg_outputs s amount))"
    using Cons.prems by (auto simp: segment_ok_def entry_ok_def seg_outputs_def split: option.split)
  ultimately show ?case by (auto simp: sorted_append)
qed simp

lemma chain_ok_flatten: "chain_ok ch \<Longrightarrow> chain_ok [flatten ch]"
  using chain_storage_length [of ch] sorted_chain_txs [of ch] sorted_chain_outputs [of ch] chain_images_bound [of ch]
    chain_txs_bound [of ch] chain_outputs_bound [of ch]
  by (auto simp: chain_ok_def segment_ok_def entry_ok_def in_segment_def)

section \<open>Queries on the joined chain\<close>

lemma vector_at_append:
  "vector_at (xs @ ys) i = (if i < length xs then vector_at xs i else vector_at ys (i - length xs))"
  by (auto simp: vector_at_def nth_append)

lemma block_info_at_linked: "linked ch \<Longrightarrow> block_info_at ch i = vector_at (chain_blocks ch) (unat i)"
proof (induction ch)
  case (Cons s ps)
  then show ?case by (auto simp: vector_at_append word_less_nat_alt unat_sub word_le_nat_alt not_less)
qed (simp add: vector_at_def)

lemma getBlockByIndex_linked: "linked ch \<Longrightarrow> getBlockByIndex ch i = vector_at (chain_storage ch) (unat i)"
proof (induction ch)
  case (Cons s ps)
  then show ?case using linked_storage_length [of ps]
    by (auto simp: vector_at_append word_less_nat_alt unat_sub word_le_nat_alt not_less)
qed (simp add: vector_at_def)

lemmas block_info_at_flat = block_info_at_linked [OF segments_ok_linked]
  and getBlockByIndex_flat = getBlockByIndex_linked [OF segments_ok_linked]

text \<open>The key image is spent in a block up to an index.\<close>

definition spent_upto :: "SpentKeyImage set \<Rightarrow> bytes \<Rightarrow> u32 \<Rightarrow> bool" where
  "spent_upto S ki index \<longleftrightarrow> (\<exists>sp \<in> S. ski_keyImage sp = ki \<and> ski_blockIndex sp \<le> index)"

lemma checkIfSpent_flat:
  "ch \<noteq> [] \<Longrightarrow> segments_ok ch \<Longrightarrow> inj_on ski_keyImage (chain_images ch) \<Longrightarrow>
     cache_checkIfSpent ch ki index = Some (spent_upto (chain_images ch) ki index)"
proof (induction ch)
  case (Cons s ps)
  have inj: "inj_on ski_keyImage (chain_images ps)" using Cons.prems(3) by (rule inj_on_subset) simp
  have own: "ski_blockIndex sp < startIndex s" if "sp \<in> chain_images ps" for sp
    using chain_images_bound [of ps sp] that Cons.prems(2) by (simp add: segment_ok_def word_less_nat_alt)
  have ge: "startIndex s \<le> ski_blockIndex sp" if "sp \<in> spentKeyImages s" for sp
    using that Cons.prems(2) by (auto simp: segment_ok_def in_segment_def word_le_nat_alt)
  show ?case
  proof (cases "index < startIndex s \<or> (\<forall>sp \<in> spentKeyImages s. ski_keyImage sp \<noteq> ki)")
    case True
    then have "spent_upto (chain_images (s # ps)) ki index = spent_upto (chain_images ps) ki index"
      using ge by (force simp: spent_upto_def)
    moreover have "cache_checkIfSpent (s # ps) ki index = Some (spent_upto (chain_images ps) ki index)"
    proof (cases "ps = []")
      case True
      then have "\<not> index < startIndex s" using Cons.prems(2) by (simp add: segment_ok_def unat_eq_0)
      then show ?thesis using True \<open>index < startIndex s \<or> _\<close> by (auto simp: spent_upto_def)
    next
      case False
      then show ?thesis using Cons.IH [OF False _ inj] Cons.prems(2) True by auto
    qed
    ultimately show ?thesis by simp
  next
    case False
    then obtain sp where sp: "sp \<in> spentKeyImages s" "ski_keyImage sp = ki" by blast
    then have "sp' = sp" if "sp' \<in> chain_images (s # ps)" "ski_keyImage sp' = ki" for sp'
      using that Cons.prems(3) by (simp add: inj_on_def)
    then show ?thesis using False sp by (auto simp: spent_upto_def)
  qed
qed simp

text \<open>The last values up to an index; the first block of the chain may be left out.\<close>

definition last_units :: "bool \<Rightarrow> nat \<Rightarrow> 'a list \<Rightarrow> 'a list" where
  "last_units useGenesis cnt xs = drop (max (length xs - cnt) (if useGenesis then 0 else 1)) xs"

lemma unat_min: "unat (min a b) = min (unat a) (unat (b :: 'a::len word))"
  by (simp add: min_def word_le_nat_alt)

lemma unat_ucast_32_64: "unat (ucast (x :: u32) :: u64) = unat x"
  by (rule unat_ucast_up) simp

text \<open>One segment, with the counters as numbers.\<close>

lemma getLastUnits_step:
  fixes s :: BlockchainCache and ps :: chain and index :: u32 and cnt :: u64 and useGenesis :: bool
  defines "u \<equiv> if index < startIndex s then 0 else index - startIndex s + 1"
  defines "r \<equiv> min (unat cnt) (unat u)"
  defines "skip \<equiv> \<not> useGenesis \<and> unat u = r \<and> r \<noteq> 0 \<and> ps = []"
  shows "getLastUnits f (s # ps) cnt index useGenesis =
    Option.bind (if r < unat cnt \<and> ps \<noteq> []
       then getLastUnits f ps (of_nat (unat cnt - r)) (min index (getTopBlockIndex (hd ps))) useGenesis else Some [])
     (\<lambda>result. if unat u \<le> length (blockInfos s)
       then Some (result @ map f (drop (unat u - r + of_bool skip) (take (unat u) (blockInfos s)))) else None)"
proof -
  let ?rc = "min cnt (ucast u)" and ?from = "ucast u - min cnt (ucast u) :: u64"
  have rc: "unat ?rc = r" by (simp add: r_def unat_min unat_ucast_32_64)
  have "?rc \<le> ucast u" by simp
  then have fr: "unat ?from = unat u - r" using unat_sub rc unat_ucast_32_64 by metis
  have skip: "(\<not> useGenesis \<and> ?from = 0 \<and> ?rc \<noteq> 0 \<and> ps = []) = skip"
    using rc fr by (auto simp: skip_def r_def unat_eq_0 [symmetric])
  have rest: "unat cnt - r = unat (cnt - ?rc)" using unat_sub [of ?rc cnt] rc by simp
  have diff: "of_nat (unat cnt - r) = cnt - ?rc" unfolding rest by simp
  have "unat (?from + 1) = unat u - r + 1"
    using fr unsigned_less [of u, where ?'a = nat] by (subst unat_add_no_overflow) auto
  then show ?thesis
  proof (cases skip)
    case True
    then have "ps = []" by (simp add: skip_def)
    then show ?thesis using True skip \<open>unat (?from + 1) = _\<close> unfolding u_def [symmetric]
      by (auto simp: Let_def u_def [symmetric])
  next
    case False
    then show ?thesis unfolding getLastUnits.simps Let_def u_def [symmetric] skip diff
      by (simp add: word_less_nat_alt rc fr)
  qed
qed

lemma last_units_append:
  assumes "xs \<noteq> []"
  shows "last_units useGenesis n (xs @ ys) =
    (if length ys < n then last_units useGenesis (n - length ys) xs @ ys else drop (length ys - n) ys)"
proof -
  define e :: nat where "e = (if useGenesis then 0 else 1)"
  have e: "e \<le> length xs" using assms by (cases xs) (auto simp: e_def)
  show ?thesis
  proof (cases "length ys < n")
    case True
    then have "length (xs @ ys) - n = length xs - (n - length ys)" by simp
    moreover have "max (length xs - (n - length ys)) e \<le> length xs" using e by simp
    ultimately show ?thesis using True by (simp add: last_units_def e_def [symmetric])
  next
    case False
    then have "max (length (xs @ ys) - n) e = length xs + (length ys - n)" using e by simp
    then show ?thesis using False by (simp only: last_units_def e_def [symmetric]) simp
  qed
qed

lemma top_of_linked:
  assumes "ps \<noteq> []" "linked ps" "chain_height ps < 2 ^ 32" "blockInfos (hd ps) \<noteq> []"
  shows "unat (getTopBlockIndex (hd ps)) = chain_height ps - 1"
proof -
  obtain q qs where ps: "ps = q # qs" using assms(1) by (cases ps) auto
  let ?k = "length (blockInfos q) - 1"
  have top: "getTopBlockIndex q = startIndex q + of_nat ?k"
    using assms(4) by (cases "blockInfos q") (simp_all add: ps getTopBlockIndex_def)
  have "unat (startIndex q) = chain_height qs" using assms(2) by (simp add: ps)
  moreover have k: "unat (of_nat ?k :: u32) = ?k" using assms(3) by (simp add: ps unat_of_nat take_bit_nat_eq_self)
  ultimately have "unat (getTopBlockIndex q) = chain_height qs + ?k"
    unfolding top using assms(3) ps by (subst unat_add_no_overflow) auto
  then show ?thesis using assms(4) by (cases "blockInfos q") (simp_all add: ps)
qed

lemma getLastUnits_linked:
  assumes "ch \<noteq> []" "linked ch" "chain_height ch < 2 ^ 32" "unat index < chain_height ch"
  shows "getLastUnits f ch cnt index useGenesis =
    Some (map f (last_units useGenesis (unat cnt) (take (unat index + 1) (chain_blocks ch))))"
  using assms
proof (induction ch arbitrary: cnt index)
  case (Cons s ps)
  let ?h = "chain_height ps" and ?n = "unat cnt"
  define u :: u32 where "u = (if index < startIndex s then 0 else index - startIndex s + 1)"
  have start: "unat (startIndex s) = ?h" using Cons.prems(2) by simp
  have u: "unat u = unat index + 1 - ?h"
  proof (cases "index < startIndex s")
    case False
    then have "unat (index - startIndex s) = unat index - ?h" using start by (simp add: unat_sub not_less)
    moreover have "unat (index - startIndex s) + 1 < 2 ^ 32" using calculation Cons.prems(3,4) by simp
    ultimately have "unat (index - startIndex s + 1) = unat index - ?h + 1" by (subst unat_add_no_overflow) auto
    then show ?thesis using False start by (simp add: u_def word_less_nat_alt)
  qed (use start in \<open>simp add: u_def word_less_nat_alt\<close>)
  have in_range: "unat u \<le> length (blockInfos s)" using u Cons.prems(4) by simp
  define r where "r = min ?n (unat u)"
  have step: "getLastUnits f (s # ps) cnt index useGenesis =
    Option.bind (if r < ?n \<and> ps \<noteq> []
       then getLastUnits f ps (of_nat (?n - r)) (min index (getTopBlockIndex (hd ps))) useGenesis else Some [])
     (\<lambda>result. Some (result @ map f (drop (unat u - r + of_bool (\<not> useGenesis \<and> unat u = r \<and> r \<noteq> 0 \<and> ps = []))
        (take (unat u) (blockInfos s)))))"
    using in_range unfolding getLastUnits_step u_def [symmetric] r_def [symmetric] by simp
  have blocks: "take (unat index + 1) (chain_blocks (s # ps)) = take (unat index + 1) (chain_blocks ps) @ take (unat u) (blockInfos s)"
    by (simp add: u)
  have len: "length (take (unat u) (blockInfos s)) = unat u" using in_range by simp
  show ?case
  proof (cases "ps = []")
    case True
    moreover have "unat u > 0" using u True by simp
    ultimately have "max (unat u - ?n) (if useGenesis then 0 else 1) = unat u - r + of_bool (\<not> useGenesis \<and> unat u = r \<and> r \<noteq> 0)"
      by (auto simp: r_def max_def min_def)
    then show ?thesis unfolding step blocks using True by (simp add: last_units_def len [simplified] in_range)
  next
    case False
    then have ne: "blockInfos (hd ps) \<noteq> []" "chain_blocks ps \<noteq> []" using Cons.prems(2) by (cases ps; auto)+
    then have xs: "take (unat index + 1) (chain_blocks ps) \<noteq> []" by simp
    have ok: "linked ps" "?h < 2 ^ 32" using Cons.prems(2,3) by simp_all
    have m: "unat (min index (getTopBlockIndex (hd ps))) = min (unat index) (?h - 1)"
      using top_of_linked [OF False ok ne(1)] by (simp add: unat_min)
    then have "take (unat (min index (getTopBlockIndex (hd ps))) + 1) (chain_blocks ps) = take (unat index + 1) (chain_blocks ps)"
      using ne(2) by (cases "unat index < ?h") simp_all
    moreover have "unat (of_nat (?n - r) :: u64) = ?n - r"
      using unat_lt_u64 [of cnt] by (intro unat_of_nat_u64) linarith
    moreover have "min (unat index) (?h - 1) < ?h" using ne(2) by (cases "chain_blocks ps") auto
    ultimately have "getLastUnits f ps (of_nat (?n - r)) (min index (getTopBlockIndex (hd ps))) useGenesis =
      Some (map f (last_units useGenesis (?n - r) (take (unat index + 1) (chain_blocks ps))))"
      using Cons.IH [OF False ok] m by simp
    moreover have "r = (if unat u < ?n then unat u else ?n)" by (simp add: r_def)
    ultimately show ?thesis using False unfolding step blocks last_units_append [OF xs] len
      by (cases "unat u < ?n") simp_all
  qed
qed simp

lemmas top_of_segments = top_of_linked [OF _ segments_ok_linked]
  and getLastUnits_flat = getLastUnits_linked [OF _ segments_ok_linked]

lemma unat_of_nat_below: "n \<le> m \<Longrightarrow> m < 2 ^ LENGTH('a) \<Longrightarrow> unat (of_nat n :: 'a::len word) = n"
  by (simp add: unat_of_nat)

lemma getBlockHashes_flat:
  assumes "ch \<noteq> []" "segments_ok ch" "chain_height ch < 2 ^ 32" "unat start \<le> chain_height ch"
  shows "cache_getBlockHashes ch start maxCount =
    Some (map cbi_blockHash (take (unat maxCount) (drop (unat start) (chain_blocks ch))))"
  using assms
proof (induction ch)
  case (Cons s ps)
  let ?h = "chain_height ps" and ?n = "unat maxCount" and ?L = "length (blockInfos s)"
  have start: "unat (startIndex s) = ?h" using Cons.prems(2) by (simp add: segment_ok_def)
  have L: "unat (of_nat ?L :: u64) = ?L" using Cons.prems(3) by (intro unat_of_nat_u64) simp
  show ?case
  proof (cases "start < startIndex s")
    case True
    then have below: "unat start < ?h" using start by (simp add: word_less_nat_alt)
    then have "ps \<noteq> []" by auto
    then have IH: "cache_getBlockHashes ps start maxCount =
        Some (map cbi_blockHash (take ?n (drop (unat start) (chain_blocks ps))))"
      using Cons.IH Cons.prems below by simp
    define m where "m = min ?n (?h - unat start)"
    have m: "unat (of_nat m :: u64) = m" using unat_lt_u64 [of maxCount] by (intro unat_of_nat_u64) (simp add: m_def min_less_iff_disj)
    then have "unat (maxCount - of_nat m) = ?n - m" by (subst unat_sub) (simp_all add: word_le_nat_alt m_def)
    then have k: "unat (min (maxCount - of_nat m) (of_nat ?L)) = min (?n - m) ?L" using L by (simp add: unat_min)
    have own: "take (min (?n - m) ?L) (blockInfos s) = take (?n - (?h - unat start)) (blockInfos s)"
    proof -
      have "?n - m = ?n - (?h - unat start)" by (simp add: m_def)
      then show ?thesis by (simp add: min_def)
    qed
    have "cache_getBlockHashes (s # ps) start maxCount =
        Some (map cbi_blockHash (take ?n (drop (unat start) (chain_blocks ps))) @ map cbi_blockHash (take (min (?n - m) ?L) (blockInfos s)))"
      using True IH k by (simp add: m_def [symmetric] min.commute [of _ ?n] word_le_nat_alt unat_eq_0 [symmetric])
    then show ?thesis unfolding own using below by simp
  next
    case False
    define i :: u64 where "i = ucast (start - startIndex s)"
    have i: "unat i = unat start - ?h" using False start by (simp add: i_def unat_ucast_32_64 unat_sub not_less)
    then have le: "unat i \<le> ?L" using Cons.prems(4) by simp
    then have "unat (of_nat ?L - i) = ?L - unat i" using L by (subst unat_sub) (simp_all add: word_le_nat_alt)
    then have k: "unat (min (of_nat ?L - i) maxCount) = min (?L - unat i) ?n" by (simp add: unat_min)
    have stop: "unat (i + min (of_nat ?L - i) maxCount) = unat i + min (?L - unat i) ?n"
      using k le Cons.prems(3) by (subst unat_add_no_overflow) simp_all
    then have "i + min (of_nat ?L - i) maxCount \<le> i \<longleftrightarrow> min (?L - unat i) ?n = 0"
      unfolding word_le_nat_alt by linarith
    moreover have "unat i + min (?L - unat i) ?n \<le> ?L" using le by simp
    ultimately have "cache_getBlockHashes (s # ps) start maxCount =
        Some (map cbi_blockHash (take (min (?L - unat i) ?n) (drop (unat i) (blockInfos s))))"
      using False stop by (simp add: Let_def i_def [symmetric] drop_take)
    moreover have "take (min (?L - unat i) ?n) (drop (unat i) (blockInfos s)) = take ?n (drop (unat i) (blockInfos s))"
      by (simp add: min_def)
    moreover have "?h \<le> unat start" using False start by (simp add: word_less_nat_alt)
    ultimately show ?thesis by (simp add: i)
  qed
qed simp

section \<open>Extraction of outputs\<close>

lemma find_in_block_flat:
  assumes "segments_ok (s # ps)"
  shows "in_segment s (poi_blockIndex out) \<Longrightarrow> find_in_block (flatten (s # ps)) out = find_in_block s out"
    and "unat (poi_blockIndex out) < chain_height ps \<Longrightarrow> find_in_block (flatten (s # ps)) out = find_in_block (flatten ps) out"
proof -
  let ?P = "\<lambda>t. cti_blockIndex t = poi_blockIndex out \<and> cti_transactionIndex t = ucast (poi_transactionIndex out)"
  show "find_in_block (flatten (s # ps)) out = find_in_block s out" if "in_segment s (poi_blockIndex out)"
  proof -
    have "find ?P (chain_txs ps) = None"
      using chain_txs_bound [of ps] in_chain_height [OF assms that] assms by (force simp: find_None_iff)
    then show ?thesis by (simp add: find_in_block_def find_append)
  qed
  show "find_in_block (flatten (s # ps)) out = find_in_block (flatten ps) out" if "unat (poi_blockIndex out) < chain_height ps"
  proof -
    have "find ?P (cache_transactions s) = None"
      using that assms by (force simp: find_None_iff segment_ok_def in_segment_def)
    then show ?thesis by (simp add: find_in_block_def find_append split: option.split)
  qed
qed

lemma extract_own_cong:
  assumes "\<And>gi. gi \<in> set gis \<Longrightarrow> length outs \<le> unat (gi - start) \<longleftrightarrow> length outs' \<le> unat (gi - start')"
    and "\<And>gi. gi \<in> set gis \<Longrightarrow> unat (gi - start) < length outs \<Longrightarrow> outs' ! unat (gi - start') = outs ! unat (gi - start) \<and>
      find_in_block s' (outs ! unat (gi - start)) = find_in_block s (outs ! unat (gi - start))"
  shows "extract_own pred s start outs gis st = extract_own pred s' start' outs' gis st"
  using assms
proof (induction gis arbitrary: st)
  case (Cons gi gis)
  have IH: "extract_own pred s start outs gis st = extract_own pred s' start' outs' gis st" for st
    using Cons.prems by (intro Cons.IH) auto
  show ?case
  proof (cases "length outs \<le> unat (gi - start)")
    case False
    then show ?thesis using Cons.prems [of gi] by (simp add: not_le IH split: option.split cong: if_cong)
  qed (use Cons.prems(1) [of gi] in simp)
qed simp

lemma extract_own_append:
  "extract_own pred s start outs (g1 @ g2) st =
     Option.bind (extract_own pred s start outs g1 st)
       (\<lambda>(ret, st). if ret \<noteq> SUCCESS then Some (ret, st) else extract_own pred s start outs g2 st)"
proof (induction g1 arbitrary: st)
  case (Cons gi g1)
  show ?case by (auto simp: Cons.IH split: option.split bind_split)
qed simp

lemma lower_bound_sorted_list:
  assumes "sorted gis"
  shows "\<forall>g \<in> set (take (lower_bound (\<lambda>g. g < b) gis) gis). g < b" "\<forall>g \<in> set (drop (lower_bound (\<lambda>g. g < b) gis) gis). b \<le> g"
proof -
  let ?k = "length (filter (\<lambda>g. g < b) gis)"
  have "gis = filter (\<lambda>g. g < b) gis @ filter (\<lambda>g. b \<le> g) gis" using sorted_partition [of id gis b] assms by simp
  then have "take ?k gis = filter (\<lambda>g. g < b) gis" "drop ?k gis = filter (\<lambda>g. b \<le> g) gis"
    by (metis append_eq_conv_conj)+
  moreover have "lower_bound (\<lambda>g. g < b) gis = ?k" using lower_bound_sorted [of id gis b] assms by simp
  ultimately show "\<forall>g \<in> set (take (lower_bound (\<lambda>g. g < b) gis) gis). g < b"
    "\<forall>g \<in> set (drop (lower_bound (\<lambda>g. g < b) gis) gis). b \<le> g" by simp_all
qed

text \<open>The outputs of the segments below and of the first segment, found in the joined chain.\<close>

lemma extract_below:
  assumes "segments_ok (s # ps)" "\<forall>gi \<in> set gis. unat gi < length (chain_outputs ps amount) \<or> seg_outputs s amount = []"
  shows "extract_own pred (flatten ps) 0 (chain_outputs ps amount) gis st =
    extract_own pred (flatten (s # ps)) 0 (chain_outputs (s # ps) amount) gis st"
proof (rule extract_own_cong)
  have ok: "segments_ok ps" using assms(1) by simp
  fix gi assume gi: "gi \<in> set gis"
  then show "length (chain_outputs ps amount) \<le> unat (gi - 0) \<longleftrightarrow> length (chain_outputs (s # ps) amount) \<le> unat (gi - 0)"
    using assms(2) by auto
  show "chain_outputs (s # ps) amount ! unat (gi - 0) = chain_outputs ps amount ! unat (gi - 0) \<and>
      find_in_block (flatten (s # ps)) (chain_outputs ps amount ! unat (gi - 0)) = find_in_block (flatten ps) (chain_outputs ps amount ! unat (gi - 0))"
    if lt: "unat (gi - 0) < length (chain_outputs ps amount)"
    using lt find_in_block_flat(2) [OF assms(1)] chain_outputs_bound [OF ok nth_mem [OF lt]] by (simp add: nth_append)
qed

lemma extract_above:
  assumes "segments_ok (s # ps)" "keyOutputsGlobalIndexes s amount = Some e" "\<forall>gi \<in> set gis. ogi_startIndex e \<le> gi"
  shows "extract_own pred s (ogi_startIndex e) (ogi_outputs e) gis st =
    extract_own pred (flatten (s # ps)) 0 (chain_outputs (s # ps) amount) gis st"
proof (rule extract_own_cong)
  let ?below = "chain_outputs ps amount"
  have e: "unat (ogi_startIndex e) = length ?below" "seg_outputs s amount = ogi_outputs e"
    and in_s: "\<forall>out \<in> set (ogi_outputs e). in_segment s (poi_blockIndex out)"
    using assms(1,2) by (auto simp: segment_ok_def entry_ok_def seg_outputs_def)
  fix gi assume "gi \<in> set gis"
  then have gi: "unat (gi - ogi_startIndex e) = unat gi - length ?below" "length ?below \<le> unat gi"
    using assms(3) e(1) by (simp_all add: unat_sub word_le_nat_alt)
  then show "length (ogi_outputs e) \<le> unat (gi - ogi_startIndex e) \<longleftrightarrow> length (chain_outputs (s # ps) amount) \<le> unat (gi - 0)"
    using e(2) by auto
  show "chain_outputs (s # ps) amount ! unat (gi - 0) = ogi_outputs e ! unat (gi - ogi_startIndex e) \<and>
    find_in_block (flatten (s # ps)) (ogi_outputs e ! unat (gi - ogi_startIndex e)) = find_in_block s (ogi_outputs e ! unat (gi - ogi_startIndex e))"
    if "unat (gi - ogi_startIndex e) < length (ogi_outputs e)"
    using gi e(2) find_in_block_flat(1) [OF assms(1)] in_s nth_mem [OF that] by (simp add: nth_append)
qed

lemma extractKeyOutputs_flat:
  assumes "ch \<noteq> []" "segments_ok ch" "chain_height ch \<le> unat index + 1" "sorted gis"
  shows "extractKeyOutputs pred ch amount index gis st =
    (if chain_outputs ch amount = [] then Some (INVALID_GLOBAL_INDEX, st)
     else extract_own pred (flatten ch) 0 (chain_outputs ch amount) gis st)"
  using assms
proof (induction ch arbitrary: gis)
  case (Cons s ps)
  let ?below = "chain_outputs ps amount" and ?own = "extract_own pred (flatten (s # ps)) 0 (chain_outputs (s # ps) amount)"
  have ok: "segments_ok ps" "chain_height ps \<le> unat index + 1" using Cons.prems by simp_all
  show ?case
  proof (cases "keyOutputsGlobalIndexes s amount")
    case None
    then have own: "seg_outputs s amount = []" by (simp add: seg_outputs_def)
    show ?thesis
    proof (cases "ps = []")
      case False
      then show ?thesis using None own Cons.IH [OF False ok Cons.prems(4)] extract_below [OF Cons.prems(2), of gis amount pred st] by simp
    qed (use None own in simp)
  next
    case (Some e)
    then have e: "ogi_outputs e \<noteq> []" "unat (ogi_startIndex e) = length ?below" "seg_outputs s amount = ogi_outputs e"
      and in_s: "\<forall>out \<in> set (ogi_outputs e). in_segment s (poi_blockIndex out)"
      using Cons.prems(2) by (auto simp: segment_ok_def entry_ok_def seg_outputs_def)
    have "blockInfos s \<noteq> []" using e(1) in_s by (cases "ogi_outputs e") (auto simp: in_segment_def)
    then have idx: "\<not> index < startIndex s" using Cons.prems(2,3) by (cases "blockInfos s") (auto simp: segment_ok_def word_less_nat_alt)
    define k where "k = lower_bound (\<lambda>gi. gi < ogi_startIndex e) gis"
    note parts = lower_bound_sorted_list [OF Cons.prems(4), of "ogi_startIndex e", folded k_def]
    have first: "(if k \<noteq> 0 then extractKeyOutputs pred ps amount index (take k gis) st else Some (SUCCESS, st)) = ?own (take k gis) st"
    proof (cases "k = 0")
      case False
      then obtain g where g: "g \<in> set (take k gis)" using lower_bound_le [of "\<lambda>gi. gi < ogi_startIndex e" gis]
        by (cases gis) (auto simp: k_def take_Cons')
      have lt: "\<forall>gi \<in> set (take k gis). unat gi < length ?below" using parts(1) e(2) by (simp add: word_less_nat_alt)
      then have "?below \<noteq> []" using g by auto
      moreover from this have "ps \<noteq> []" by auto
      moreover have "sorted (take k gis)" using Cons.prems(4) by (rule sorted_wrt_take)
      ultimately show ?thesis using False Cons.IH [OF _ ok] extract_below [OF Cons.prems(2), of "take k gis" amount pred st] lt by simp
    qed simp
    have "extractKeyOutputs pred (s # ps) amount index gis st =
      Option.bind (?own (take k gis) st) (\<lambda>(ret, st). if ret \<noteq> SUCCESS then Some (ret, st) else ?own (drop k gis) st)"
      using Some idx unfolding extractKeyOutputs.simps Let_def
      by (simp only: option.case k_def [symmetric] first extract_above [OF Cons.prems(2) Some parts(2)] if_False cong: if_cong)
    then show ?thesis using e(1,3) extract_own_append [of pred "flatten (s # ps)" 0 "chain_outputs (s # ps) amount" "take k gis" "drop k gis" st]
      by simp
  qed
qed simp

section \<open>Queries that cannot see the segments\<close>

text \<open>
  A query commutes with joining, at the heights it admits.  Two chains that join to the same segment give it the same
  answer.
\<close>

locale chain_query =
  fixes query :: "chain \<Rightarrow> 'r" and admits :: "nat \<Rightarrow> bool"
  assumes joined: "chain_ok ch \<Longrightarrow> admits (chain_height ch) \<Longrightarrow> query ch = query [flatten ch]"
begin

lemma same_view:
  assumes "chain_ok ch" "chain_ok ch'" "flatten ch' = flatten ch" "admits (chain_height ch)"
  shows "query ch' = query ch"
proof -
  have "chain_height ch' = chain_height ch" using arg_cong [OF assms(3), of blockInfos] by simp
  then show ?thesis using joined [OF assms(1,4)] joined [OF assms(2)] assms(3,4) by simp
qed

end

interpretation info_query: chain_query "\<lambda>ch. block_info_at ch i" "\<lambda>_. True" for i
proof
  fix ch assume "chain_ok ch"
  then show "block_info_at ch i = block_info_at [flatten ch] i"
    using chain_ok_flatten [of ch] by (simp add: block_info_at_flat chain_ok_def del: block_info_at.simps)
qed

interpretation raw_query: chain_query "\<lambda>ch. getBlockByIndex ch i" "\<lambda>_. True" for i
proof
  fix ch assume "chain_ok ch"
  then show "getBlockByIndex ch i = getBlockByIndex [flatten ch] i"
    using chain_ok_flatten [of ch] by (simp add: getBlockByIndex_flat chain_ok_def del: getBlockByIndex.simps)
qed

interpretation spent_query: chain_query "\<lambda>ch. cache_checkIfSpent ch ki i" "\<lambda>_. True" for ki i
proof
  fix ch assume "chain_ok ch"
  then show "cache_checkIfSpent ch ki i = cache_checkIfSpent [flatten ch] ki i"
    using chain_ok_flatten [of ch] by (simp add: checkIfSpent_flat chain_ok_def del: cache_checkIfSpent.simps)
qed

interpretation units_query: chain_query "\<lambda>ch. getLastUnits f ch cnt i g" "\<lambda>h. unat i < h" for f cnt i g
proof
  fix ch assume "chain_ok ch" "unat i < chain_height ch"
  then show "getLastUnits f ch cnt i g = getLastUnits f [flatten ch] cnt i g"
    using chain_ok_flatten [of ch] by (simp add: getLastUnits_flat chain_ok_def del: getLastUnits.simps)
qed

interpretation hashes_query: chain_query "\<lambda>ch. cache_getBlockHashes ch i n" "\<lambda>h. unat i \<le> h" for i n
proof
  fix ch assume "chain_ok ch" "unat i \<le> chain_height ch"
  then show "cache_getBlockHashes ch i n = cache_getBlockHashes [flatten ch] i n"
    using chain_ok_flatten [of ch] by (simp add: getBlockHashes_flat chain_ok_def del: cache_getBlockHashes.simps)
qed

interpretation output_query: chain_query "\<lambda>ch. if sorted gis then extractKeyOutputs pred ch amount i gis st else None"
  "\<lambda>h. h \<le> unat i + 1" for pred amount i gis st
proof
  fix ch assume ok: "chain_ok ch" and h: "chain_height ch \<le> unat i + 1"
  have "extract_own pred (flatten [flatten ch]) 0 (chain_outputs ch amount) gis st = extract_own pred (flatten ch) 0 (chain_outputs ch amount) gis st"
    by (rule extract_own_cong) (simp_all add: find_in_block_def)
  then show "(if sorted gis then extractKeyOutputs pred ch amount i gis st else None) =
      (if sorted gis then extractKeyOutputs pred [flatten ch] amount i gis st else None)"
    using ok h chain_ok_flatten [OF ok] by (simp add: extractKeyOutputs_flat chain_ok_def del: extractKeyOutputs.simps)
qed

section \<open>Splitting a segment\<close>

lemma splitGlobalIndexes_parts:
  assumes "sorted (map poi_blockIndex (ogi_outputs e))" "unat (ogi_startIndex e) + length (ogi_outputs e) < 2 ^ 32"
  shows "splitGlobalIndexes i e =
    (let low = filter (\<lambda>out. poi_blockIndex out < i) (ogi_outputs e); high = filter (\<lambda>out. i \<le> poi_blockIndex out) (ogi_outputs e)
     in (if high = [] then None else Some \<lparr>ogi_startIndex = ogi_startIndex e + of_nat (length low), ogi_outputs = high\<rparr>,
         if low = [] then None else Some (e\<lparr>ogi_outputs := low\<rparr>)))"
proof -
  let ?low = "filter (\<lambda>out. poi_blockIndex out < i) (ogi_outputs e)" and ?high = "filter (\<lambda>out. i \<le> poi_blockIndex out) (ogi_outputs e)"
  have outs: "ogi_outputs e = ?low @ ?high" using sorted_partition [OF assms(1), of i] by simp
  then have len: "length (ogi_outputs e) = length ?low + length ?high" by (metis length_append)
  have k: "lower_bound (\<lambda>out. poi_blockIndex out < i) (ogi_outputs e) = length ?low" by (rule lower_bound_sorted [OF assms(1)])
  have "take (length ?low) (ogi_outputs e) = ?low" "drop (length ?low) (ogi_outputs e) = ?high"
    using outs by (metis append_eq_conv_conj)+
  moreover have "length ?low = length (ogi_outputs e) \<longleftrightarrow> ?high = []" using len by simp
  moreover have "ogi_startIndex e + of_nat (length (ogi_outputs e)) - of_nat (length (ogi_outputs e) - length ?low) =
      ogi_startIndex e + of_nat (length ?low)" using len by simp
  ultimately show ?thesis unfolding splitGlobalIndexes_def Let_def k by auto
qed

lemma part_simps [simp]:
  "startIndex (upper_part i s) = i" "startIndex (lower_part i s) = startIndex s"
  "blockInfos (upper_part i s) = drop (unat (i - startIndex s)) (blockInfos s)"
  "blockInfos (lower_part i s) = take (unat (i - startIndex s)) (blockInfos s)"
  "storage (upper_part i s) = drop (unat (i - startIndex s)) (storage s)"
  "storage (lower_part i s) = take (unat (i - startIndex s)) (storage s)"
  "cache_transactions (upper_part i s) = filter (\<lambda>t. i \<le> cti_blockIndex t) (cache_transactions s)"
  "cache_transactions (lower_part i s) = filter (\<lambda>t. cti_blockIndex t < i) (cache_transactions s)"
  "spentKeyImages (upper_part i s) = {sp \<in> spentKeyImages s. i \<le> ski_blockIndex sp}"
  "spentKeyImages (lower_part i s) = {sp \<in> spentKeyImages s. ski_blockIndex sp < i}"
  "keyOutputsGlobalIndexes (upper_part i s) amount = Option.bind (keyOutputsGlobalIndexes s amount) (\<lambda>e. fst (splitGlobalIndexes i e))"
  "keyOutputsGlobalIndexes (lower_part i s) amount = Option.bind (keyOutputsGlobalIndexes s amount) (\<lambda>e. snd (splitGlobalIndexes i e))"
  by (simp_all add: upper_part_def lower_part_def Let_def)

text \<open>An index inside a segment at which it is split.\<close>

lemma split_point:
  assumes "segments_ok (s # ps)" "startIndex s < i" "unat i < chain_height (s # ps)"
  shows "unat (i - startIndex s) = unat i - chain_height ps" "chain_height ps < unat i"
    "0 < unat (i - startIndex s)" "unat (i - startIndex s) < length (blockInfos s)"
proof -
  have h: "unat (startIndex s) = chain_height ps" using assms(1) by (simp add: segment_ok_def)
  show k: "unat (i - startIndex s) = unat i - chain_height ps" using assms(2) h by (subst unat_sub) simp_all
  show lt: "chain_height ps < unat i" using assms(2) h by (simp add: word_less_nat_alt)
  show "0 < unat (i - startIndex s)" "unat (i - startIndex s) < length (blockInfos s)" using assms(3) k lt by auto
qed

lemma in_parts:
  assumes "segments_ok (s # ps)" "startIndex s < i" "unat i < chain_height (s # ps)" "in_segment s j"
  shows "in_segment (upper_part i s) j \<longleftrightarrow> i \<le> j" "in_segment (lower_part i s) j \<longleftrightarrow> j < i"
proof -
  have "unat (startIndex s) = chain_height ps" using assms(1) by (simp add: segment_ok_def)
  then show "in_segment (upper_part i s) j \<longleftrightarrow> i \<le> j" "in_segment (lower_part i s) j \<longleftrightarrow> j < i"
    using split_point [OF assms(1-3)] assms(4) by (auto simp: in_segment_def word_le_nat_alt word_less_nat_alt)
qed

lemma entry_parts:
  assumes "segments_ok (s # ps)" "startIndex s < i" "unat i < chain_height (s # ps)"
    and "keyOutputsGlobalIndexes s amount = Some e" "length (chain_outputs (s # ps) amount) < 2 ^ 32"
  shows "seg_outputs (upper_part i s) amount = filter (\<lambda>out. i \<le> poi_blockIndex out) (ogi_outputs e)"
    "seg_outputs (lower_part i s) amount = filter (\<lambda>out. poi_blockIndex out < i) (ogi_outputs e)"
    "keyOutputsGlobalIndexes (lower_part i s) amount = Some e' \<Longrightarrow> entry_ok (lower_part i s) (length (chain_outputs ps amount)) e'"
    "keyOutputsGlobalIndexes (upper_part i s) amount = Some e' \<Longrightarrow>
       entry_ok (upper_part i s) (length (chain_outputs ps amount) + length (filter (\<lambda>out. poi_blockIndex out < i) (ogi_outputs e))) e'"
proof -
  have e: "sorted (map poi_blockIndex (ogi_outputs e))" "unat (ogi_startIndex e) = length (chain_outputs ps amount)"
    "\<forall>out \<in> set (ogi_outputs e). in_segment s (poi_blockIndex out)"
    using assms(1,4) by (auto simp: segment_ok_def entry_ok_def)
  have len: "length (chain_outputs ps amount) + length (ogi_outputs e) < 2 ^ 32" using assms(4,5) by (simp add: seg_outputs_def)
  note parts = splitGlobalIndexes_parts [OF e(1), of i, unfolded e(2), OF len]
  show "seg_outputs (upper_part i s) amount = filter (\<lambda>out. i \<le> poi_blockIndex out) (ogi_outputs e)"
    "seg_outputs (lower_part i s) amount = filter (\<lambda>out. poi_blockIndex out < i) (ogi_outputs e)"
    using parts assms(4) by (simp_all add: seg_outputs_def Let_def)
  show "entry_ok (lower_part i s) (length (chain_outputs ps amount)) e'" if "keyOutputsGlobalIndexes (lower_part i s) amount = Some e'"
    using that parts assms(4) e in_parts [OF assms(1-3)] by (auto simp: entry_ok_def Let_def sorted_filter split: if_splits)
  let ?low = "filter (\<lambda>out. poi_blockIndex out < i) (ogi_outputs e)"
  have "length ?low \<le> length (ogi_outputs e)" by simp
  then have "length (chain_outputs ps amount) + length ?low < 2 ^ 32" using len by linarith
  then have "unat (ogi_startIndex e + of_nat (length ?low)) = length (chain_outputs ps amount) + length ?low"
    using e(2) by (subst unat_add_no_overflow) (simp_all add: unat_of_nat)
  then show "entry_ok (upper_part i s) (length (chain_outputs ps amount) + length ?low) e'"
    if "keyOutputsGlobalIndexes (upper_part i s) amount = Some e'"
    using that parts assms(4) e in_parts [OF assms(1-3)] by (auto simp: entry_ok_def Let_def sorted_filter split: if_splits)
qed

lemma chain_outputs_split:
  assumes "segments_ok (s # ps)" "startIndex s < i" "unat i < chain_height (s # ps)" "length (chain_outputs (s # ps) amount) < 2 ^ 32"
  shows "chain_outputs (upper_part i s # lower_part i s # ps) amount = chain_outputs (s # ps) amount"
proof (cases "keyOutputsGlobalIndexes s amount")
  case (Some e)
  then have "sorted (map poi_blockIndex (ogi_outputs e))" using assms(1) by (simp add: segment_ok_def entry_ok_def)
  then show ?thesis using entry_parts(1,2) [OF assms(1-3) Some assms(4)] sorted_partition [of poi_blockIndex "ogi_outputs e" i] Some
    by (simp add: seg_outputs_def [of s])
qed (simp add: seg_outputs_def)

lemma filter_key: "distinct (map f xs) \<Longrightarrow> p \<in> set xs \<Longrightarrow> filter (\<lambda>q. f q = f p) xs = [p]"
  by (induction xs) (auto simp: filter_empty_conv, metis imageI)

lemma removePaymentId_mset:
  assumes "distinct (map pth_transactionHash (fst pp @ snd pp))"
  shows "mset (fst (removePaymentId h pp) @ snd (removePaymentId h pp)) = mset (fst pp @ snd pp)"
proof (cases "find (\<lambda>p. pth_transactionHash p = h) (fst pp)")
  case (Some p)
  then have p: "p \<in> set (fst pp)" "pth_transactionHash p = h" by (auto simp: find_Some_iff)
  then have "mset (fst pp) = mset (filter (\<lambda>q. pth_transactionHash q \<noteq> h) (fst pp)) + {#p#}"
    using filter_key [of pth_transactionHash "fst pp" p] assms multiset_partition [of "mset (fst pp)" "\<lambda>q. pth_transactionHash q = h"]
    by (simp flip: mset_filter)
  moreover have "insert_payment p (snd pp) = snd pp @ [p]" using p assms by (force simp: insert_payment_def list_ex_iff)
  ultimately show ?thesis using Some by (simp add: removePaymentId_def)
qed (simp add: removePaymentId_def)

lemma split_payments_mset:
  assumes "distinct (map pth_transactionHash (paymentIds s))"
  shows "mset (fst (split_payments i s) @ snd (split_payments i s)) = mset (paymentIds s)"
proof -
  have "mset (fst (fold removePaymentId hs pp) @ snd (fold removePaymentId hs pp)) = mset (fst pp @ snd pp)"
    if "distinct (map pth_transactionHash (fst pp @ snd pp))" for hs pp
    using that
  proof (induction hs arbitrary: pp)
    case (Cons h hs)
    have "mset (fst (removePaymentId h pp) @ snd (removePaymentId h pp)) = mset (fst pp @ snd pp)"
      by (rule removePaymentId_mset [OF Cons.prems])
    moreover from this have "distinct (map pth_transactionHash (fst (removePaymentId h pp) @ snd (removePaymentId h pp)))"
      using Cons.prems by (metis mset_map mset_eq_imp_distinct_iff)
    ultimately show ?case using Cons.IH by simp
  qed simp
  from this [of "(paymentIds s, [])"] show ?thesis using assms by (simp add: split_payments_def)
qed

lemma segments_ok_split:
  assumes "segments_ok (s # ps)" "startIndex s < i" "unat i < chain_height (s # ps)"
    and "\<forall>amount. length (chain_outputs (s # ps) amount) < 2 ^ 32"
  shows "segments_ok (upper_part i s # lower_part i s # ps)"
proof -
  note pt = split_point [OF assms(1-3)]
  have ok: "segment_ok s ps" using assms(1) by simp
  then have "mset (map pth_transactionHash (paymentIds (lower_part i s) @ paymentIds (upper_part i s))) = mset (map pth_transactionHash (paymentIds s))"
    using split_payments_mset [of s i] by (simp add: segment_ok_def upper_part_def lower_part_def Let_def flip: image_mset_union)
  from mset_eq_imp_distinct_iff [OF this] have pids: "distinct (map pth_transactionHash (paymentIds (lower_part i s)))" "distinct (map pth_transactionHash (paymentIds (upper_part i s)))"
    using ok by (simp_all add: segment_ok_def)
  have e_low: "entry_ok (lower_part i s) (length (chain_outputs ps amount)) e'" if "keyOutputsGlobalIndexes (lower_part i s) amount = Some e'" for amount e'
    using that entry_parts(3) [OF assms(1-3)] assms(4) by (cases "keyOutputsGlobalIndexes s amount") auto
  have e_up: "entry_ok (upper_part i s) (length (chain_outputs (lower_part i s # ps) amount)) e'" if "keyOutputsGlobalIndexes (upper_part i s) amount = Some e'" for amount e'
    using that entry_parts(2,4) [OF assms(1-3)] assms(4) by (cases "keyOutputsGlobalIndexes s amount") auto
  have "segment_ok (lower_part i s) ps"
    using ok pt e_low pids in_parts [OF assms(1-3)] by (auto simp: segment_ok_def sorted_filter simp del: part_simps(11,12))
  moreover have "blockInfos s \<noteq> []" using pt(3,4) by auto
  then have "segment_ok (upper_part i s) (lower_part i s # ps)"
    using ok pt e_up pids in_parts [OF assms(1-3)] by (auto simp: segment_ok_def sorted_filter simp del: part_simps(11,12))
  ultimately show ?thesis using assms(1) by simp
qed

lemma split_cache_ok:
  assumes "chain_ok (s # ps)" "startIndex s < i" "unat i < chain_height (s # ps)"
  shows "split_cache (s # ps) i = Some (upper_part i s # lower_part i s # ps)"
    "chain_ok (upper_part i s # lower_part i s # ps)" "flatten (upper_part i s # lower_part i s # ps) = flatten (s # ps)"
proof -
  have ok: "segments_ok (s # ps)" "\<forall>amount. length (chain_outputs (s # ps) amount) < 2 ^ 32" using assms(1) by (simp_all add: chain_ok_def)
  note pt = split_point [OF ok(1) assms(2,3)]
  show "split_cache (s # ps) i = Some (upper_part i s # lower_part i s # ps)"
    using pt ok(1) by (simp add: split_cache_def segment_ok_def)
  let ?ch = "upper_part i s # lower_part i s # ps"
  have blocks: "chain_blocks ?ch = chain_blocks (s # ps)" "chain_storage ?ch = chain_storage (s # ps)" by simp_all
  have txs: "chain_txs ?ch = chain_txs (s # ps)" using ok(1) sorted_partition [of cti_blockIndex "cache_transactions s" i] by (simp add: segment_ok_def)
  have images: "chain_images ?ch = chain_images (s # ps)" by auto
  have outs: "chain_outputs ?ch = chain_outputs (s # ps)" using chain_outputs_split [OF ok(1) assms(2,3)] ok(2) by blast
  show "flatten ?ch = flatten (s # ps)" unfolding flatten_def blocks txs images outs by simp
  show "chain_ok ?ch" using assms(1) segments_ok_split [OF ok(1) assms(2,3) ok(2)]
    unfolding chain_ok_def blocks txs images outs by blast
qed

section \<open>Main results\<close>

definition two_blocks :: BlockchainCache where
  "two_blocks =
     \<lparr>startIndex = 0,
       cache_transactions =
         [\<lparr>cti_blockIndex = 0, cti_transactionIndex = 0, cti_transactionHash = [1], cti_unlockTime = 0,
            cti_outputs = [KeyOutput [7]], cti_globalIndexes = [0]\<rparr>,
          \<lparr>cti_blockIndex = 1, cti_transactionIndex = 0, cti_transactionHash = [2], cti_unlockTime = 0,
            cti_outputs = [KeyOutput [8]], cti_globalIndexes = [1]\<rparr>],
       spentKeyImages = {\<lparr>ski_blockIndex = 1, ski_keyImage = [9]\<rparr>},
       blockInfos =
         [\<lparr>cbi_blockHash = [3], cbi_timestamp = 10, cbi_cumulativeDifficulty = 1, cbi_alreadyGeneratedCoins = 5,
            cbi_alreadyGeneratedTransactions = 1, cbi_blockSize = 100\<rparr>,
          \<lparr>cbi_blockHash = [4], cbi_timestamp = 20, cbi_cumulativeDifficulty = 3, cbi_alreadyGeneratedCoins = 10,
            cbi_alreadyGeneratedTransactions = 2, cbi_blockSize = 100\<rparr>],
       keyOutputsGlobalIndexes =
         [5 \<mapsto> \<lparr>ogi_startIndex = 0, ogi_outputs =
            [\<lparr>poi_blockIndex = 0, poi_transactionIndex = 0, poi_outputIndex = 0\<rparr>,
             \<lparr>poi_blockIndex = 1, poi_transactionIndex = 0, poi_outputIndex = 0\<rparr>]\<rparr>],
       paymentIds = [\<lparr>pth_paymentId = [6], pth_transactionHash = [2]\<rparr>],
       storage = [\<lparr>raw_block = [1], raw_transactions = []\<rparr>, \<lparr>raw_block = [2], raw_transactions = []\<rparr>]\<rparr>"

lemma two_blocks_ok: "chain_ok [two_blocks]"
  by (auto simp: chain_ok_def segment_ok_def two_blocks_def entry_ok_def in_segment_def seg_outputs_def tx_place_def out_place_def
      split: if_splits)

text \<open>C17: A chain of segments answers from the joined list of its blocks: the hash and the bytes of a block, the last values of the blocks up to an index, consecutive block hashes, and whether a key image was spent up to an index.\<close>

theorem chain_answers:
  assumes "chain_ok ch" "unat i < chain_height ch"
  shows "cache_getBlockHash ch i = Some (cbi_blockHash (chain_blocks ch ! unat i)) \<and>
    getBlockByIndex ch i = Some (chain_storage ch ! unat i) \<and>
    (\<forall>f cnt useGenesis. getLastUnits f ch cnt i useGenesis =
       Some (map f (last_units useGenesis (unat cnt) (take (unat i + 1) (chain_blocks ch))))) \<and>
    (\<forall>n. cache_getBlockHashes ch i n = Some (map cbi_blockHash (take (unat n) (drop (unat i) (chain_blocks ch))))) \<and>
    (\<forall>ki. cache_checkIfSpent ch ki i = Some (\<exists>sp \<in> chain_images ch. ski_keyImage sp = ki \<and> ski_blockIndex sp \<le> i))"
proof -
  have ok: "ch \<noteq> []" "segments_ok ch" "chain_height ch < 2 ^ 32" "inj_on ski_keyImage (chain_images ch)"
    using assms(1) by (simp_all add: chain_ok_def)
  show ?thesis
    using assms(2) chain_storage_length [OF ok(2)] getLastUnits_flat [OF ok(1-3) assms(2)] getBlockHashes_flat [OF ok(1-3), of i]
      checkIfSpent_flat [OF ok(1,2,4)]
    by (simp add: cache_getBlockHash_def block_info_at_flat [OF ok(2)] getBlockByIndex_flat [OF ok(2)] vector_at_def spent_upto_def)
qed

theorem chain_answers_witness:
  "cache_getBlockHash [two_blocks] 1 = Some [4] \<and> getLastUnits cbi_cumulativeDifficulty [two_blocks] 5 1 False = Some [3] \<and>
   cache_checkIfSpent [two_blocks] [9] 1 = Some True"
  using chain_answers [OF two_blocks_ok, of 1] by (simp add: two_blocks_def last_units_def)

text \<open>C15: Splitting a segment at an index inside it gives a well formed chain with the two parts in its place, and the following queries, which walk down the chain, have the same answers on both chains: the information and the raw block of every index, whether a key image is spent up to an index, the last values of the blocks and consecutive hashes from an index inside the chain, the keys of the outputs behind sorted global indices as seen from the top block, and the transactions of a payment identifier. Questions to one segment, as for the blocks it has, and the search for the height of a time are not among them.\<close>

theorem split_keeps_answers:
  assumes "chain_ok (s # ps)" "startIndex s < i" "unat i < chain_height (s # ps)"
  shows "\<exists>up low. split_cache (s # ps) i = Some (up # low # ps) \<and> startIndex up = i \<and> chain_ok (up # low # ps) \<and>
    (\<forall>j. block_info_at (up # low # ps) j = block_info_at (s # ps) j) \<and>
    (\<forall>j. getBlockByIndex (up # low # ps) j = getBlockByIndex (s # ps) j) \<and>
    (\<forall>ki j. cache_checkIfSpent (up # low # ps) ki j = cache_checkIfSpent (s # ps) ki j) \<and>
    (\<forall>f n j g. unat j < chain_height (s # ps) \<longrightarrow> getLastUnits f (up # low # ps) n j g = getLastUnits f (s # ps) n j g) \<and>
    (\<forall>j n. unat j < chain_height (s # ps) \<longrightarrow> cache_getBlockHashes (up # low # ps) j n = cache_getBlockHashes (s # ps) j n) \<and>
    (\<forall>c now amount j gis. sorted gis \<and> chain_height (s # ps) \<le> unat j + 1 \<longrightarrow>
       cache_extractKeyOutputKeys c now (up # low # ps) amount j gis = cache_extractKeyOutputKeys c now (s # ps) amount j gis) \<and>
    (\<forall>pid. cache_getTransactionHashesByPaymentId (up # low # ps) pid = cache_getTransactionHashesByPaymentId (s # ps) pid)"
proof -
  let ?ch = "upper_part i s # lower_part i s # ps"
  note split = split_cache_ok [OF assms]
  have pids: "cache_getTransactionHashesByPaymentId ?ch pid = cache_getTransactionHashesByPaymentId (s # ps) pid" for pid
  proof -
    have "mset (paymentIds (lower_part i s) @ paymentIds (upper_part i s)) = mset (paymentIds s)"
      using split_payments_mset [of s i] assms(1) by (simp add: chain_ok_def segment_ok_def upper_part_def lower_part_def Let_def)
    from arg_cong [OF this, of "\<lambda>M. image_mset pth_transactionHash (filter_mset (\<lambda>p. pth_paymentId p = pid) M)"]
    show ?thesis by (simp add: cache_getTransactionHashesByPaymentId_def)
  qed
  have extr: "cache_extractKeyOutputKeys c now ?ch amount j gis = cache_extractKeyOutputKeys c now (s # ps) amount j gis"
    if "sorted gis" "chain_height (s # ps) \<le> unat j + 1" for c now amount j gis
    using output_query.same_view [OF assms(1) split(2,3), of j gis "collect_keys c now j" amount "[]"] that
    unfolding cache_extractKeyOutputKeys_def by simp
  show ?thesis
    using split(1,2) extr pids info_query.same_view [OF assms(1) split(2,3)] raw_query.same_view [OF assms(1) split(2,3)]
      spent_query.same_view [OF assms(1) split(2,3)] units_query.same_view [OF assms(1) split(2,3)]
      hashes_query.same_view [OF assms(1) split(2,3)]
    by (intro exI [of _ "upper_part i s"] exI [of _ "lower_part i s"] conjI allI impI) (simp_all only: part_simps TrueI less_imp_le)
qed

theorem split_keeps_answers_witness:
  "\<exists>up low. split_cache [two_blocks] 1 = Some [up, low] \<and> startIndex up = 1 \<and> cache_checkIfSpent [up, low] [9] 1 = Some True"
proof -
  have "startIndex two_blocks < 1" "unat (1 :: u32) < chain_height [two_blocks]" by (simp_all add: two_blocks_def)
  from split_keeps_answers [OF two_blocks_ok this] obtain up low where
    "split_cache [two_blocks] 1 = Some [up, low]" "startIndex up = 1" "\<forall>ki j. cache_checkIfSpent [up, low] ki j = cache_checkIfSpent [two_blocks] ki j"
    by (elim exE conjE) (rule that)
  moreover have "cache_checkIfSpent [two_blocks] [9] 1 = Some True" by (simp add: two_blocks_def)
  ultimately show ?thesis by (intro exI [of _ up] exI [of _ low]) (simp del: cache_checkIfSpent.simps)
qed

text \<open>The search for the height of a time does see the split.\<close>

lemma split_seen_by_timestamp:
  "getBlockHeightForTimestamp [two_blocks] 15 = Some (False, 0)"
  "map_option (\<lambda>ch. getBlockHeightForTimestamp ch 15) (split_cache [two_blocks] 1) = Some (Some (True, 1))"
  by code_simp+

text \<open>C39: When a time lies after the first block of the lowest segment and not after its last one, the search for the height of a time reports failure, although the search for the block index of the same time finds a block.\<close>

theorem height_for_timestamp_misses:
  assumes "blockInfos s \<noteq> []" "cbi_timestamp (hd (blockInfos s)) < time" "time \<le> cbi_timestamp (last (blockInfos s))"
  shows "getBlockHeightForTimestamp [s] time = Some (False, 0) \<and>
    getTimestampLowerBoundBlockIndex [s] time =
      Some (Inr (startIndex s + of_nat (lower_bound (\<lambda>b. cbi_timestamp b < time) (blockInfos s))))"
  using assms by auto

theorem height_for_timestamp_misses_witness:
  "getBlockHeightForTimestamp [two_blocks] 15 = Some (False, 0) \<and> getTimestampLowerBoundBlockIndex [two_blocks] 15 = Some (Inr 1)"
  using height_for_timestamp_misses [of two_blocks 15] by (simp add: two_blocks_def lower_bound_def lower_bound_from.simps)

end
