(* ===== verification/Chain_Push.thy ===== *)
theory Chain_Push
  imports Chain_Views
begin

text \<open>
  Adding a block to a chain of segments.  A new block keeps the chain well formed, and adding it to the chain is adding it
  to the joined chain.
\<close>

section \<open>Outputs\<close>

text \<open>
  The index of the outputs of a segment with the outputs \<open>below\<close> it, next to the index \<open>F\<close> of the joined chain.
\<close>

definition map_outputs :: "(u64 \<rightharpoonup> OutputGlobalIndexesForAmount) \<Rightarrow> u64 \<Rightarrow> PackedOutIndex list" where
  "map_outputs m amount = (case m amount of None \<Rightarrow> [] | Some e \<Rightarrow> ogi_outputs e)"

definition joined_index :: "(u64 \<Rightarrow> PackedOutIndex list) \<Rightarrow> (u64 \<rightharpoonup> OutputGlobalIndexesForAmount) \<Rightarrow> (u64 \<rightharpoonup> OutputGlobalIndexesForAmount) \<Rightarrow> bool" where
  "joined_index below m F \<longleftrightarrow>
     (\<forall>amount e. m amount = Some e \<longrightarrow> ogi_outputs e \<noteq> [] \<and> unat (ogi_startIndex e) = length (below amount)) \<and>
     (\<forall>amount. F amount = (let outs = below amount @ map_outputs m amount
        in if outs = [] then None else Some \<lparr>ogi_startIndex = 0, ogi_outputs = outs\<rparr>))"

primrec out_places :: "u32 \<Rightarrow> u16 \<Rightarrow> nat \<Rightarrow> TransactionOutput list \<Rightarrow> u64 \<Rightarrow> PackedOutIndex list" where
  "out_places index ti k [] amount = []"
| "out_places index ti k (out # outs) amount =
     (if out_amount out = amount then [\<lparr>poi_blockIndex = index, poi_transactionIndex = ti, poi_outputIndex = of_nat k\<rparr>] else []) @
     out_places index ti (k + 1) outs amount"

lemma of_nat_if_unat: "unat x = n \<Longrightarrow> x = (of_nat n :: 'a::len word)"
  by (drule sym) simp

lemma ucast_of_nat_up: "n < 2 ^ 32 \<Longrightarrow> (ucast (of_nat n :: u32) :: u64) = of_nat n"
  by (simp add: word_unat_eq_iff unat_ucast_32_64 unat_of_nat take_bit_nat_eq_self)

lemma getKeyOutputsCount_all:
  "segments_ok ps \<Longrightarrow> chain_height ps \<le> unat index \<Longrightarrow> length (chain_outputs ps amount) < 2 ^ 32 \<Longrightarrow>
     getKeyOutputsCountForAmount ps amount index = of_nat (length (chain_outputs ps amount))"
proof (induction ps)
  case (Cons s ps)
  show ?case
  proof (cases "keyOutputsGlobalIndexes s amount")
    case None
    then show ?thesis using Cons by (simp add: seg_outputs_def)
  next
    case (Some e)
    then have e: "unat (ogi_startIndex e) = length (chain_outputs ps amount)" "sorted (map poi_blockIndex (ogi_outputs e))"
      "\<forall>out \<in> set (ogi_outputs e). in_segment s (poi_blockIndex out)"
      using Cons.prems(1) by (auto simp: segment_ok_def entry_ok_def)
    have "\<forall>out \<in> set (ogi_outputs e). poi_blockIndex out < index"
      using e(3) in_chain_height [OF Cons.prems(1)] Cons.prems(2) by (fastforce simp: word_less_nat_alt)
    then have "lower_bound (\<lambda>out. poi_blockIndex out < index) (ogi_outputs e) = length (ogi_outputs e)"
      using lower_bound_append [of "ogi_outputs e" _ "[]"] by simp
    moreover have "(ucast (ogi_startIndex e) :: u64) = of_nat (length (chain_outputs ps amount))"
      using of_nat_if_unat [OF e(1)] Cons.prems(3) by (simp add: ucast_of_nat_up)
    ultimately show ?thesis using Some by (simp add: seg_outputs_def)
  qed
qed simp

lemma insert_output_joined:
  assumes "segments_ok ps" "chain_height ps \<le> unat index" "joined_index (chain_outputs ps) m F"
    and "length (chain_outputs ps amount) + length (map_outputs m amount) < 2 ^ 32"
    and "insertKeyOutputToGlobalIndex ps amount out index m = (gi, m')"
  shows "\<exists>F'. insertKeyOutputToGlobalIndex [] amount out index F = (gi, F') \<and> joined_index (chain_outputs ps) m' F'"
    "map_outputs m' = (map_outputs m)(amount := map_outputs m amount @ [out])"
    "unat gi = length (chain_outputs ps amount) + length (map_outputs m amount)"
proof -
  let ?below = "chain_outputs ps amount"
  define e where "e = \<lparr>ogi_startIndex = of_nat (length ?below), ogi_outputs = map_outputs m amount @ [out]\<rparr>"
  have cnt: "(if ps \<noteq> [] then ucast (getKeyOutputsCountForAmount ps amount index) else 0) = (of_nat (length ?below) :: u32)"
    using getKeyOutputsCount_all [OF assms(1,2), of amount] assms(4)
    by (auto simp: word_unat_eq_iff unsigned_ucast_eq unat_of_nat take_bit_nat_eq_self)
  have start: "ogi_startIndex x = of_nat (length ?below)" if "m amount = Some x" for x
    using assms(3) that by (intro of_nat_if_unat) (simp add: joined_index_def)
  have ins: "insertKeyOutputToGlobalIndex ps amount out index m =
      (of_nat (length ?below) + of_nat (length (map_outputs m amount)), m(amount \<mapsto> e))"
    using cnt start by (auto simp: insertKeyOutputToGlobalIndex_def map_outputs_def e_def Let_def split: option.split)
  then have gi: "gi = of_nat (length ?below) + of_nat (length (map_outputs m amount))" and m': "m' = m(amount \<mapsto> e)"
    using assms(5) by simp_all
  show "map_outputs m' = (map_outputs m)(amount := map_outputs m amount @ [out])"
    by (auto simp: m' map_outputs_def e_def)
  show "unat gi = length ?below + length (map_outputs m amount)"
    unfolding gi using assms(4) by (subst unat_add_no_overflow) (simp_all add: unat_of_nat take_bit_nat_eq_self)
  let ?F' = "F(amount \<mapsto> \<lparr>ogi_startIndex = 0, ogi_outputs = ?below @ map_outputs m amount @ [out]\<rparr>)"
  have "insertKeyOutputToGlobalIndex [] amount out index F = (gi, ?F')"
    using assms(3) by (auto simp: insertKeyOutputToGlobalIndex_def joined_index_def gi Let_def)
  moreover have "joined_index (chain_outputs ps) m' ?F'"
    using assms(3,4) by (auto simp: joined_index_def m' e_def map_outputs_def Let_def unat_of_nat take_bit_nat_eq_self)
  ultimately show "\<exists>F'. insertKeyOutputToGlobalIndex [] amount out index F = (gi, F') \<and> joined_index (chain_outputs ps) m' F'"
    by blast
qed

lemma push_outputs_joined:
  assumes "segments_ok ps" "chain_height ps \<le> unat index" "joined_index (chain_outputs ps) m F"
    and "\<forall>amount. length (chain_outputs ps amount) + length (map_outputs m amount) + length (out_places index ti k outs amount) \<le> 2 ^ 32"
    and "push_outputs ps index ti k outs m = (gis, m')"
  shows "(\<exists>F'. push_outputs [] index ti k outs F = (gis, F') \<and> joined_index (chain_outputs ps) m' F') \<and>
    (\<forall>amount. map_outputs m' amount = map_outputs m amount @ out_places index ti k outs amount) \<and> length gis = length outs \<and>
    (\<forall>j < length outs. let all = chain_outputs ps (out_amount (outs ! j)) @ map_outputs m' (out_amount (outs ! j))
      in unat (gis ! j) < length all \<and>
        all ! unat (gis ! j) = \<lparr>poi_blockIndex = index, poi_transactionIndex = ti, poi_outputIndex = of_nat (k + j)\<rparr>)"
  using assms(3-5)
proof (induction outs arbitrary: k m F gis m')
  case (Cons out outs)
  let ?poi = "\<lparr>poi_blockIndex = index, poi_transactionIndex = ti, poi_outputIndex = of_nat k\<rparr>" and ?a = "out_amount out"
  obtain gi m1 where ins: "insertKeyOutputToGlobalIndex ps ?a ?poi index m = (gi, m1)" by fastforce
  obtain gis1 m2 where rest2: "push_outputs ps index ti (k + 1) outs m1 = (gis1, m2)" by fastforce
  then have rest: "push_outputs ps index ti (k + 1) outs m1 = (gis1, m')" and gis: "gis = gi # gis1"
    using Cons.prems(3) ins by (simp_all add: Let_def)
  have fits: "length (chain_outputs ps ?a) + length (map_outputs m ?a) < 2 ^ 32"
    using Cons.prems(2) [rule_format, of ?a] by simp
  note step = insert_output_joined [OF assms(1,2) Cons.prems(1) fits ins]
  obtain F1 where F1: "insertKeyOutputToGlobalIndex [] ?a ?poi index F = (gi, F1)" "joined_index (chain_outputs ps) m1 F1"
    using step(1) by blast
  have "\<forall>amount. length (chain_outputs ps amount) + length (map_outputs m1 amount) + length (out_places index ti (k + 1) outs amount) \<le> 2 ^ 32"
  proof
    fix amount
    show "length (chain_outputs ps amount) + length (map_outputs m1 amount) + length (out_places index ti (k + 1) outs amount) \<le> 2 ^ 32"
      using Cons.prems(2) [rule_format, of amount] by (cases "?a = amount") (simp_all add: step(2))
  qed
  note IH = Cons.IH [OF F1(2) this rest]
  have outs: "map_outputs m' amount = map_outputs m amount @ out_places index ti k (out # outs) amount" for amount
    using IH by (auto simp: step(2))
  have first: "let all = chain_outputs ps ?a @ map_outputs m' ?a in unat gi < length all \<and> all ! unat gi = ?poi"
    unfolding outs step(3) by (simp add: Let_def nth_append)
  show ?case
  proof (intro conjI)
    show "\<exists>F'. push_outputs [] index ti k (out # outs) F = (gis, F') \<and> joined_index (chain_outputs ps) m' F'"
      using F1(1) IH gis by (auto simp: Let_def)
    show "\<forall>j < length (out # outs). let all = chain_outputs ps (out_amount ((out # outs) ! j)) @ map_outputs m' (out_amount ((out # outs) ! j))
      in unat (gis ! j) < length all \<and>
        all ! unat (gis ! j) = \<lparr>poi_blockIndex = index, poi_transactionIndex = ti, poi_outputIndex = of_nat (k + j)\<rparr>"
      using first IH by (auto simp: gis nth_Cons less_Suc_eq_0_disj split: nat.split)
  qed (use outs IH gis in auto)
qed (auto simp: Let_def)

lemma out_places_in: "out \<in> set (out_places index ti k outs amount) \<Longrightarrow>
    poi_blockIndex out = index \<and> poi_transactionIndex out = ti \<and> (\<exists>j < length outs. poi_outputIndex out = of_nat (k + j))"
  by (induction outs arbitrary: k) (fastforce split: if_splits)+

section \<open>Transactions\<close>

definition index_ok :: "BlockchainCache \<Rightarrow> chain \<Rightarrow> bool" where
  "index_ok s ps \<longleftrightarrow> (\<forall>amount e. keyOutputsGlobalIndexes s amount = Some e \<longrightarrow>
     ogi_outputs e \<noteq> [] \<and> unat (ogi_startIndex e) = length (chain_outputs ps amount))"

text \<open>The joined chain, up to the payment identifiers.\<close>

definition joins :: "BlockchainCache \<Rightarrow> chain \<Rightarrow> BlockchainCache \<Rightarrow> bool" where
  "joins s ps f \<longleftrightarrow> f\<lparr>paymentIds := []\<rparr> = flatten (s # ps)"

lemma seg_outputs_map: "seg_outputs s = map_outputs (keyOutputsGlobalIndexes s)"
  by (auto simp: seg_outputs_def map_outputs_def)

lemma joined_index_iff:
  "joined_index (chain_outputs ps) m F \<longleftrightarrow> index_ok (s\<lparr>keyOutputsGlobalIndexes := m\<rparr>) ps \<and>
     F = keyOutputsGlobalIndexes (flatten (s\<lparr>keyOutputsGlobalIndexes := m\<rparr> # ps))"
  by (auto simp: joined_index_def index_ok_def fun_eq_iff seg_outputs_map Let_def)

text \<open>
  The entry of a transaction: its place in the block, and for every output the global index at which the chain has it.
\<close>

definition tx_entry :: "chain \<Rightarrow> u32 \<Rightarrow> u16 \<Rightarrow> Transaction \<Rightarrow> bytes \<Rightarrow> CachedTransactionInfo \<Rightarrow> bool" where
  "tx_entry ch index ti tx h t \<longleftrightarrow>
     cti_blockIndex t = index \<and> cti_transactionIndex t = ucast ti \<and> cti_transactionHash t = h \<and>
     cti_unlockTime t = unlockTime tx \<and> cti_outputs t = map target (outputs tx) \<and>
     length (cti_globalIndexes t) = length (outputs tx) \<and>
     (\<forall>j < length (outputs tx). let all = chain_outputs ch (out_amount (outputs tx ! j))
        in unat (cti_globalIndexes t ! j) < length all \<and>
           all ! unat (cti_globalIndexes t ! j) = \<lparr>poi_blockIndex = index, poi_transactionIndex = ti, poi_outputIndex = of_nat j\<rparr>)"

lemma tx_entry_extend:
  assumes "tx_entry ch index ti tx h t" "\<And>amount. \<exists>new. chain_outputs ch' amount = chain_outputs ch amount @ new"
  shows "tx_entry ch' index ti tx h t"
proof -
  have "unat (cti_globalIndexes t ! j) < length (chain_outputs ch' a) \<and> chain_outputs ch' a ! unat (cti_globalIndexes t ! j) = x"
    if "unat (cti_globalIndexes t ! j) < length (chain_outputs ch a) \<and> chain_outputs ch a ! unat (cti_globalIndexes t ! j) = x" for j a x
    using that assms(2) [of a] by (auto simp: nth_append)
  then show ?thesis using assms(1) unfolding tx_entry_def Let_def by blast
qed

definition tx_info :: "u32 \<Rightarrow> u16 \<Rightarrow> Transaction \<Rightarrow> bytes \<Rightarrow> u32 list \<Rightarrow> CachedTransactionInfo" where
  "tx_info index ti tx h gis = \<lparr>cti_blockIndex = index, cti_transactionIndex = ucast ti, cti_transactionHash = h,
     cti_unlockTime = unlockTime tx, cti_outputs = map target (outputs tx), cti_globalIndexes = gis\<rparr>"

definition add_payment :: "Transaction \<Rightarrow> bytes \<Rightarrow> BlockchainCache \<Rightarrow> BlockchainCache" where
  "add_payment tx h s = (case getPaymentIdFromTxExtra (extra tx) of None \<Rightarrow> s
     | Some pid \<Rightarrow> s\<lparr>paymentIds := insert_payment \<lparr>pth_paymentId = pid, pth_transactionHash = h\<rparr> (paymentIds s)\<rparr>)"

lemma add_payment_simps [simp]:
  "startIndex (add_payment tx h s) = startIndex s" "cache_transactions (add_payment tx h s) = cache_transactions s"
  "blockInfos (add_payment tx h s) = blockInfos s" "spentKeyImages (add_payment tx h s) = spentKeyImages s"
  "storage (add_payment tx h s) = storage s" "keyOutputsGlobalIndexes (add_payment tx h s) = keyOutputsGlobalIndexes s"
  "(add_payment tx h s)\<lparr>paymentIds := []\<rparr> = s\<lparr>paymentIds := []\<rparr>"
  by (simp_all add: add_payment_def split: option.split)

lemma add_payment_distinct:
  "distinct (map pth_transactionHash (paymentIds s)) \<Longrightarrow> distinct (map pth_transactionHash (paymentIds (add_payment tx h s)))"
  by (force simp: add_payment_def insert_payment_def list_ex_iff split: option.split)

lemma pushTransaction_new:
  assumes "getTransactionHash cn ct = Inr (h, ct')" "transaction ct' = transaction ct"
    and "push_outputs ps index ti 0 (outputs (transaction ct)) (keyOutputsGlobalIndexes s) = (gis, m)"
    and "h \<notin> cti_transactionHash ` set (cache_transactions s)" "(index, ucast ti) \<notin> tx_place ` set (cache_transactions s)"
  shows "cache_pushTransaction cn ps ct index ti s = Some (add_payment (transaction ct) h
    (s\<lparr>keyOutputsGlobalIndexes := m, cache_transactions := cache_transactions s @ [tx_info index ti (transaction ct) h gis]\<rparr>))"
proof -
  have "insert_transaction (tx_info index ti (transaction ct) h gis) (cache_transactions s) = cache_transactions s @ [tx_info index ti (transaction ct) h gis]"
    using assms(4,5) by (force simp: insert_transaction_def list_ex_iff tx_info_def tx_place_def)
  then show ?thesis using assms(1-3)
    by (simp add: cache_pushTransaction_def returned_def Let_def tx_info_def add_payment_def split: option.split)
qed

text \<open>
  From \<open>s\<close> to \<open>s'\<close>, next to the joined chains \<open>f\<close> and \<open>f'\<close>, the transactions \<open>ts\<close> and the outputs \<open>new\<close> were added.
\<close>

definition pushed :: "chain \<Rightarrow> BlockchainCache \<Rightarrow> BlockchainCache \<Rightarrow> BlockchainCache \<Rightarrow> BlockchainCache \<Rightarrow> CachedTransactionInfo list \<Rightarrow>
  (u64 \<Rightarrow> PackedOutIndex list) \<Rightarrow> bool" where
  "pushed ps s f s' f' ts new \<longleftrightarrow>
     joins s' ps f' \<and> index_ok s' ps \<and> cache_transactions s' = cache_transactions s @ ts \<and>
     (\<forall>amount. seg_outputs s' amount = seg_outputs s amount @ new amount) \<and>
     startIndex s' = startIndex s \<and> blockInfos s' = blockInfos s \<and> spentKeyImages s' = spentKeyImages s \<and> storage s' = storage s \<and>
     (distinct (map pth_transactionHash (paymentIds s)) \<longrightarrow> distinct (map pth_transactionHash (paymentIds s')))"

lemma pushed_trans:
  "pushed ps s f s1 f1 ts new \<Longrightarrow> pushed ps s1 f1 s2 f2 ts' new' \<Longrightarrow> pushed ps s f s2 f2 (ts @ ts') (\<lambda>amount. new amount @ new' amount)"
  by (simp add: pushed_def)

lemma push_tx_joined:
  assumes "segments_ok ps" "chain_height ps \<le> unat index" "index_ok s ps" "joins s ps f"
    and hash: "getTransactionHash cn ct = Inr (h, ct')" "transaction ct' = transaction ct"
    and fresh: "h \<notin> cti_transactionHash ` set (chain_txs (s # ps))" "(index, ucast ti) \<notin> tx_place ` set (chain_txs (s # ps))"
    and fits: "\<forall>amount. length (chain_outputs (s # ps) amount) + length (out_places index ti 0 (outputs (transaction ct)) amount) \<le> 2 ^ 32"
  shows "\<exists>s' f' t. cache_pushTransaction cn ps ct index ti s = Some s' \<and> cache_pushTransaction cn [] ct index ti f = Some f' \<and>
    tx_entry (s' # ps) index ti (transaction ct) h t \<and>
    pushed ps s f s' f' [t] (out_places index ti 0 (outputs (transaction ct)))"
proof -
  let ?tx = "transaction ct" and ?F = "keyOutputsGlobalIndexes (flatten (s # ps))"
  have f: "keyOutputsGlobalIndexes f = ?F" "cache_transactions f = chain_txs (s # ps)"
    using arg_cong [OF assms(4) [unfolded joins_def], of keyOutputsGlobalIndexes] arg_cong [OF assms(4) [unfolded joins_def], of cache_transactions] by simp_all
  have rel: "joined_index (chain_outputs ps) (keyOutputsGlobalIndexes s) ?F"
    using assms(3) joined_index_iff [of ps "keyOutputsGlobalIndexes s" ?F s] by simp
  obtain gis m where push: "push_outputs ps index ti 0 (outputs ?tx) (keyOutputsGlobalIndexes s) = (gis, m)" by fastforce
  have "\<forall>amount. length (chain_outputs ps amount) + length (map_outputs (keyOutputsGlobalIndexes s) amount) + length (out_places index ti 0 (outputs ?tx) amount) \<le> 2 ^ 32"
    using fits by (simp add: seg_outputs_map)
  note outs = push_outputs_joined [OF assms(1,2) rel this push]
  obtain F' where F': "push_outputs [] index ti 0 (outputs ?tx) ?F = (gis, F')" "joined_index (chain_outputs ps) m F'" using outs by blast
  let ?t = "tx_info index ti ?tx h gis"
  let ?s = "s\<lparr>keyOutputsGlobalIndexes := m, cache_transactions := cache_transactions s @ [?t]\<rparr>"
  let ?f = "f\<lparr>keyOutputsGlobalIndexes := F', cache_transactions := cache_transactions f @ [?t]\<rparr>"
  let ?s' = "add_payment ?tx h ?s" and ?f' = "add_payment ?tx h ?f"
  have "cache_pushTransaction cn ps ct index ti s = Some ?s'"
    using fresh by (intro pushTransaction_new [OF hash push]) auto
  moreover have "cache_pushTransaction cn [] ct index ti f = Some ?f'"
    using fresh F'(1) by (intro pushTransaction_new [OF hash]) (simp_all only: f not_False_eq_True)
  moreover have "joins ?s' ps ?f'"
  proof -
    have "?f'\<lparr>paymentIds := []\<rparr> = f\<lparr>paymentIds := []\<rparr>\<lparr>keyOutputsGlobalIndexes := F', cache_transactions := cache_transactions f @ [?t]\<rparr>"
      by simp
    also have "\<dots> = (flatten (s # ps))\<lparr>keyOutputsGlobalIndexes := F', cache_transactions := chain_txs (s # ps) @ [?t]\<rparr>"
      using assms(4) f(2) by (simp only: joins_def)
    also have "\<dots> = flatten (?s' # ps)"
      using F'(2) joined_index_iff [of ps m F' s] by (simp add: flatten_def seg_outputs_map fun_eq_iff)
    finally show ?thesis by (simp add: joins_def)
  qed
  moreover have "index_ok ?s' ps" using F'(2) joined_index_iff [of ps m F' s] by (simp add: index_ok_def)
  moreover have "tx_entry (?s' # ps) index ti ?tx h ?t"
    using outs [THEN conjunct2, THEN conjunct2] by (simp add: tx_entry_def tx_info_def Let_def seg_outputs_map)
  moreover have "seg_outputs ?s' amount = seg_outputs s amount @ out_places index ti 0 (outputs ?tx) amount" for amount
    using outs by (simp add: seg_outputs_map)
  ultimately show ?thesis using add_payment_distinct [of ?s ?tx h]
    by (intro exI [of _ ?s'] exI [of _ ?f'] exI [of _ ?t]) (simp add: pushed_def)
qed

primrec block_places :: "u32 \<Rightarrow> nat \<Rightarrow> Transaction list \<Rightarrow> u64 \<Rightarrow> PackedOutIndex list" where
  "block_places index ti [] amount = []"
| "block_places index ti (tx # txs) amount = out_places index (of_nat ti) 0 (outputs tx) amount @ block_places index (ti + 1) txs amount"

text \<open>The hash a transaction is stored under.\<close>

definition tx_hash :: "(bytes \<Rightarrow> bytes) \<Rightarrow> Transaction \<Rightarrow> bytes" where
  "tx_hash cn tx = (case write_Transaction tx of Inl _ \<Rightarrow> [] | Inr ba \<Rightarrow> cn ba)"

definition writable :: "(bytes \<Rightarrow> bytes) \<Rightarrow> CachedTransaction \<Rightarrow> bool" where
  "writable cn ct \<longleftrightarrow> cache_ok cn ct \<and> (\<exists>ba. write_Transaction (transaction ct) = Inr ba)"

lemma writable_hash:
  assumes "writable cn ct"
  obtains ct' where "getTransactionHash cn ct = Inr (tx_hash cn (transaction ct), ct')" "transaction ct' = transaction ct"
  using assms getTransactionHash_ok [of cn ct] by (auto simp: writable_def tx_hash_def split: sum.splits)

lemma push_transactions_joined:
  assumes "segments_ok ps" "chain_height ps \<le> unat index" "index_ok s ps" "joins s ps f"
    and "\<forall>ct \<in> set cts. writable cn ct"
    and "distinct (map (tx_hash cn \<circ> transaction) cts)"
    and "tx_hash cn ` transaction ` set cts \<inter> cti_transactionHash ` set (chain_txs (s # ps)) = {}"
    and "\<forall>t \<in> set (chain_txs (s # ps)). cti_blockIndex t = index \<longrightarrow> unat (cti_transactionIndex t) < ti" "ti + length cts \<le> 2 ^ 16"
    and "\<forall>amount. length (chain_outputs (s # ps) amount) + length (block_places index ti (map transaction cts) amount) \<le> 2 ^ 32"
  shows "\<exists>s' f' ts. push_transactions cn ps index ti cts s = Some s' \<and> push_transactions cn [] index ti cts f = Some f' \<and> length ts = length cts \<and>
    (\<forall>k < length cts. tx_entry (s' # ps) index (of_nat (ti + k)) (transaction (cts ! k)) (tx_hash cn (transaction (cts ! k))) (ts ! k)) \<and>
    pushed ps s f s' f' ts (block_places index ti (map transaction cts))"
  using assms(3-10)
proof (induction cts arbitrary: s f ti)
  case Nil
  then show ?case by (simp add: pushed_def)
next
  case (Cons ct cts)
  let ?tx = "transaction ct" and ?h = "tx_hash cn (transaction ct)" and ?ti = "of_nat ti :: u16"
  obtain ct' where hash: "getTransactionHash cn ct = Inr (?h, ct')" "transaction ct' = ?tx"
    using Cons.prems(3) by (auto elim: writable_hash)
  have ti: "unat ?ti = ti" "unat (ucast ?ti :: u32) = ti"
    using Cons.prems(7) by (simp_all add: unat_of_nat unat_ucast_up take_bit_nat_eq_self)
  have fresh: "?h \<notin> cti_transactionHash ` set (chain_txs (s # ps))" "(index, ucast ?ti) \<notin> tx_place ` set (chain_txs (s # ps))"
    using Cons.prems(5,6) ti by (auto simp: tx_place_def)
  have "length (chain_outputs (s # ps) amount) + length (out_places index ?ti 0 (outputs ?tx) amount) \<le> 2 ^ 32" for amount
    using Cons.prems(8) [rule_format, of amount] by simp
  from push_tx_joined [OF assms(1,2) Cons.prems(1,2) hash fresh this [THEN allI]]
  obtain s1 f1 t where one: "cache_pushTransaction cn ps ct index ?ti s = Some s1" "cache_pushTransaction cn [] ct index ?ti f = Some f1"
    "tx_entry (s1 # ps) index ?ti ?tx ?h t" "pushed ps s f s1 f1 [t] (out_places index ?ti 0 (outputs ?tx))"
    by (elim exE conjE) (rule that)
  have t: "cti_transactionHash t = ?h" "cti_blockIndex t = index" "cti_transactionIndex t = ucast ?ti" using one(3) by (simp_all add: tx_entry_def)
  note s1 = one(4) [unfolded pushed_def]
  have "\<exists>s' f' ts. push_transactions cn ps index (ti + 1) cts s1 = Some s' \<and> push_transactions cn [] index (ti + 1) cts f1 = Some f' \<and> length ts = length cts \<and>
    (\<forall>k < length cts. tx_entry (s' # ps) index (of_nat (ti + 1 + k)) (transaction (cts ! k)) (tx_hash cn (transaction (cts ! k))) (ts ! k)) \<and>
    pushed ps s1 f1 s' f' ts (block_places index (ti + 1) (map transaction cts))"
  proof (rule Cons.IH)
    show "index_ok s1 ps" "joins s1 ps f1" using s1 by simp_all
    show "\<forall>ct \<in> set cts. writable cn ct" "distinct (map (tx_hash cn \<circ> transaction) cts)" using Cons.prems(3,4) by (simp_all add: o_def)
    show "tx_hash cn ` transaction ` set cts \<inter> cti_transactionHash ` set (chain_txs (s1 # ps)) = {}"
      using Cons.prems(4,5) s1 t by auto
    show "\<forall>t \<in> set (chain_txs (s1 # ps)). cti_blockIndex t = index \<longrightarrow> unat (cti_transactionIndex t) < ti + 1"
      using Cons.prems(6) ti t s1 by (auto simp: less_SucI)
    show "ti + 1 + length cts \<le> 2 ^ 16" using Cons.prems(7) by simp
    show "\<forall>amount. length (chain_outputs (s1 # ps) amount) + length (block_places index (ti + 1) (map transaction cts) amount) \<le> 2 ^ 32"
      using Cons.prems(8) s1 by (simp add: add.assoc)
  qed
  then obtain s' f' ts where rest: "push_transactions cn ps index (ti + 1) cts s1 = Some s'" "push_transactions cn [] index (ti + 1) cts f1 = Some f'"
    "length ts = length cts"
    "\<forall>k < length cts. tx_entry (s' # ps) index (of_nat (ti + 1 + k)) (transaction (cts ! k)) (tx_hash cn (transaction (cts ! k))) (ts ! k)"
    "pushed ps s1 f1 s' f' ts (block_places index (ti + 1) (map transaction cts))"
    by (elim exE conjE) (rule that)
  have "tx_entry (s' # ps) index ?ti ?tx ?h t"
    using one(3) by (rule tx_entry_extend) (use rest(5) in \<open>simp add: pushed_def\<close>)
  then have "\<forall>k < length (ct # cts). tx_entry (s' # ps) index (of_nat (ti + k)) (transaction ((ct # cts) ! k)) (tx_hash cn (transaction ((ct # cts) ! k))) ((t # ts) ! k)"
    using rest(4) by (auto simp: nth_Cons ac_simps split: nat.split)
  then show ?case using one(1,2) rest(1-3) pushed_trans [OF one(4) rest(5)]
    by (intro exI [of _ s'] exI [of _ f'] exI [of _ "t # ts"]) simp
qed

section \<open>Blocks\<close>

text \<open>The totals after the last block of a chain.\<close>

definition chain_total :: "(CachedBlockInfo \<Rightarrow> u64) \<Rightarrow> chain \<Rightarrow> u64" where
  "chain_total g ch = (if chain_blocks ch = [] then 0 else g (last (chain_blocks ch)))"

lemma vector_at_last: "xs \<noteq> [] \<Longrightarrow> vector_at xs (length xs - 1) = Some (last xs)"
  by (simp add: vector_at_def last_conv_nth)

lemma previous_totals_linked:
  assumes "ch \<noteq> []" "linked ch" "chain_height ch < 2 ^ 32" "unat index = chain_height ch"
  shows "previous_totals ch index = Some (chain_total cbi_cumulativeDifficulty ch, chain_total cbi_alreadyGeneratedCoins ch,
    chain_total cbi_alreadyGeneratedTransactions ch)"
proof -
  obtain s ps where ch: "ch = s # ps" using assms(1) by (cases ch) auto
  have count: "getBlockCount s = 0 \<longleftrightarrow> blockInfos s = []"
    using assms(3) by (simp add: ch getBlockCount_def word_unat_eq_iff unat_of_nat take_bit_nat_eq_self)
  show ?thesis
  proof (cases "blockInfos s = [] \<and> ps \<noteq> []")
    case False
    then show ?thesis using count by (cases "blockInfos s = []") (auto simp: ch previous_totals_def chain_total_def Let_def)
  next
    case True
    then obtain q qs where ps: "ps = q # qs" by (cases ps) auto
    have q: "blockInfos q \<noteq> []" "unat (startIndex q) = chain_height qs" using assms(2) by (simp_all add: ch ps)
    then have last: "last (chain_blocks ps) = last (blockInfos q)" "chain_blocks ps \<noteq> []" by (simp_all add: ps)
    have "1 \<le> index" using assms(4) True last(2) by (cases "chain_blocks ps") (simp_all add: ch word_le_nat_alt)
    then have i: "unat (index - 1) = chain_height ps - 1" using assms(4) True by (simp add: unat_sub ch)
    then have "vector_at (chain_blocks ps) (unat (index - 1)) = Some (last (blockInfos q))"
      using last vector_at_last [of "chain_blocks ps"] by simp
    moreover have le: "startIndex q \<le> index - 1" using i q ps by (cases "blockInfos q") (simp_all add: word_le_nat_alt)
    then have "unat (index - 1 - startIndex q) = length (blockInfos q) - 1"
      using i q ps by (cases "blockInfos q") (simp_all add: unat_sub)
    then have "vector_at (blockInfos q) (unat (index - 1 - startIndex q)) = Some (last (blockInfos q))"
      using vector_at_last [OF q(1)] by simp
    moreover have "linked ps" using assms(2) ch by simp
    ultimately show ?thesis using True count last q(1)
      by (simp add: ch ps previous_totals_def chain_total_def getCurrentCumulativeDifficulty_def getAlreadyGeneratedCoins_def
          getAlreadyGeneratedTransactions_def block_info_at_linked del: block_info_at.simps)
  qed
qed

lemmas previous_totals_joined = previous_totals_linked [OF _ segments_ok_linked]

lemma addSpent_new:
  assumes "kis \<inter> ski_keyImage ` S = {}"
  shows "addSpentKeyImages kis index S = S \<union> (\<lambda>ki. \<lparr>ski_blockIndex = index, ski_keyImage = ki\<rparr>) ` kis"
proof -
  have "{ki \<in> kis. \<forall>sp \<in> S. ski_keyImage sp \<noteq> ki} = kis" using assms by auto
  then show ?thesis by (simp add: addSpentKeyImages_def)
qed

text \<open>A block that continues the chain: everything that must be new is.\<close>

definition block_transactions :: "BlockTemplate \<Rightarrow> CachedTransaction list \<Rightarrow> CachedTransaction list" where
  "block_transactions block cts = CachedTransaction_of (baseTransaction block) # cts"

definition continues :: "(bytes \<Rightarrow> bytes) \<Rightarrow> BlockTemplate \<Rightarrow> CachedTransaction list \<Rightarrow> TransactionValidatorState \<Rightarrow> chain \<Rightarrow> bool" where
  "continues cn block cts kis ch \<longleftrightarrow>
     unat (getBlockIndex block) = chain_height ch \<and> chain_height ch + 1 < 2 ^ 32 \<and>
     (\<exists>h. getBlockHash cn block = Inr h \<and> h \<notin> cbi_blockHash ` set (chain_blocks ch)) \<and>
     kis \<inter> ski_keyImage ` chain_images ch = {} \<and>
     (\<forall>ct \<in> set (block_transactions block cts). writable cn ct \<and> length (outputs (transaction ct)) \<le> 2 ^ 16) \<and>
     distinct (map (tx_hash cn \<circ> transaction) (block_transactions block cts)) \<and>
     tx_hash cn ` transaction ` set (block_transactions block cts) \<inter> cti_transactionHash ` set (chain_txs ch) = {} \<and>
     length cts < 2 ^ 16 \<and>
     (\<forall>amount. length (chain_outputs ch amount) +
        length (block_places (getBlockIndex block) 0 (map transaction (block_transactions block cts)) amount) < 2 ^ 32)"

definition new_images :: "u32 \<Rightarrow> TransactionValidatorState \<Rightarrow> SpentKeyImage set" where
  "new_images index kis = (\<lambda>ki. \<lparr>ski_blockIndex = index, ski_keyImage = ki\<rparr>) ` kis"

definition new_info :: "bytes \<Rightarrow> BlockTemplate \<Rightarrow> CachedTransaction list \<Rightarrow> u64 \<Rightarrow> u64 \<Rightarrow> u64 \<Rightarrow> chain \<Rightarrow> CachedBlockInfo" where
  "new_info h block cts blockSize coins difficulty ch =
     \<lparr>cbi_blockHash = h, cbi_timestamp = timestamp block,
       cbi_cumulativeDifficulty = chain_total cbi_cumulativeDifficulty ch + difficulty,
       cbi_alreadyGeneratedCoins = chain_total cbi_alreadyGeneratedCoins ch + coins,
       cbi_alreadyGeneratedTransactions = chain_total cbi_alreadyGeneratedTransactions ch + of_nat (length cts) + 1,
       cbi_blockSize = ucast blockSize\<rparr>"

text \<open>The parts of \<open>doPushBlock\<close> for a block that continues the chain, on the chain and on the joined chain.\<close>

lemma doPushBlock_steps:
  assumes "chain_ok (s # ps)" "continues cn block cts kis (s # ps)" "getBlockHash cn block = Inr h"
  shows "doPushBlock cn block cts kis blockSize coins difficulty raw (s # ps) =
      map_option (\<lambda>s. s\<lparr>storage := storage s @ [raw]\<rparr> # ps)
        (push_transactions cn ps (getBlockIndex block) 0 (block_transactions block cts)
          (s\<lparr>blockInfos := blockInfos s @ [new_info h block cts blockSize coins difficulty (s # ps)],
             spentKeyImages := spentKeyImages s \<union> new_images (getBlockIndex block) kis\<rparr>))"
proof -
  have ok: "segments_ok (s # ps)" "chain_height (s # ps) < 2 ^ 32" using assms(1) by (simp_all add: chain_ok_def)
  have new: "unat (getBlockIndex block) = chain_height (s # ps)" "h \<notin> cbi_blockHash ` set (chain_blocks (s # ps))" "kis \<inter> ski_keyImage ` spentKeyImages s = {}"
    using assms(2,3) by (auto simp: continues_def)
  have "\<not> hasBlock s h" using new(2) by (auto simp: hasBlock_def list_ex_iff)
  then show ?thesis
    using previous_totals_joined [OF _ ok new(1)] addSpent_new [OF new(3), of "getBlockIndex block"] assms(3)
    by (simp add: doPushBlock_def returned_def Let_def new_info_def new_images_def block_transactions_def
        map_conv_bind_option o_def del: push_transactions.simps)
qed

lemma continues_flatten: "continues cn block cts kis [flatten ch] = continues cn block cts kis ch"
  by (simp add: continues_def)

lemma new_info_flatten: "new_info h block cts blockSize coins difficulty [flatten ch] = new_info h block cts blockSize coins difficulty ch"
  by (simp add: new_info_def chain_total_def)

text \<open>What a new block adds to a chain.\<close>

definition extended :: "(bytes \<Rightarrow> bytes) \<Rightarrow> BlockTemplate \<Rightarrow> CachedTransaction list \<Rightarrow> TransactionValidatorState \<Rightarrow> CachedBlockInfo \<Rightarrow> RawBlock \<Rightarrow>
  chain \<Rightarrow> CachedTransactionInfo list \<Rightarrow> chain \<Rightarrow> bool" where
  "extended cn block cts kis info raw ch ts ch' \<longleftrightarrow>
     tl ch' = tl ch \<and> ch' \<noteq> [] \<and> startIndex (hd ch') = startIndex (hd ch) \<and>
     blockInfos (hd ch') = blockInfos (hd ch) @ [info] \<and> storage (hd ch') = storage (hd ch) @ [raw] \<and>
     spentKeyImages (hd ch') = spentKeyImages (hd ch) \<union> new_images (getBlockIndex block) kis \<and>
     cache_transactions (hd ch') = cache_transactions (hd ch) @ ts \<and> length ts = length (block_transactions block cts) \<and>
     (\<forall>k < length ts. tx_entry ch' (getBlockIndex block) (of_nat k) (transaction (block_transactions block cts ! k))
        (tx_hash cn (transaction (block_transactions block cts ! k))) (ts ! k)) \<and>
     (\<forall>amount. seg_outputs (hd ch') amount = seg_outputs (hd ch) amount @
        block_places (getBlockIndex block) 0 (map transaction (block_transactions block cts)) amount) \<and>
     index_ok (hd ch') (tl ch') \<and>
     (distinct (map pth_transactionHash (paymentIds (hd ch))) \<longrightarrow> distinct (map pth_transactionHash (paymentIds (hd ch'))))"

lemma doPushBlock_joined:
  assumes "chain_ok ch" "continues cn block cts kis ch" "getBlockHash cn block = Inr h"
  shows "\<exists>ch' f' ts. doPushBlock cn block cts kis blockSize coins difficulty raw ch = Some ch' \<and>
    doPushBlock cn block cts kis blockSize coins difficulty raw [flatten ch] = Some [f'] \<and> f'\<lparr>paymentIds := []\<rparr> = flatten ch' \<and>
    extended cn block cts kis (new_info h block cts blockSize coins difficulty ch) raw ch ts ch'"
proof -
  obtain s ps where ch: "ch = s # ps" using assms(1) by (cases ch) (auto simp: chain_ok_def)
  let ?i = "getBlockIndex block" and ?info = "new_info h block cts blockSize coins difficulty (s # ps)"
  let ?s = "s\<lparr>blockInfos := blockInfos s @ [?info], spentKeyImages := spentKeyImages s \<union> new_images ?i kis\<rparr>"
  let ?f = "(flatten (s # ps))\<lparr>blockInfos := chain_blocks (s # ps) @ [?info], spentKeyImages := chain_images (s # ps) \<union> new_images ?i kis\<rparr>"
  let ?txs = "block_transactions block cts"
  have ok: "segment_ok s ps" "segments_ok ps" using assms(1) by (simp_all add: ch chain_ok_def)
  have i: "unat ?i = chain_height (s # ps)" using assms(2) by (simp add: ch continues_def)
  have "\<exists>s' f' ts. push_transactions cn ps ?i 0 ?txs ?s = Some s' \<and> push_transactions cn [] ?i 0 ?txs ?f = Some f' \<and> length ts = length ?txs \<and>
    (\<forall>k < length ?txs. tx_entry (s' # ps) ?i (of_nat (0 + k)) (transaction (?txs ! k)) (tx_hash cn (transaction (?txs ! k))) (ts ! k)) \<and>
    pushed ps ?s ?f s' f' ts (block_places ?i 0 (map transaction ?txs))"
  proof (rule push_transactions_joined [OF ok(2)])
    show "chain_height ps \<le> unat ?i" using i by simp
    show "index_ok ?s ps" using ok(1) by (simp add: index_ok_def segment_ok_def entry_ok_def)
    show "joins ?s ps ?f" by (simp add: joins_def flatten_def Un_assoc seg_outputs_map fun_eq_iff)
    show "\<forall>ct \<in> set ?txs. writable cn ct" "distinct (map (tx_hash cn \<circ> transaction) ?txs)"
      "tx_hash cn ` transaction ` set ?txs \<inter> cti_transactionHash ` set (chain_txs (?s # ps)) = {}" "0 + length ?txs \<le> 2 ^ 16"
      using assms(2) by (simp_all add: ch continues_def block_transactions_def)
    show "\<forall>t \<in> set (chain_txs (?s # ps)). cti_blockIndex t = ?i \<longrightarrow> unat (cti_transactionIndex t) < 0"
      using chain_txs_bound [of "s # ps"] assms(1) i by (fastforce simp: ch chain_ok_def)
    show "\<forall>amount. length (chain_outputs (?s # ps) amount) + length (block_places ?i 0 (map transaction ?txs) amount) \<le> 2 ^ 32"
      using assms(2) by (auto simp: ch continues_def seg_outputs_map intro: less_imp_le)
  qed
  then obtain s' f' ts where push: "push_transactions cn ps ?i 0 ?txs ?s = Some s'" "push_transactions cn [] ?i 0 ?txs ?f = Some f'" "length ts = length ?txs"
    "\<forall>k < length ?txs. tx_entry (s' # ps) ?i (of_nat (0 + k)) (transaction (?txs ! k)) (tx_hash cn (transaction (?txs ! k))) (ts ! k)"
    "pushed ps ?s ?f s' f' ts (block_places ?i 0 (map transaction ?txs))"
    by (elim exE conjE) (rule that)
  note s' = push(5) [unfolded pushed_def joins_def]
  let ?ch' = "s'\<lparr>storage := storage s' @ [raw]\<rparr> # ps" and ?f' = "f'\<lparr>storage := storage f' @ [raw]\<rparr>"
  have "doPushBlock cn block cts kis blockSize coins difficulty raw ch = Some ?ch'"
    using doPushBlock_steps [OF assms [unfolded ch]] push(1) by (simp add: ch)
  moreover have "doPushBlock cn block cts kis blockSize coins difficulty raw [flatten ch] = Some [?f']"
    using doPushBlock_steps [OF chain_ok_flatten [OF assms(1)] continues_flatten [THEN iffD2, OF assms(2)] assms(3)] push(2)
    by (simp add: ch new_info_flatten)
  moreover have "?f'\<lparr>paymentIds := []\<rparr> = flatten ?ch'"
  proof -
    have f': "f'\<lparr>paymentIds := []\<rparr> = flatten (s' # ps)" using s' by blast
    from arg_cong [OF this, of storage] have "storage f' = chain_storage (s' # ps)" by simp
    then have "?f'\<lparr>paymentIds := []\<rparr> = (flatten (s' # ps))\<lparr>storage := chain_storage (s' # ps) @ [raw]\<rparr>" using f' [symmetric] by simp
    also have "\<dots> = flatten ?ch'" by (simp add: flatten_def seg_outputs_map fun_eq_iff)
    finally show ?thesis .
  qed
  moreover have "extended cn block cts kis ?info raw ch ts ?ch'"
  proof -
    have "tx_entry ?ch' ?i (of_nat k) (transaction (?txs ! k)) (tx_hash cn (transaction (?txs ! k))) (ts ! k)" if "k < length ?txs" for k
    proof (rule tx_entry_extend)
      show "tx_entry (s' # ps) ?i (of_nat k) (transaction (?txs ! k)) (tx_hash cn (transaction (?txs ! k))) (ts ! k)"
        using push(4) [rule_format, OF that] by (simp only: add_0)
    qed (simp add: seg_outputs_map)
    then show ?thesis using s' push(3) by (simp add: extended_def ch index_ok_def seg_outputs_map)
  qed
  ultimately show ?thesis by (intro exI [of _ ?ch'] exI [of _ ?f'] exI [of _ ts]) (simp add: ch)
qed

section \<open>A new block keeps the chain well formed\<close>

lemma extended_views:
  assumes "extended cn block cts kis info raw ch ts ch'" "ch \<noteq> []"
  shows "chain_blocks ch' = chain_blocks ch @ [info]" "chain_storage ch' = chain_storage ch @ [raw]"
    "chain_images ch' = chain_images ch \<union> new_images (getBlockIndex block) kis" "chain_txs ch' = chain_txs ch @ ts"
    "chain_outputs ch' amount = chain_outputs ch amount @ block_places (getBlockIndex block) 0 (map transaction (block_transactions block cts)) amount"
  using assms by (cases ch; cases ch'; auto simp: extended_def)+

lemma block_places_in:
  "out \<in> set (block_places index ti txs amount) \<Longrightarrow> poi_blockIndex out = index \<and>
     (\<exists>k < length txs. poi_transactionIndex out = of_nat (ti + k) \<and> (\<exists>j < length (outputs (txs ! k)). poi_outputIndex out = of_nat j))"
proof (induction txs arbitrary: ti)
  case (Cons tx txs)
  show ?case
  proof (cases "out \<in> set (out_places index (of_nat ti) 0 (outputs tx) amount)")
    case True
    from out_places_in [OF this] have "\<exists>k < length (tx # txs). poi_transactionIndex out = of_nat (ti + k) \<and>
        (\<exists>j < length (outputs ((tx # txs) ! k)). poi_outputIndex out = of_nat j)"
      by (intro exI [where x = 0]) simp
    then show ?thesis using out_places_in [OF True] by simp
  next
    case False
    then have "out \<in> set (block_places index (ti + 1) txs amount)" using Cons.prems by simp
    from Cons.IH [OF this] obtain k j where "poi_blockIndex out = index" "k < length txs" "poi_transactionIndex out = of_nat (ti + 1 + k)"
      "j < length (outputs (txs ! k))" "poi_outputIndex out = of_nat j" by blast
    moreover from this have "\<exists>k < length (tx # txs). poi_transactionIndex out = of_nat (ti + k) \<and>
        (\<exists>j < length (outputs ((tx # txs) ! k)). poi_outputIndex out = of_nat j)"
      by (intro exI [where x = "k + 1"]) (auto simp: ac_simps)
    ultimately show ?thesis by simp
  qed
qed simp

text \<open>The place of an entry of the new block.\<close>

lemma new_entries:
  assumes "extended cn block cts kis info raw ch ts ch'" "k < length ts"
  shows "cti_blockIndex (ts ! k) = getBlockIndex block" "cti_transactionIndex (ts ! k) = ucast (of_nat k :: u16)"
    "cti_transactionHash (ts ! k) = tx_hash cn (transaction (block_transactions block cts ! k))"
    "cti_outputs (ts ! k) = map target (outputs (transaction (block_transactions block cts ! k)))"
  using assms by (auto simp: extended_def tx_entry_def)

lemma new_hashes:
  assumes "extended cn block cts kis info raw ch ts ch'"
  shows "map cti_transactionHash ts = map (tx_hash cn \<circ> transaction) (block_transactions block cts)"
  using assms new_entries(3) [OF assms] by (intro nth_equalityI) (auto simp: extended_def)

lemma new_places:
  assumes "extended cn block cts kis info raw ch ts ch'" "length cts < 2 ^ 16"
  shows "distinct (map tx_place ts)" "fst ` tx_place ` set ts \<subseteq> {getBlockIndex block}"
proof -
  have len: "length ts \<le> 2 ^ 16" using assms by (simp add: extended_def block_transactions_def)
  have idx: "unat (cti_transactionIndex (ts ! k)) = k" if "k < length ts" for k
    using new_entries(2) [OF assms(1) that] that len by (simp add: unat_ucast_up unat_of_nat take_bit_nat_eq_self)
  have "inj_on (\<lambda>k. map tx_place ts ! k) {..<length ts}"
    using idx by (intro inj_onI) (auto simp: tx_place_def, metis)
  then show "distinct (map tx_place ts)" by (simp add: distinct_conv_nth inj_on_def) blast
  show "fst ` tx_place ` set ts \<subseteq> {getBlockIndex block}"
    using new_entries(1) [OF assms(1)] by (auto simp: tx_place_def in_set_conv_nth)
qed

lemma extended_segment_ok:
  assumes "chain_ok (s # ps)" "continues cn block cts kis (s # ps)" "extended cn block cts kis info raw (s # ps) ts (s' # ps)"
  shows "segment_ok s' ps"
proof -
  let ?i = "getBlockIndex block"
  have ok: "segment_ok s ps" "segments_ok (s # ps)" using assms(1) by (simp_all add: chain_ok_def)
  have i: "unat ?i = unat (startIndex s) + length (blockInfos s)" using assms(2) ok(1) by (simp add: continues_def segment_ok_def)
  have s': "startIndex s' = startIndex s" "blockInfos s' = blockInfos s @ [info]" "cache_transactions s' = cache_transactions s @ ts"
    using assms(3) by (simp_all add: extended_def)
  have old: "in_segment s' j" if "in_segment s j" for j using that by (simp add: in_segment_def s')
  have new: "in_segment s' ?i" using i by (simp add: in_segment_def s')
  have ts: "\<forall>t \<in> set ts. cti_blockIndex t = ?i" using new_entries(1) [OF assms(3)] by (auto simp: in_set_conv_nth)
  have below: "j \<le> ?i" if "in_segment s j" for j using that i by (simp add: in_segment_def word_le_nat_alt)
  have "sorted (map cti_blockIndex ts)" using ts by (auto simp: sorted_iff_nth_mono)
  then have txs: "sorted (map cti_blockIndex (cache_transactions s'))"
    using ok(1) below ts by (auto simp: s' sorted_append segment_ok_def)
  have entries: "entry_ok s' (length (chain_outputs ps amount)) e" if e: "keyOutputsGlobalIndexes s' amount = Some e" for amount e
  proof -
    let ?new = "block_places ?i 0 (map transaction (block_transactions block cts)) amount"
    have "seg_outputs s' amount = seg_outputs s amount @ ?new" using assms(3) by (simp add: extended_def)
    then have outs: "ogi_outputs e = seg_outputs s amount @ ?new" using e by (simp add: seg_outputs_def [of s'])
    have i': "\<forall>out \<in> set ?new. poi_blockIndex out = ?i" using block_places_in by blast
    then have "sorted (map poi_blockIndex ?new)" by (auto simp: sorted_iff_nth_mono)
    moreover have "sorted (map poi_blockIndex (seg_outputs s amount))"
      using ok(1) by (auto simp: segment_ok_def entry_ok_def seg_outputs_def split: option.split)
    ultimately have "sorted (map poi_blockIndex (ogi_outputs e))"
      unfolding outs using i' below seg_outputs_in_segment [OF ok(1)] by (auto simp: sorted_append)
    moreover have "\<forall>out \<in> set (ogi_outputs e). in_segment s' (poi_blockIndex out)"
      unfolding outs using i' old new seg_outputs_in_segment [OF ok(1)] by auto
    moreover have "ogi_outputs e \<noteq> [] \<and> unat (ogi_startIndex e) = length (chain_outputs ps amount)"
      using assms(3) e by (simp add: extended_def index_ok_def)
    ultimately show ?thesis by (simp add: entry_ok_def)
  qed
  show ?thesis using assms(3) ok(1) old new ts txs entries
    by (auto simp: segment_ok_def extended_def new_images_def)
qed

lemma extended_ok:
  assumes "chain_ok ch" "continues cn block cts kis ch" "extended cn block cts kis info raw ch ts ch'"
    and "cbi_blockHash info \<notin> cbi_blockHash ` set (chain_blocks ch)"
  shows "chain_ok ch'"
proof -
  obtain s ps s' where ch: "ch = s # ps" "ch' = s' # ps" using assms(1,3) by (cases ch; cases ch') (auto simp: chain_ok_def extended_def)
  note views = extended_views [OF assms(3)]
  have ne: "ch \<noteq> []" by (simp add: ch)
  have i: "unat (getBlockIndex block) = chain_height ch" using assms(2) by (simp add: continues_def)
  have "segments_ok ch'" using extended_segment_ok [of s ps] assms(1-3) by (simp add: ch chain_ok_def)
  moreover have "chain_height ch' < 2 ^ 32" "\<forall>amount. length (chain_outputs ch' amount) < 2 ^ 32"
    using assms(2) by (simp_all add: views [OF ne] continues_def)
  moreover have "distinct (map cbi_blockHash (chain_blocks ch'))" using assms(1,4) by (simp add: views [OF ne] chain_ok_def)
  moreover have "inj_on ski_keyImage (chain_images ch')"
  proof -
    have "inj_on ski_keyImage (new_images (getBlockIndex block) kis)" by (auto simp: new_images_def inj_on_def)
    moreover have "ski_keyImage ` new_images (getBlockIndex block) kis = kis" by (auto simp: new_images_def image_image)
    ultimately show ?thesis using assms(1,2) by (auto simp: views [OF ne] chain_ok_def continues_def inj_on_Un)
  qed
  moreover have "distinct (map cti_transactionHash (chain_txs ch'))"
    using assms(1,2) new_hashes [OF assms(3)] arg_cong [OF new_hashes [OF assms(3)], of set]
    by (auto simp: views [OF ne] chain_ok_def continues_def image_image o_def)
  moreover have "distinct (map tx_place (chain_txs ch'))"
  proof -
    have "length cts < 2 ^ 16" using assms(2) by (simp add: continues_def)
    note pl = new_places [OF assms(3) this]
    have "cti_blockIndex t \<noteq> getBlockIndex block" if "t \<in> set (chain_txs ch)" for t
      using chain_txs_bound [of ch t] that i assms(1) by (auto simp: chain_ok_def)
    then have "tx_place ` set (chain_txs ch) \<inter> tx_place ` set ts = {}" using pl(2) by (fastforce simp: tx_place_def)
    then show ?thesis using assms(1) pl(1) by (simp add: views [OF ne] chain_ok_def)
  qed
  moreover have "\<exists>t \<in> set (chain_txs ch'). tx_place t = out_place out \<and> unat (poi_outputIndex out) < length (cti_outputs t)"
    if "out \<in> set (chain_outputs ch' amount)" for amount out
  proof (cases "out \<in> set (chain_outputs ch amount)")
    case True
    then show ?thesis using assms(1) by (fastforce simp: views [OF ne] chain_ok_def)
  next
    case False
    then have "out \<in> set (block_places (getBlockIndex block) 0 (map transaction (block_transactions block cts)) amount)"
      using that by (simp add: views [OF ne])
    from block_places_in [OF this] obtain k j where kj: "k < length ts" "poi_blockIndex out = getBlockIndex block" "poi_transactionIndex out = of_nat k"
      "j < length (outputs (transaction (block_transactions block cts ! k)))" "poi_outputIndex out = of_nat j"
      using assms(3) by (elim conjE exE) (simp add: extended_def)
    have "length (outputs (transaction (block_transactions block cts ! k))) \<le> 2 ^ 16"
      using assms(2,3) kj(1) by (simp add: continues_def extended_def)
    then have "unat (poi_outputIndex out) = j" using kj(4,5) by (simp add: unat_of_nat take_bit_nat_eq_self)
    then show ?thesis using kj new_entries [OF assms(3) kj(1)]
      by (intro bexI [of _ "ts ! k"]) (auto simp: tx_place_def out_place_def views [OF ne])
  qed
  ultimately show ?thesis by (simp add: chain_ok_def ch(2))
qed

lemma push_block_extends:
  assumes "chain_ok ch" "continues cn block cts kis ch"
  obtains h ch' f' ts where "doPushBlock cn block cts kis blockSize coins difficulty raw ch = Some ch'"
    "doPushBlock cn block cts kis blockSize coins difficulty raw [flatten ch] = Some [f']" "f'\<lparr>paymentIds := []\<rparr> = flatten ch'"
    "extended cn block cts kis (new_info h block cts blockSize coins difficulty ch) raw ch ts ch'" "chain_ok ch'"
proof -
  obtain h where h: "getBlockHash cn block = Inr h" "h \<notin> cbi_blockHash ` set (chain_blocks ch)"
    using assms(2) by (auto simp: continues_def)
  obtain ch' f' ts where push: "doPushBlock cn block cts kis blockSize coins difficulty raw ch = Some ch'"
    "doPushBlock cn block cts kis blockSize coins difficulty raw [flatten ch] = Some [f']" "f'\<lparr>paymentIds := []\<rparr> = flatten ch'"
    "extended cn block cts kis (new_info h block cts blockSize coins difficulty ch) raw ch ts ch'"
    using doPushBlock_joined [OF assms h(1), of blockSize coins difficulty raw] by (elim exE conjE) (rule that)
  moreover have "chain_ok ch'" using extended_ok [OF assms push(4)] h(2) by (simp add: new_info_def)
  ultimately show ?thesis by (rule that)
qed

text \<open>The totals below an empty segment, as \<open>getPushedBlockInfo\<close> reads them.\<close>

lemma totals_below:
  assumes "ps \<noteq> []" "segments_ok ps" "chain_height ps < 2 ^ 32" "blockInfos (hd ps) \<noteq> []" "unat start = chain_height ps"
  shows "getLastCumulativeDifficulties ps 1 (start - 1) True = Some [chain_total cbi_cumulativeDifficulty ps]"
    "getAlreadyGeneratedCoins ps (start - 1) = Some (chain_total cbi_alreadyGeneratedCoins ps)"
proof -
  have ne: "chain_blocks ps \<noteq> []" using assms(1,4) by (cases ps) auto
  then have "1 \<le> start" using assms(5) by (cases "chain_blocks ps") (simp_all add: word_le_nat_alt)
  then have i: "unat (start - 1) = chain_height ps - 1" using assms(5) by (simp add: unat_sub)
  then have "unat (start - 1) < chain_height ps" "unat (start - 1) + 1 = chain_height ps" using ne by (cases "chain_blocks ps"; simp)+
  moreover have "drop (chain_height ps - 1) (chain_blocks ps) = [last (chain_blocks ps)]"
    using ne by (cases "chain_blocks ps" rule: rev_cases) simp_all
  ultimately show "getLastCumulativeDifficulties ps 1 (start - 1) True = Some [chain_total cbi_cumulativeDifficulty ps]"
    using getLastUnits_flat [OF assms(1-3), of "start - 1"] ne
    by (simp add: getLastCumulativeDifficulties_def last_units_def chain_total_def)
  show "getAlreadyGeneratedCoins ps (start - 1) = Some (chain_total cbi_alreadyGeneratedCoins ps)"
    using vector_at_last [OF ne] ne by (simp add: getAlreadyGeneratedCoins_def block_info_at_flat [OF assms(2)] i chain_total_def)
qed

lemma pushed_images:
  assumes "chain_ok ch" "continues cn block cts kis ch" "extended cn block cts kis info raw ch ts ch'"
  shows "fillOutputsSpentByBlock (hd ch') (getBlockIndex block) = kis"
proof -
  obtain s ps where ch: "ch = s # ps" using assms(1) by (cases ch) (auto simp: chain_ok_def)
  have "ski_blockIndex sp \<noteq> getBlockIndex block" if "sp \<in> spentKeyImages s" for sp
    using chain_images_bound [of ch sp] that assms(1,2) by (auto simp: ch chain_ok_def continues_def)
  moreover have "spentKeyImages (hd ch') = spentKeyImages s \<union> new_images (getBlockIndex block) kis"
    using assms(3) by (simp add: extended_def ch)
  ultimately have "{sp \<in> spentKeyImages (hd ch'). ski_blockIndex sp = getBlockIndex block} = new_images (getBlockIndex block) kis"
    by (auto simp: new_images_def)
  then show ?thesis by (simp add: fillOutputsSpentByBlock_def new_images_def image_image)
qed

lemma pushed_block_found:
  assumes "chain_ok ch" "continues cn block cts kis ch"
    and "extended cn block cts kis (new_info h block cts blockSize coins difficulty ch) raw ch ts ch'"
  shows "getPushedBlockInfo ch' (getBlockIndex block) =
    Some \<lparr>pbi_rawBlock = raw, pbi_validatorState = kis, pbi_blockSize = ucast (ucast blockSize :: u32), pbi_generatedCoins = coins, pbi_blockDifficulty = difficulty\<rparr>"
proof -
  obtain s ps s' where ch: "ch = s # ps" "ch' = s' # ps" using assms(1,3) by (cases ch; cases ch') (auto simp: chain_ok_def extended_def)
  let ?i = "getBlockIndex block" and ?info = "new_info h block cts blockSize coins difficulty ch"
  have ok: "segment_ok s ps" "segments_ok ps" "chain_height ch < 2 ^ 32" using assms(1) by (simp_all add: ch chain_ok_def)
  have s': "startIndex s' = startIndex s" "blockInfos s' = blockInfos s @ [?info]" "storage s' = storage s @ [raw]"
    using assms(3) by (simp_all add: extended_def ch)
  have i: "unat ?i = unat (startIndex s) + length (blockInfos s)" using assms(2) ok(1) by (simp add: ch continues_def segment_ok_def)
  then have li: "unat (?i - startIndex s) = length (blockInfos s)" by (simp add: unat_sub word_le_nat_alt)
  have at: "vector_at (blockInfos s') (unat (?i - startIndex s')) = Some ?info" "vector_at (storage s') (unat (?i - startIndex s')) = Some raw"
    using li ok(1) by (simp_all add: s' vector_at_def nth_append segment_ok_def)
  have prev: "(if startIndex s' < ?i then map_option (\<lambda>b. (cbi_cumulativeDifficulty b, cbi_alreadyGeneratedCoins b)) (vector_at (blockInfos s') (unat (?i - startIndex s' - 1)))
    else if ps = [] then Some (0, 0)
    else Option.bind (getLastCumulativeDifficulties ps 1 (startIndex s' - 1) True) (\<lambda>ds. Option.bind (vector_at ds 0) (\<lambda>d.
      Option.bind (getAlreadyGeneratedCoins ps (startIndex s' - 1)) (\<lambda>c. Some (d, c))))) =
    Some (chain_total cbi_cumulativeDifficulty ch, chain_total cbi_alreadyGeneratedCoins ch)"
  proof (cases "blockInfos s = []")
    case True
    then have "\<not> startIndex s' < ?i" using i by (simp add: s' word_less_nat_alt)
    moreover have "chain_total g ch = chain_total g ps" for g using True by (simp add: chain_total_def ch)
    moreover have "ps \<noteq> [] \<Longrightarrow> blockInfos (hd ps) \<noteq> []" "unat (startIndex s) = chain_height ps" using ok(1) by (simp_all add: segment_ok_def)
    ultimately show ?thesis using totals_below [of ps "startIndex s"] ok(2,3) by (auto simp: s' ch vector_at_def chain_total_def)
  next
    case False
    then have "unat (?i - startIndex s - 1) = length (blockInfos s) - 1"
      using li by (subst unat_sub) (simp_all add: word_le_nat_alt Suc_le_eq)
    then have "vector_at (blockInfos s') (unat (?i - startIndex s' - 1)) = Some (last (blockInfos s))"
      using False vector_at_last [OF False] by (simp add: s' vector_at_append)
    then show ?thesis using False i by (simp add: s' word_less_nat_alt ch chain_total_def)
  qed
  show ?thesis
    using at prev pushed_images [OF assms]
    by (simp add: getPushedBlockInfo_def ch(2) map_conv_bind_option o_def new_info_def cong: if_cong)
qed

lemma find_distinct: "distinct (map f xs) \<Longrightarrow> x \<in> set xs \<Longrightarrow> find (\<lambda>y. f y = f x) xs = Some x"
  by (induction xs) auto

lemma extract_new_output:
  assumes ok: "chain_ok ch'" and h: "chain_height ch' = unat index + 1"
    and t: "t \<in> set (chain_txs ch')" "tx_entry ch' index ti tx hash t"
    and j: "j < length (outputs tx)" "length (outputs tx) \<le> 2 ^ 16"
  shows "cache_extractKeyOutputKeys c now ch' (out_amount (outputs tx ! j)) index [cti_globalIndexes t ! j] =
    (if isTransactionSpendTimeUnlocked c now (unlockTime tx) index then Some (SUCCESS, [out_key (target (outputs tx ! j))])
     else Some (OUTPUT_LOCKED, []))"
proof -
  let ?a = "out_amount (outputs tx ! j)" and ?g = "cti_globalIndexes t ! j"
  let ?poi = "\<lparr>poi_blockIndex = index, poi_transactionIndex = ti, poi_outputIndex = of_nat j\<rparr>"
  have g: "unat ?g < length (chain_outputs ch' ?a)" "chain_outputs ch' ?a ! unat ?g = ?poi"
    using t(2) j(1) by (auto simp: tx_entry_def Let_def)
  have place: "tx_place t = (index, ucast ti)" using t(2) by (simp add: tx_entry_def tx_place_def)
  have "find (\<lambda>y. tx_place y = tx_place t) (chain_txs ch') = Some t"
    using ok t(1) by (intro find_distinct) (simp_all add: chain_ok_def)
  then have found: "find_in_block (flatten ch') ?poi = Some t" unfolding place by (simp add: find_in_block_def tx_place_def)
  have "unat (of_nat j :: u16) = j" using j by (simp add: unat_of_nat take_bit_nat_eq_self)
  then have key: "collect_keys c now index t ?poi ?g [] = (if isTransactionSpendTimeUnlocked c now (unlockTime tx) index
      then Some (SUCCESS, [out_key (target (outputs tx ! j))]) else Some (OUTPUT_LOCKED, []))"
    using t(2) j(1) by (simp add: collect_keys_def tx_entry_def vector_at_def)
  have "ch' \<noteq> []" "segments_ok ch'" using ok by (simp_all add: chain_ok_def)
  then have "cache_extractKeyOutputKeys c now ch' ?a index [?g] =
      extract_own (collect_keys c now index) (flatten ch') 0 (chain_outputs ch' ?a) [?g] []"
    using extractKeyOutputs_flat [of ch' index "[?g]" "collect_keys c now index" ?a "[]"] g(1) h by (auto simp: cache_extractKeyOutputKeys_def)
  then show ?thesis using g found key by simp
qed

section \<open>Main results\<close>

text \<open>A third block for the example chain, with a hash function that has a single value.\<close>

definition third_tx :: Transaction where
  "third_tx = \<lparr>version = 1, unlockTime = 0, inputs = [BaseInput 2], outputs = [\<lparr>out_amount = 5, target = KeyOutput [11]\<rparr>],
     extra = [], signatures = []\<rparr>"

definition third_block :: BlockTemplate where
  "third_block = \<lparr>majorVersion = 1, minorVersion = 0, nonce = 0, timestamp = 30, previousBlockHash = [4],
     parentBlock = empty_ParentBlock, baseTransaction = third_tx, transactionHashes = []\<rparr>"

definition one_hash :: "bytes \<Rightarrow> bytes" where
  "one_hash bs = [42]"

lemma third_writable: "writable one_hash (CachedTransaction_of third_tx)"
proof -
  have "write_Transaction third_tx = Inr (write_TransactionPrefix third_tx)"
    by (simp add: write_Transaction_def third_tx_def getSignaturesCount_def)
  then show ?thesis by (simp add: writable_def cache_ok_new) (simp add: CachedTransaction_of_def)
qed

lemma third_continues: "continues one_hash third_block [] {[12]} [two_blocks]" "getBlockHash one_hash third_block = Inr [42]"
proof -
  have t: "transaction (CachedTransaction_of third_tx) = third_tx" by (simp add: CachedTransaction_of_def)
  show h: "getBlockHash one_hash third_block = Inr [42]"
    by (simp add: getBlockHash_def getBlockHashingBinaryArray_def write_BlockHeader_def third_block_def block_versions bind_e_def
        getTransactionTreeHash_def tree_hash_def one_hash_def word_le_nat_alt)
  have i: "getBlockIndex third_block = 2" by (simp add: getBlockIndex_def third_block_def third_tx_def)
  have b: "block_transactions third_block [] = [CachedTransaction_of third_tx]" by (simp add: block_transactions_def third_block_def)
  have "tx_hash one_hash third_tx = [42]" using third_writable by (auto simp: tx_hash_def writable_def t one_hash_def)
  moreover have "length (chain_outputs [two_blocks] amount) + length (block_places 2 0 [third_tx] amount) < 2 ^ 32" for amount
    by (auto simp: two_blocks_def third_tx_def seg_outputs_def)
  ultimately show "continues one_hash third_block [] {[12]} [two_blocks]"
    using h third_writable by (simp add: continues_def i b t) (simp add: two_blocks_def third_tx_def)
qed

text \<open>C12: A block that continues a well formed chain is added to it; the chain stays well formed, the totals grow by the difficulty, the coins and the transactions of the block, and joining the segments after adding the block is adding the block to the joined chain.\<close>

theorem push_block_refines:
  assumes "chain_ok ch" "continues cn block cts kis ch"
  shows "\<exists>ch' f'. doPushBlock cn block cts kis blockSize coins difficulty raw ch = Some ch' \<and> chain_ok ch' \<and>
    doPushBlock cn block cts kis blockSize coins difficulty raw [flatten ch] = Some [f'] \<and> f'\<lparr>paymentIds := []\<rparr> = flatten ch' \<and>
    chain_height ch' = chain_height ch + 1 \<and> chain_storage ch' = chain_storage ch @ [raw] \<and>
    chain_images ch' = chain_images ch \<union> new_images (getBlockIndex block) kis \<and>
    chain_total cbi_cumulativeDifficulty ch' = chain_total cbi_cumulativeDifficulty ch + difficulty \<and>
    chain_total cbi_alreadyGeneratedCoins ch' = chain_total cbi_alreadyGeneratedCoins ch + coins \<and>
    chain_total cbi_alreadyGeneratedTransactions ch' = chain_total cbi_alreadyGeneratedTransactions ch + of_nat (length cts) + 1"
proof -
  obtain h ch' f' ts where push: "doPushBlock cn block cts kis blockSize coins difficulty raw ch = Some ch'"
    "doPushBlock cn block cts kis blockSize coins difficulty raw [flatten ch] = Some [f']" "f'\<lparr>paymentIds := []\<rparr> = flatten ch'"
    "extended cn block cts kis (new_info h block cts blockSize coins difficulty ch) raw ch ts ch'" "chain_ok ch'"
    by (rule push_block_extends [OF assms])
  have "ch \<noteq> []" using assms(1) by (simp add: chain_ok_def)
  then show ?thesis using push extended_views [OF push(4)]
    by (intro exI [of _ ch'] exI [of _ f']) (simp add: chain_total_def new_info_def)
qed

theorem push_block_refines_witness:
  "\<exists>ch'. doPushBlock one_hash third_block [] {[12]} 100 5 4 \<lparr>raw_block = [], raw_transactions = []\<rparr> [two_blocks] = Some ch' \<and>
     chain_ok ch' \<and> chain_total cbi_cumulativeDifficulty ch' = 7"
  using push_block_refines [OF two_blocks_ok third_continues(1), of 100 5 4 "\<lparr>raw_block = [], raw_transactions = []\<rparr>"]
  by (elim exE conjE) (simp add: chain_total_def two_blocks_def)

text \<open>C20: The information for replaying a block that was just added gives back what was added: the bytes, the spent key images, the generated coins, the difficulty and the low 32 bits of the size.\<close>

theorem pushed_block_roundtrip:
  assumes "chain_ok ch" "continues cn block cts kis ch"
  shows "\<exists>ch'. doPushBlock cn block cts kis blockSize coins difficulty raw ch = Some ch' \<and>
    getPushedBlockInfo ch' (getBlockIndex block) =
      Some \<lparr>pbi_rawBlock = raw, pbi_validatorState = kis, pbi_blockSize = ucast (ucast blockSize :: u32),
             pbi_generatedCoins = coins, pbi_blockDifficulty = difficulty\<rparr>"
proof -
  obtain h ch' f' ts where "doPushBlock cn block cts kis blockSize coins difficulty raw ch = Some ch'"
    "extended cn block cts kis (new_info h block cts blockSize coins difficulty ch) raw ch ts ch'"
    by (rule push_block_extends [OF assms])
  then show ?thesis using pushed_block_found [OF assms] by blast
qed

theorem pushed_block_roundtrip_witness:
  "\<exists>ch'. doPushBlock one_hash third_block [] {[12]} 100 5 4 \<lparr>raw_block = [7], raw_transactions = []\<rparr> [two_blocks] = Some ch' \<and>
     getPushedBlockInfo ch' 2 = Some \<lparr>pbi_rawBlock = \<lparr>raw_block = [7], raw_transactions = []\<rparr>, pbi_validatorState = {[12]},
       pbi_blockSize = 100, pbi_generatedCoins = 5, pbi_blockDifficulty = 4\<rparr>"
proof -
  have "getBlockIndex third_block = 2" by (simp add: getBlockIndex_def third_block_def third_tx_def)
  then show ?thesis
    using pushed_block_roundtrip [OF two_blocks_ok third_continues(1), of 100 5 4 "\<lparr>raw_block = [7], raw_transactions = []\<rparr>"] by simp
qed

text \<open>C19: After a block was added, every output of its transactions is found again: the global indices stored for the transaction lead to the key of the output, unless the output is locked.\<close>

theorem pushed_output_found:
  assumes "chain_ok ch" "continues cn block cts kis ch" "k < length (block_transactions block cts)"
    and "tx = transaction (block_transactions block cts ! k)" "j < length (outputs tx)"
  shows "\<exists>ch' gis. doPushBlock cn block cts kis blockSize coins difficulty raw ch = Some ch' \<and>
    getTransactionGlobalIndexes (hd ch') (tx_hash cn tx) = Some gis \<and> length gis = length (outputs tx) \<and>
    cache_extractKeyOutputKeys c now ch' (out_amount (outputs tx ! j)) (getBlockIndex block) [gis ! j] =
      (if isTransactionSpendTimeUnlocked c now (unlockTime tx) (getBlockIndex block)
       then Some (SUCCESS, [out_key (target (outputs tx ! j))]) else Some (OUTPUT_LOCKED, []))"
proof -
  obtain h ch' f' ts where push: "doPushBlock cn block cts kis blockSize coins difficulty raw ch = Some ch'"
    "extended cn block cts kis (new_info h block cts blockSize coins difficulty ch) raw ch ts ch'" "chain_ok ch'"
    by (rule push_block_extends [OF assms(1,2)])
  let ?t = "ts ! k" and ?i = "getBlockIndex block"
  have k: "k < length ts" using push(2) assms(3) by (simp add: extended_def)
  then have entry: "tx_entry ch' ?i (of_nat k) tx (tx_hash cn tx) ?t" using push(2) assms(4) by (simp add: extended_def)
  have "ch \<noteq> []" using assms(1) by (simp add: chain_ok_def)
  note views = extended_views [OF push(2) this]
  have t: "?t \<in> set (chain_txs ch')" "?t \<in> set (cache_transactions (hd ch'))" using k push(2) by (simp_all add: views extended_def)
  have "length (outputs tx) \<le> 2 ^ 16" using assms(2-4) by (simp add: continues_def)
  moreover have "chain_height ch' = unat ?i + 1" using assms(2) by (simp add: views continues_def)
  ultimately have "cache_extractKeyOutputKeys c now ch' (out_amount (outputs tx ! j)) ?i [cti_globalIndexes ?t ! j] =
      (if isTransactionSpendTimeUnlocked c now (unlockTime tx) ?i then Some (SUCCESS, [out_key (target (outputs tx ! j))]) else Some (OUTPUT_LOCKED, []))"
    using extract_new_output [OF push(3) _ t(1) entry assms(5)] by blast
  moreover have "getTransactionGlobalIndexes (hd ch') (tx_hash cn tx) = Some (cti_globalIndexes ?t)"
  proof -
    have "distinct (map cti_transactionHash (cache_transactions (hd ch')))" using push(3) by (cases ch') (auto simp: chain_ok_def)
    then show ?thesis using find_distinct [OF _ t(2), of cti_transactionHash] entry
      by (simp add: getTransactionGlobalIndexes_def find_transaction_def tx_entry_def)
  qed
  ultimately show ?thesis using push(1) entry by (intro exI [of _ ch'] exI [of _ "cti_globalIndexes ?t"]) (simp add: tx_entry_def)
qed

theorem pushed_output_found_witness:
  "\<exists>ch' gis. doPushBlock one_hash third_block [] {[12]} 100 5 4 \<lparr>raw_block = [7], raw_transactions = []\<rparr> [two_blocks] = Some ch' \<and>
     getTransactionGlobalIndexes (hd ch') [42] = Some gis \<and> cache_extractKeyOutputKeys mainnet 0 ch' 5 2 [gis ! 0] = Some (SUCCESS, [[11]])"
proof -
  have i: "getBlockIndex third_block = 2" by (simp add: getBlockIndex_def third_block_def third_tx_def)
  have tx: "0 < length (block_transactions third_block [])" "third_tx = transaction (block_transactions third_block [] ! 0)" "0 < length (outputs third_tx)"
    by (simp_all add: block_transactions_def CachedTransaction_of_def third_block_def third_tx_def)
  have "tx_hash one_hash third_tx = [42]" using third_writable by (auto simp: tx_hash_def writable_def one_hash_def CachedTransaction_of_def)
  moreover have "isTransactionSpendTimeUnlocked mainnet 0 (unlockTime third_tx) 2" "out_amount (outputs third_tx ! 0) = 5"
    "out_key (target (outputs third_tx ! 0)) = [11]"
    by (simp_all add: isTransactionSpendTimeUnlocked_def third_tx_def mainnet_def)
  ultimately show ?thesis
    using pushed_output_found [OF two_blocks_ok third_continues(1) tx, of 100 5 4 "\<lparr>raw_block = [7], raw_transactions = []\<rparr>" mainnet 0] i
    by (elim exE conjE) (intro exI conjI, simp_all)
qed

end
