(* ===== verification/Core_Tree.thy ===== *)
theory Core_Tree
  imports Chain_Push
begin

text \<open>
  The tree of segments that \<^verbatim>\<open>Core\<close> of \<^verbatim>\<open>src/mevacoin_core/core.cpp\<close> keeps: the main chain and the alternative chains.
  The vector \<open>chainsStorage\<close> owns the segments and only grows, so that a pointer to a segment is its position there;
  \<open>chainsLeaves\<close> holds the segments without children, the one of the main chain first.
\<close>

section \<open>Segments and pointers\<close>

record node =
  node_cache :: BlockchainCache
  node_parent :: "nat option"
  node_children :: "nat list"

text \<open>
  The walk from a segment to the root.  It ends if the parents have no cycle; a pointer to nothing and a walk that does
  not end are \<open>None\<close>.
\<close>

partial_function (option) ancestors :: "node list \<Rightarrow> nat \<Rightarrow> nat list option" where
  "ancestors cs i =
     (if i < length cs
      then (case node_parent (cs ! i) of
              None \<Rightarrow> Some [i]
            | Some p \<Rightarrow> do { ps \<leftarrow> ancestors cs p; Some (i # ps) })
      else None)"

definition chain_of :: "node list \<Rightarrow> nat list \<Rightarrow> chain" where
  "chain_of cs = map (\<lambda>i. node_cache (cs ! i))"

definition chain_at :: "node list \<Rightarrow> nat \<Rightarrow> chain option" where
  "chain_at cs i = map_option (chain_of cs) (ancestors cs i)"

partial_function (option) findIndexInChain :: "node list \<Rightarrow> bytes \<Rightarrow> nat \<Rightarrow> nat option option" where
  "findIndexInChain cs blockHash i =
     (if i < length cs
      then if hasBlock (node_cache (cs ! i)) blockHash then Some (Some i)
           else (case node_parent (cs ! i) of None \<Rightarrow> Some None | Some p \<Rightarrow> findIndexInChain cs blockHash p)
      else None)"

partial_function (option) findIndexInChain_at :: "node list \<Rightarrow> u32 \<Rightarrow> nat \<Rightarrow> nat option option" where
  "findIndexInChain_at cs index i =
     (if i < length cs
      then let s = node_cache (cs ! i)
           in if startIndex s \<le> index \<and> index < startIndex s + getBlockCount s then Some (Some i)
              else (case node_parent (cs ! i) of None \<Rightarrow> Some None | Some p \<Rightarrow> findIndexInChain_at cs index p)
      else None)"

declare ancestors.simps [code] findIndexInChain.simps [code] findIndexInChain_at.simps [code]

text \<open>The first leaf from which the segment is found.\<close>

fun find_from_leaves :: "(nat \<Rightarrow> nat option option) \<Rightarrow> nat list \<Rightarrow> nat option option" where
  "find_from_leaves search [] = Some None"
| "find_from_leaves search (i # leaves) =
     do {
       found \<leftarrow> search i;
       case found of None \<Rightarrow> find_from_leaves search leaves | Some j \<Rightarrow> Some (Some j)
     }"

definition findMainChainSegmentContainingBlock :: "node list \<Rightarrow> nat list \<Rightarrow> bytes \<Rightarrow> nat option option" where
  "findMainChainSegmentContainingBlock cs leaves blockHash = findIndexInChain cs blockHash (hd leaves)"

definition findAlternativeSegmentContainingBlock :: "node list \<Rightarrow> nat list \<Rightarrow> bytes \<Rightarrow> nat option option" where
  "findAlternativeSegmentContainingBlock cs leaves blockHash = find_from_leaves (findIndexInChain cs blockHash) (tl leaves)"

definition findSegmentContainingBlock :: "node list \<Rightarrow> nat list \<Rightarrow> bytes \<Rightarrow> nat option option" where
  "findSegmentContainingBlock cs leaves blockHash =
     do {
       found \<leftarrow> findMainChainSegmentContainingBlock cs leaves blockHash;
       case found of
         Some j \<Rightarrow> Some (Some j)
       | None \<Rightarrow> findAlternativeSegmentContainingBlock cs leaves blockHash
     }"

text \<open>The search by height finds segments of the main chain only: the result for the other chains is a null pointer.\<close>

definition findSegmentContainingBlock_at :: "node list \<Rightarrow> nat list \<Rightarrow> u32 \<Rightarrow> nat option option" where
  "findSegmentContainingBlock_at cs leaves index =
     do {
       found \<leftarrow> findIndexInChain_at cs index (hd leaves);
       case found of
         Some j \<Rightarrow> Some (Some j)
       | None \<Rightarrow> do { _ \<leftarrow> find_from_leaves (findIndexInChain_at cs index) (tl leaves); Some None }
     }"

section \<open>Changes of the tree\<close>

definition updateMainChainSet :: "node list \<Rightarrow> nat list \<Rightarrow> nat set option" where
  "updateMainChainSet cs leaves = map_option set (ancestors cs (hd leaves))"

definition set_cache :: "node list \<Rightarrow> nat \<Rightarrow> BlockchainCache \<Rightarrow> node list" where
  "set_cache cs i s = cs[i := (cs ! i)\<lparr>node_cache := s\<rparr>]"

text \<open>\<open>pushBlock\<close> on a segment of the tree.\<close>

definition push_at ::
  "(bytes \<Rightarrow> bytes) \<Rightarrow> BlockTemplate \<Rightarrow> CachedTransaction list \<Rightarrow> TransactionValidatorState \<Rightarrow> u64 \<Rightarrow> u64 \<Rightarrow> u64 \<Rightarrow> RawBlock \<Rightarrow>
   node list \<Rightarrow> nat \<Rightarrow> node list option" where
  "push_at cn block cts validatorState blockSize generatedCoins blockDifficulty rawBlock cs i =
     do {
       ch \<leftarrow> chain_at cs i;
       ch \<leftarrow> doPushBlock cn block cts validatorState blockSize generatedCoins blockDifficulty rawBlock ch;
       Some (set_cache cs i (hd ch))
     }"

text \<open>A new segment on top of another one: \<open>createBlockchainCache\<close>, \<open>addChild\<close> and the new entry of \<open>chainsStorage\<close>.\<close>

definition add_segment :: "node list \<Rightarrow> nat \<Rightarrow> u32 \<Rightarrow> node list" where
  "add_segment cs i start =
     cs[i := (cs ! i)\<lparr>node_children := node_children (cs ! i) @ [length cs]\<rparr>] @
       [\<lparr>node_cache = new_segment start, node_parent = Some i, node_children = []\<rparr>]"

definition fixChildrenParent :: "nat list \<Rightarrow> nat \<Rightarrow> node list \<Rightarrow> node list" where
  "fixChildrenParent children p cs = foldl (\<lambda>cs j. cs[j := (cs ! j)\<lparr>node_parent := Some p\<rparr>]) cs children"

text \<open>\<open>split\<close>: the segment keeps the lower part, and the new segment with the upper part takes over its children.\<close>

definition replace_by_parts :: "node list \<Rightarrow> nat \<Rightarrow> BlockchainCache \<Rightarrow> BlockchainCache \<Rightarrow> node list" where
  "replace_by_parts cs i upper lower =
     (let children = node_children (cs ! i);
          cs = fixChildrenParent children (length cs) cs
      in cs[i := (cs ! i)\<lparr>node_cache := lower, node_children := [length cs]\<rparr>] @
           [\<lparr>node_cache = upper, node_parent = Some i, node_children = children\<rparr>])"

definition split_at :: "node list \<Rightarrow> nat \<Rightarrow> u32 \<Rightarrow> node list option" where
  "split_at cs i splitBlockIndex =
     do {
       ch \<leftarrow> chain_at cs i;
       parts \<leftarrow> split_cache ch splitBlockIndex;
       case parts of upper # lower # _ \<Rightarrow> Some (replace_by_parts cs i upper lower) | _ \<Rightarrow> None
     }"

section \<open>Paths\<close>

fun is_path :: "node list \<Rightarrow> nat list \<Rightarrow> bool" where
  "is_path cs [] \<longleftrightarrow> False"
| "is_path cs [i] \<longleftrightarrow> i < length cs \<and> node_parent (cs ! i) = None"
| "is_path cs (i # j # p) \<longleftrightarrow> i < length cs \<and> node_parent (cs ! i) = Some j \<and> is_path cs (j # p)"

lemma is_path_Cons:
  "is_path cs (i # p) \<longleftrightarrow> i < length cs \<and> node_parent (cs ! i) = (if p = [] then None else Some (hd p)) \<and> (p \<noteq> [] \<longrightarrow> is_path cs p)"
  by (cases p) auto

lemma path_ancestors: "is_path cs p \<Longrightarrow> ancestors cs (hd p) = Some p"
proof (induction cs p rule: is_path.induct)
  case (2 cs i)
  then show ?case by (subst ancestors.simps) simp
next
  case (3 cs i j p)
  then show ?case by (subst ancestors.simps) simp
qed simp

lemma ancestors_path:
  assumes "ancestors cs i = Some p"
  shows "is_path cs p \<and> hd p = i"
proof (rule ancestors.raw_induct [where P = "\<lambda>cs i p. is_path cs p \<and> hd p = i", OF _ assms])
  fix rec cs i p
  assume IH: "\<And>cs i p. rec cs i = Some p \<Longrightarrow> is_path cs p \<and> hd p = i"
    and step: "(if i < length cs then case node_parent (cs ! i) of None \<Rightarrow> Some [i]
      | Some p \<Rightarrow> Option.bind (rec cs p) (\<lambda>ps. Some (i # ps)) else None) = Some p"
  show "is_path cs p \<and> hd p = i"
  proof (cases "node_parent (cs ! i)")
    case None
    then show ?thesis using step by (auto split: if_splits)
  next
    case (Some j)
    then obtain q where "i < length cs" "rec cs j = Some q" "p = i # q"
      using step by (auto split: if_splits Option.bind_splits)
    then show ?thesis using IH [of cs j q] Some by (cases q) auto
  qed
qed

lemma ancestors_iff: "ancestors cs i = Some p \<longleftrightarrow> is_path cs p \<and> hd p = i"
  using ancestors_path path_ancestors by blast

lemma is_path_cong:
  assumes "length cs' = length cs" "\<And>i. i < length cs \<Longrightarrow> node_parent (cs' ! i) = node_parent (cs ! i)"
  shows "is_path cs' p = is_path cs p"
  using assms by (induction cs p rule: is_path.induct) auto

lemma is_path_bound: "is_path cs p \<Longrightarrow> i \<in> set p \<Longrightarrow> i < length cs"
  by (induction cs p rule: is_path.induct) auto

text \<open>Every segment of a path but the first is the parent of another.\<close>

lemma path_parent: "is_path cs p \<Longrightarrow> i \<in> set (tl p) \<Longrightarrow> \<exists>j < length cs. node_parent (cs ! j) = Some i"
  by (induction cs p rule: is_path.induct) auto

lemma path_suffix: "is_path cs (q @ i # p) \<Longrightarrow> is_path cs (i # p)"
  by (induction q) (auto simp: is_path_Cons)

text \<open>A path meets no segment twice.\<close>

lemma path_unique: "is_path cs (i # p) \<Longrightarrow> is_path cs (i # q) \<Longrightarrow> p = q"
  using path_ancestors [of cs "i # p"] path_ancestors [of cs "i # q"] by simp

lemma path_distinct: "is_path cs p \<Longrightarrow> distinct p"
proof (induction p)
  case (Cons i p)
  have "i \<notin> set p"
  proof
    assume "i \<in> set p"
    then obtain q r where p: "p = q @ i # r" by (auto simp: in_set_conv_decomp)
    then have "is_path cs (i # r)" using Cons.prems path_suffix [of cs "i # q" i r] by simp
    then have "p = r" using path_unique Cons.prems by blast
    then show False using p by (auto dest: arg_cong [where f = length])
  qed
  then show ?case using Cons by (cases p) (auto simp: is_path_Cons)
qed simp

lemma findIndexInChain_path:
  "is_path cs p \<Longrightarrow> findIndexInChain cs h (hd p) = Some (find (\<lambda>i. hasBlock (node_cache (cs ! i)) h) p)"
proof (induction cs p rule: is_path.induct)
  case (2 cs i)
  then show ?case by (subst findIndexInChain.simps) simp
next
  case (3 cs i j p)
  then show ?case by (subst findIndexInChain.simps) simp
qed simp

section \<open>A well formed tree\<close>

definition links_ok :: "node list \<Rightarrow> bool" where
  "links_ok cs \<longleftrightarrow> (\<forall>i < length cs. set (node_children (cs ! i)) = {j. j < length cs \<and> node_parent (cs ! j) = Some i})"

definition leaves_ok :: "node list \<Rightarrow> nat list \<Rightarrow> bool" where
  "leaves_ok cs leaves \<longleftrightarrow> leaves \<noteq> [] \<and> distinct leaves \<and> set leaves = {i. i < length cs \<and> node_children (cs ! i) = []}"

definition tree_ok :: "node list \<Rightarrow> nat list \<Rightarrow> bool" where
  "tree_ok cs leaves \<longleftrightarrow> links_ok cs \<and> leaves_ok cs leaves \<and> (\<forall>i < length cs. \<exists>p. is_path cs (i # p))"

lemma tree_path:
  assumes "tree_ok cs leaves" "i < length cs"
  obtains p where "is_path cs (i # p)" "ancestors cs i = Some (i # p)" "chain_at cs i = Some (chain_of cs (i # p))"
proof -
  obtain p where p: "is_path cs (i # p)" using assms unfolding tree_ok_def by blast
  then have "ancestors cs i = Some (i # p)" using path_ancestors [of cs "i # p"] by simp
  then show ?thesis by (intro that [OF p]) (simp_all add: chain_at_def)
qed

lemma tree_leaf: "tree_ok cs leaves \<Longrightarrow> i \<in> set leaves \<longleftrightarrow> i < length cs \<and> node_children (cs ! i) = []"
  by (simp add: tree_ok_def leaves_ok_def)

lemma tree_children:
  "tree_ok cs leaves \<Longrightarrow> i < length cs \<Longrightarrow> j \<in> set (node_children (cs ! i)) \<longleftrightarrow> j < length cs \<and> node_parent (cs ! j) = Some i"
  by (simp add: tree_ok_def links_ok_def)

lemma tree_leaves: "tree_ok cs leaves \<Longrightarrow> leaves \<noteq> [] \<and> distinct leaves"
  by (simp add: tree_ok_def leaves_ok_def)

lemma tree_parent_bound:
  assumes "tree_ok cs leaves" "j < length cs" "node_parent (cs ! j) = Some i"
  shows "i < length cs"
proof -
  obtain p where "is_path cs (j # p)" using tree_path [OF assms(1,2)] by blast
  then show ?thesis using assms(3) is_path_bound [of cs p i] by (cases p) auto
qed

lemma leaf_path_end:
  assumes "tree_ok cs leaves" "i \<in> set leaves" "is_path cs p"
  shows "i \<notin> set (tl p)"
  using path_parent [OF assms(3), of i] tree_children [OF assms(1), of i] tree_leaf [OF assms(1), of i] assms(2) by auto

lemma chain_of_simps [simp]:
  "chain_of cs [] = []" "chain_of cs (i # p) = node_cache (cs ! i) # chain_of cs p" "chain_of cs p = [] \<longleftrightarrow> p = []"
  by (simp_all add: chain_of_def)

lemma chain_of_append [simp]: "chain_of cs (p @ q) = chain_of cs p @ chain_of cs q"
  by (simp add: chain_of_def)

lemma chain_of_cong: "(\<And>i. i \<in> set p \<Longrightarrow> node_cache (cs' ! i) = node_cache (cs ! i)) \<Longrightarrow> chain_of cs' p = chain_of cs p"
  by (simp add: chain_of_def)

text \<open>Setting the data of a segment.\<close>

lemma set_cache_length [simp]: "length (set_cache cs i s) = length cs"
  by (simp add: set_cache_def)

lemma set_cache_links [simp]:
  assumes "j < length cs"
  shows "node_parent (set_cache cs i s ! j) = node_parent (cs ! j)" "node_children (set_cache cs i s ! j) = node_children (cs ! j)"
  using assms by (cases "i = j"; simp add: set_cache_def)+

lemma set_cache_nth: "j < length cs \<Longrightarrow> node_cache (set_cache cs i s ! j) = (if j = i then s else node_cache (cs ! j))"
  by (cases "j = i") (simp_all add: set_cache_def)

lemma set_cache_path [simp]: "is_path (set_cache cs i s) p = is_path cs p"
  by (rule is_path_cong) simp_all

lemma set_cache_tree [simp]: "tree_ok (set_cache cs i s) leaves = tree_ok cs leaves"
  by (simp add: tree_ok_def links_ok_def leaves_ok_def cong: conj_cong)

text \<open>A new segment on top.\<close>

lemma add_segment_nth:
  assumes "i < length cs"
  shows "length (add_segment cs i start) = length cs + 1"
    "j < length cs \<Longrightarrow> node_parent (add_segment cs i start ! j) = node_parent (cs ! j)"
    "j < length cs \<Longrightarrow> node_cache (add_segment cs i start ! j) = node_cache (cs ! j)"
    "j < length cs \<Longrightarrow> node_children (add_segment cs i start ! j) = node_children (cs ! j) @ (if j = i then [length cs] else [])"
    "add_segment cs i start ! length cs = \<lparr>node_cache = new_segment start, node_parent = Some i, node_children = []\<rparr>"
  using assms by (auto simp: add_segment_def nth_append nth_list_update)

lemma add_segment_path: "i < length cs \<Longrightarrow> is_path cs p \<Longrightarrow> is_path (add_segment cs i start) p"
  by (induction cs p rule: is_path.induct) (auto simp: add_segment_nth)

lemma add_segment_new_path:
  "i < length cs \<Longrightarrow> is_path cs (i # p) \<Longrightarrow> is_path (add_segment cs i start) (length cs # i # p)"
  using add_segment_path [of i cs "i # p" start] by (simp add: add_segment_nth)

lemma add_segment_chain: "i < length cs \<Longrightarrow> is_path cs p \<Longrightarrow> chain_of (add_segment cs i start) p = chain_of cs p"
  by (intro chain_of_cong) (auto simp: add_segment_nth dest: is_path_bound)

lemma add_segment_tree:
  assumes "tree_ok cs leaves" "i < length cs" "i \<notin> set leaves"
  shows "tree_ok (add_segment cs i start) (leaves @ [length cs])"
proof -
  let ?n = "length cs" and ?cs = "add_segment cs i start"
  note nth = add_segment_nth [OF assms(2), where start = start]
  have "set (node_children (?cs ! k)) = {j. j < ?n + 1 \<and> node_parent (?cs ! j) = Some k}" if k: "k < ?n + 1" for k
  proof (cases "k = ?n")
    case True
    have "node_parent (cs ! j) \<noteq> Some ?n" if "j < ?n" for j using tree_parent_bound [OF assms(1) that, of ?n] by blast
    then show ?thesis using nth assms(2) by (auto simp: True less_Suc_eq)
  next
    case False
    then have "k < ?n" using k by simp
    then show ?thesis using tree_children [OF assms(1), of k] nth by (auto simp: less_Suc_eq)
  qed
  then have "links_ok ?cs" by (simp add: links_ok_def nth(1))
  moreover have "k \<in> set (leaves @ [?n]) \<longleftrightarrow> k < ?n + 1 \<and> node_children (?cs ! k) = []" for k
    using tree_leaf [OF assms(1), of k] tree_leaf [OF assms(1), of i] nth assms(2,3) by (cases "k = ?n") auto
  then have "leaves_ok ?cs (leaves @ [?n])"
    using tree_leaves [OF assms(1)] tree_leaf [OF assms(1), of ?n] by (auto simp: leaves_ok_def nth(1))
  moreover have "\<exists>p. is_path ?cs (k # p)" if k: "k < ?n + 1" for k
  proof (cases "k = ?n")
    case True
    obtain p where "is_path cs (i # p)" using tree_path [OF assms(1,2)] by blast
    then show ?thesis using add_segment_new_path [OF assms(2)] True by blast
  next
    case False
    then have "k < ?n" using k by simp
    then obtain p where "is_path cs (k # p)" using tree_path [OF assms(1)] by blast
    then show ?thesis using add_segment_path [OF assms(2)] by blast
  qed
  ultimately show ?thesis by (simp add: tree_ok_def nth)
qed

text \<open>A segment in two parts.\<close>

lemma nth_update_if: "k < length xs \<Longrightarrow> xs[j := x] ! k = (if j = k then x else xs ! k)"
  by (cases "j = k") simp_all

lemma fixChildrenParent_nth:
  "length (fixChildrenParent js p cs) = length cs"
  "k < length cs \<Longrightarrow> fixChildrenParent js p cs ! k = (if k \<in> set js then (cs ! k)\<lparr>node_parent := Some p\<rparr> else cs ! k)"
proof -
  have "length (fixChildrenParent js p cs) = length cs \<and>
    (\<forall>k < length cs. fixChildrenParent js p cs ! k = (if k \<in> set js then (cs ! k)\<lparr>node_parent := Some p\<rparr> else cs ! k))"
  proof (induction js arbitrary: cs)
    case (Cons j js)
    then show ?case by (simp add: fixChildrenParent_def nth_update_if)
  qed (simp add: fixChildrenParent_def)
  then show "length (fixChildrenParent js p cs) = length cs"
    "k < length cs \<Longrightarrow> fixChildrenParent js p cs ! k = (if k \<in> set js then (cs ! k)\<lparr>node_parent := Some p\<rparr> else cs ! k)" by auto
qed

lemma tree_no_loop:
  assumes "tree_ok cs leaves" "i < length cs"
  shows "node_parent (cs ! i) \<noteq> Some i"
proof -
  obtain p where "is_path cs (i # p)" using tree_path [OF assms] by blast
  then show ?thesis using path_distinct [of cs "i # p"] by (cases p) auto
qed

lemma parts_nth:
  assumes "tree_ok cs leaves" "i < length cs"
  shows "length (replace_by_parts cs i upper lower) = length cs + 1"
    "j < length cs \<Longrightarrow> node_parent (replace_by_parts cs i upper lower ! j) =
       (if node_parent (cs ! j) = Some i then Some (length cs) else node_parent (cs ! j))"
    "j < length cs \<Longrightarrow> node_cache (replace_by_parts cs i upper lower ! j) = (if j = i then lower else node_cache (cs ! j))"
    "j < length cs \<Longrightarrow> node_children (replace_by_parts cs i upper lower ! j) = (if j = i then [length cs] else node_children (cs ! j))"
    "replace_by_parts cs i upper lower ! length cs =
       \<lparr>node_cache = upper, node_parent = Some i, node_children = node_children (cs ! i)\<rparr>"
  using assms(2) tree_children [OF assms] tree_no_loop [OF assms]
  by (auto simp: replace_by_parts_def Let_def nth_append nth_list_update fixChildrenParent_nth)

definition expand :: "nat \<Rightarrow> 'a \<Rightarrow> 'a \<Rightarrow> (nat \<Rightarrow> 'a) \<Rightarrow> nat list \<Rightarrow> 'a list" where
  "expand i upper lower f p = concat (map (\<lambda>k. if k = i then [upper, lower] else [f k]) p)"

lemma expand_simps [simp]:
  "expand i upper lower f [] = []"
  "expand i upper lower f (k # p) = (if k = i then [upper, lower] else [f k]) @ expand i upper lower f p"
  by (simp_all add: expand_def)

abbreviation above :: "nat \<Rightarrow> nat \<Rightarrow> nat list \<Rightarrow> nat list" where
  "above i n p \<equiv> expand i n i (\<lambda>k. k) p"

lemma parts_path:
  assumes "tree_ok cs leaves" "i < length cs" "is_path cs (j # p)"
  shows "is_path (replace_by_parts cs i upper lower) (j # above i (length cs) p)"
  using assms(3)
proof (induction p arbitrary: j)
  case Nil
  then show ?case using parts_nth [OF assms(1,2)] by simp
next
  case (Cons k p)
  then have "is_path (replace_by_parts cs i upper lower) (k # above i (length cs) p)" by simp
  then show ?case using Cons.prems parts_nth [OF assms(1,2)] by (cases "k = i") simp_all
qed

lemma parts_chain:
  assumes "tree_ok cs leaves" "i < length cs" "\<forall>k \<in> set p. k < length cs"
  shows "chain_of (replace_by_parts cs i upper lower) (above i (length cs) p) = expand i upper lower (\<lambda>k. node_cache (cs ! k)) p"
  using assms(3) by (induction p) (simp_all add: parts_nth [OF assms(1,2)])

lemma parts_new_path:
  assumes "tree_ok cs leaves" "i < length cs" "is_path cs (i # p)"
  shows "is_path (replace_by_parts cs i upper lower) (length cs # i # above i (length cs) p)"
  using parts_path [OF assms] parts_nth [OF assms(1,2)] by simp

lemma parts_tree:
  assumes "tree_ok cs leaves" "i < length cs"
  shows "tree_ok (replace_by_parts cs i upper lower) (map (\<lambda>j. if j = i then length cs else j) leaves)"
proof -
  let ?n = "length cs" and ?cs = "replace_by_parts cs i upper lower" and ?f = "\<lambda>j. if j = i then length cs else j"
  note nth = parts_nth [OF assms, where upper = upper and lower = lower]
  have below: "node_parent (cs ! j) \<noteq> Some ?n" if "j < ?n" for j using tree_parent_bound [OF assms(1) that, of ?n] by blast
  have "set (node_children (?cs ! k)) = {j. j < ?n + 1 \<and> node_parent (?cs ! j) = Some k}" if k: "k < ?n + 1" for k
  proof (cases "k = ?n")
    case True
    then show ?thesis using nth tree_children [OF assms] assms(2) below by (auto simp: less_Suc_eq split: if_splits)
  next
    case False
    then have "k < ?n" using k by simp
    then show ?thesis using tree_children [OF assms(1), of k] nth below assms(2) by (auto simp: less_Suc_eq split: if_splits)
  qed
  then have "links_ok ?cs" by (simp add: links_ok_def nth(1))
  moreover have "k \<in> set (map ?f leaves) \<longleftrightarrow> k < ?n + 1 \<and> node_children (?cs ! k) = []" for k
    using tree_leaf [OF assms(1)] nth assms(2) by (cases "k = ?n") (auto split: if_splits)
  then have "leaves_ok ?cs (map ?f leaves)"
    using tree_leaves [OF assms(1)] tree_leaf [OF assms(1), of ?n] by (auto simp: leaves_ok_def nth(1) distinct_map inj_on_def)
  moreover have "\<exists>p. is_path ?cs (k # p)" if k: "k < ?n + 1" for k
  proof (cases "k = ?n")
    case True
    obtain p where "is_path cs (i # p)" using tree_path [OF assms] by blast
    then show ?thesis using parts_new_path [OF assms] True by blast
  next
    case False
    then have "k < ?n" using k by simp
    then obtain p where "is_path cs (k # p)" using tree_path [OF assms(1)] by blast
    then show ?thesis using parts_path [OF assms] by blast
  qed
  ultimately show ?thesis by (simp add: tree_ok_def nth)
qed

text \<open>The blocks of a chain with a segment in two parts.\<close>

lemma expand_blocks:
  assumes "blockInfos lower @ blockInfos upper = blockInfos (f i)" "storage lower @ storage upper = storage (f i)"
  shows "chain_blocks (expand i upper lower f p) = chain_blocks (map f p)" "chain_storage (expand i upper lower f p) = chain_storage (map f p)"
  using assms by (induction p) auto

lemma expand_linked:
  assumes parts: "blockInfos lower @ blockInfos upper = blockInfos (f i)" "storage lower @ storage upper = storage (f i)"
    and ne: "blockInfos lower \<noteq> []" "blockInfos upper \<noteq> []"
    and start: "startIndex lower = startIndex (f i)" "unat (startIndex upper) = unat (startIndex lower) + length (blockInfos lower)"
    and len: "length (storage lower) = length (blockInfos lower)"
    and "linked (map f p)"
  shows "linked (expand i upper lower f p)"
  using assms(8)
proof (induction p)
  case (Cons k p)
  have e: "expand i upper lower f p \<noteq> [] \<longrightarrow> blockInfos (hd (expand i upper lower f p)) \<noteq> []"
    using Cons.prems ne(2) by (cases p) auto
  have "length (storage upper) = length (blockInfos upper)" if "k = i"
    using arg_cong [OF parts(1), of length] arg_cong [OF parts(2), of length] len Cons.prems that by simp
  then show ?case using Cons e ne start expand_blocks [of lower upper f i, OF parts] len by auto
qed simp

section \<open>Work\<close>

text \<open>The difficulty of the block after some blocks, and blocks whose totals grow by these difficulties.\<close>

definition next_work :: "Currency \<Rightarrow> CachedBlockInfo list \<Rightarrow> u64 option" where
  "next_work c bs =
     (let index = of_nat (length bs - 1) :: u32;
          nextBlockMajorVersion = getBlockMajorVersionForHeight c (index + 1);
          last_blocks = last_units False (unat (difficultyBlocksCountByBlockVersion c nextBlockMajorVersion index)) bs
      in getNextDifficulty c nextBlockMajorVersion index (map cbi_timestamp last_blocks) (map cbi_cumulativeDifficulty last_blocks))"

definition adds_work :: "Currency \<Rightarrow> CachedBlockInfo list \<Rightarrow> CachedBlockInfo \<Rightarrow> bool" where
  "adds_work c bs b \<longleftrightarrow> (\<exists>d. next_work c bs = Some d \<and>
     unat (cbi_cumulativeDifficulty b) = unat (cbi_cumulativeDifficulty (last bs)) + unat d)"

definition worked :: "Currency \<Rightarrow> CachedBlockInfo list \<Rightarrow> bool" where
  "worked c bs \<longleftrightarrow> (\<forall>k. 0 < k \<longrightarrow> k < length bs \<longrightarrow> adds_work c (take k bs) (bs ! k))"

lemma next_work_eq:
  assumes "ch \<noteq> []" "linked ch" "chain_height ch < 2 ^ 32" "unat index < chain_height ch"
  shows "getDifficultyForNextBlock c ch index = next_work c (take (unat index + 1) (chain_blocks ch))"
proof -
  have "length (take (unat index + 1) (chain_blocks ch)) - 1 = unat index" using assms(4) by simp
  then show ?thesis
    using getLastUnits_linked [OF assms]
    by (simp add: getDifficultyForNextBlock_def next_work_def getLastTimestamps_def getLastCumulativeDifficulties_def Let_def)
qed

lemma worked_take: "worked c bs \<Longrightarrow> worked c (take n bs)"
  by (simp add: worked_def)

lemma worked_prefix: "worked c (xs @ ys) \<Longrightarrow> worked c xs"
  using worked_take [of c "xs @ ys" "length xs"] by simp

lemma worked_snoc: "bs \<noteq> [] \<Longrightarrow> worked c (bs @ [b]) \<longleftrightarrow> worked c bs \<and> adds_work c bs b"
  by (auto simp: worked_def nth_append less_Suc_eq)

lemma worked_step:
  assumes "worked c bs" "k + 1 < length bs"
  shows "cbi_cumulativeDifficulty (bs ! k) \<le> cbi_cumulativeDifficulty (bs ! (k + 1))"
proof -
  have "adds_work c (take (k + 1) bs) (bs ! (k + 1))" using assms by (simp add: worked_def)
  moreover have "last (take (k + 1) bs) = bs ! k" using assms(2) by (simp add: take_Suc_conv_app_nth)
  ultimately show ?thesis by (auto simp: adds_work_def word_le_nat_alt)
qed

lemma worked_mono:
  assumes "worked c bs" "j < length bs" "i \<le> j"
  shows "cbi_cumulativeDifficulty (bs ! i) \<le> cbi_cumulativeDifficulty (bs ! j)"
  using assms(3,2)
proof (induction rule: dec_induct)
  case (step n)
  then show ?case using worked_step [OF assms(1), of n] by simp
qed simp

lemma worked_last: "worked c (xs @ ys) \<Longrightarrow> xs \<noteq> [] \<Longrightarrow> cbi_cumulativeDifficulty (last xs) \<le> cbi_cumulativeDifficulty (last (xs @ ys))"
  using worked_mono [of c "xs @ ys" "length (xs @ ys) - 1" "length xs - 1"]
  by (cases "ys = []") (simp_all add: last_conv_nth nth_append)

definition chain_inv :: "Currency \<Rightarrow> chain \<Rightarrow> bool" where
  "chain_inv c ch \<longleftrightarrow> ch \<noteq> [] \<and> linked ch \<and> blockInfos (hd ch) \<noteq> [] \<and> chain_height ch < 2 ^ 32 \<and> worked c (chain_blocks ch)"

definition top_work :: "node list \<Rightarrow> nat \<Rightarrow> u64" where
  "top_work cs i = cbi_cumulativeDifficulty (last (blockInfos (node_cache (cs ! i))))"

definition chains_inv :: "Currency \<Rightarrow> node list \<Rightarrow> nat list \<Rightarrow> bool" where
  "chains_inv c cs leaves \<longleftrightarrow> tree_ok cs leaves \<and> (\<forall>i < length cs. \<forall>p. is_path cs (i # p) \<longrightarrow> chain_inv c (chain_of cs (i # p)))"

definition heaviest :: "node list \<Rightarrow> nat list \<Rightarrow> bool" where
  "heaviest cs leaves \<longleftrightarrow> (\<forall>i < length cs. top_work cs i \<le> top_work cs (hd leaves))"

lemma top_work_chain: "chain_inv c (chain_of cs (i # p)) \<Longrightarrow> top_work cs i = cbi_cumulativeDifficulty (last (chain_blocks (chain_of cs (i # p))))"
  by (simp add: chain_inv_def top_work_def)

text \<open>A block on a leaf.\<close>

lemma push_leaf_inv:
  assumes inv: "chains_inv c cs leaves" and i: "i \<in> set leaves" "is_path cs (i # p)"
    and s': "startIndex s' = startIndex (node_cache (cs ! i))" "blockInfos s' = blockInfos (node_cache (cs ! i)) @ [b]"
      "storage s' = storage (node_cache (cs ! i)) @ [raw]"
    and b: "adds_work c (chain_blocks (chain_of cs (i # p))) b" "chain_height (chain_of cs (i # p)) + 1 < 2 ^ 32"
  shows "chains_inv c (set_cache cs i s') leaves"
    "top_work (set_cache cs i s') i = cbi_cumulativeDifficulty b" "top_work cs i \<le> cbi_cumulativeDifficulty b"
    "\<And>j. j < length cs \<Longrightarrow> j \<noteq> i \<Longrightarrow> top_work (set_cache cs i s') j = top_work cs j"
proof -
  have tree: "tree_ok cs leaves" and chain: "\<And>j q. is_path cs (j # q) \<Longrightarrow> chain_inv c (chain_of cs (j # q))"
    using inv is_path_bound [of cs "_ # _"] by (auto simp: chains_inv_def)
  have il: "i < length cs" using tree_leaf [OF tree] i(1) by blast
  have "chain_inv c (chain_of (set_cache cs i s') (j # q))" if q: "is_path cs (j # q)" for j q
  proof -
    have tl: "chain_of (set_cache cs i s') q = chain_of cs q"
      using leaf_path_end [OF tree i(1) q] is_path_bound [OF q] by (intro chain_of_cong) (auto simp: set_cache_nth)
    show ?thesis
    proof (cases "j = i")
      case True
      then have "q = p" using path_unique q i(2) by blast
      then have "chain_of (set_cache cs i s') (j # q) = s' # chain_of cs p" using tl True il by (simp add: set_cache_nth)
      then show ?thesis using chain [OF i(2)] s' b worked_snoc [of "chain_blocks (chain_of cs (i # p))" c b]
        by (simp add: chain_inv_def)
    next
      case False
      then show ?thesis using chain [OF q] tl is_path_bound [OF q] by (simp add: set_cache_nth)
    qed
  qed
  then show "chains_inv c (set_cache cs i s') leaves" using tree by (simp add: chains_inv_def)
  show "top_work (set_cache cs i s') i = cbi_cumulativeDifficulty b" using il s' by (simp add: top_work_def set_cache_nth)
  show "top_work cs i \<le> cbi_cumulativeDifficulty b"
    using b(1) top_work_chain [OF chain [OF i(2)]] by (auto simp: adds_work_def word_le_nat_alt)
  show "top_work (set_cache cs i s') j = top_work cs j" if "j < length cs" "j \<noteq> i" for j
    using that by (simp add: top_work_def set_cache_nth)
qed

text \<open>A block in a new segment on top of a segment that has children: the children have a block with the same total.\<close>

lemma fork_inv:
  assumes inv: "chains_inv c cs leaves" and i: "i < length cs" "i \<notin> set leaves" "is_path cs (i # p)"
    and s': "unat (startIndex s') = chain_height (chain_of cs (i # p))" "blockInfos s' = [b]" "storage s' = [raw]"
    and b: "adds_work c (chain_blocks (chain_of cs (i # p))) b" "chain_height (chain_of cs (i # p)) + 1 < 2 ^ 32"
  shows "chains_inv c (set_cache (add_segment cs i start) (length cs) s') (leaves @ [length cs])"
    "top_work (set_cache (add_segment cs i start) (length cs) s') (length cs) = cbi_cumulativeDifficulty b"
    "\<And>j. j < length cs \<Longrightarrow> top_work (set_cache (add_segment cs i start) (length cs) s') j = top_work cs j"
    "\<exists>j < length cs. cbi_cumulativeDifficulty b \<le> top_work cs j"
proof -
  let ?n = "length cs" and ?cs = "set_cache (add_segment cs i start) (length cs) s'"
  have tree: "tree_ok cs leaves" and chain: "\<And>j q. is_path cs (j # q) \<Longrightarrow> chain_inv c (chain_of cs (j # q))"
    using inv is_path_bound [of cs "_ # _"] by (auto simp: chains_inv_def)
  have tree': "tree_ok ?cs (leaves @ [?n])" using add_segment_tree [OF tree i(1,2)] by simp
  have same: "node_cache (?cs ! j) = node_cache (cs ! j)" if "j < ?n" for j
    using that i(1) by (simp add: set_cache_nth add_segment_nth)
  have old: "chain_of ?cs q = chain_of cs q" if "is_path cs q" for q
    using is_path_bound [OF that] same by (intro chain_of_cong) blast
  have "chain_inv c (chain_of ?cs (j # q))" if jq: "is_path ?cs (j # q)" for j q
  proof (cases "j = ?n")
    case True
    have "is_path ?cs (?n # i # p)" using add_segment_new_path [OF i(1,3)] by simp
    then have "q = i # p" using path_unique jq True by blast
    then have "chain_of ?cs (j # q) = s' # chain_of cs (i # p)"
      using True old [OF i(3)] i(1) by (simp add: set_cache_nth add_segment_nth)
    then show ?thesis using chain [OF i(3)] s' b worked_snoc [of "chain_blocks (chain_of cs (i # p))" c b] by (simp add: chain_inv_def)
  next
    case False
    then have "j < ?n" using is_path_bound [OF jq, of j] i(1) by (simp add: add_segment_nth)
    then obtain r where r: "is_path cs (j # r)" using tree_path [OF tree] by blast
    then have "is_path ?cs (j # r)" using add_segment_path [OF i(1)] by simp
    then have "q = r" using path_unique jq by blast
    then show ?thesis using old [OF r] chain [OF r] by simp
  qed
  then show "chains_inv c ?cs (leaves @ [?n])" using tree' by (simp add: chains_inv_def)
  show "top_work ?cs ?n = cbi_cumulativeDifficulty b" using i(1) s' by (simp add: top_work_def set_cache_nth add_segment_nth)
  show "top_work ?cs j = top_work cs j" if "j < ?n" for j using same [OF that] by (simp add: top_work_def)
  show "\<exists>j < ?n. cbi_cumulativeDifficulty b \<le> top_work cs j"
  proof -
    obtain j where j: "j < ?n" "node_parent (cs ! j) = Some i"
      using tree_leaf [OF tree, of i] tree_children [OF tree i(1)] i(1,2) by (cases "node_children (cs ! i)") auto
    then have path: "is_path cs (j # i # p)" using i(3) by simp
    let ?bs = "chain_blocks (chain_of cs (i # p))" and ?own = "blockInfos (node_cache (cs ! j))"
    have own: "?own \<noteq> []" "worked c (?bs @ ?own)" "?bs \<noteq> []" using chain [OF path] chain [OF i(3)] by (auto simp: chain_inv_def)
    then have "adds_work c ?bs (hd ?own)" using own(2) unfolding worked_def by (auto dest!: spec [of _ "length ?bs"] simp: nth_append hd_conv_nth)
    then have "cbi_cumulativeDifficulty b = cbi_cumulativeDifficulty (hd ?own)" using b(1) by (auto simp: adds_work_def word_unat_eq_iff)
    also have "\<dots> \<le> cbi_cumulativeDifficulty (last ?own)"
      using worked_last [of c "?bs @ [hd ?own]" "tl ?own"] own by (cases ?own) simp_all
    finally show ?thesis using j(1) by (auto simp: top_work_def)
  qed
qed

text \<open>Splitting a segment.\<close>

lemma path_chain_at: "is_path cs (i # p) \<Longrightarrow> chain_at cs i = Some (chain_of cs (i # p))"
  using path_ancestors [of cs "i # p"] by (simp add: chain_at_def)

lemma parts_chains:
  assumes tree: "tree_ok cs leaves" and i: "i < length cs" and path: "is_path cs (j # p)"
  shows "j = i \<Longrightarrow> chain_of (replace_by_parts cs i upper lower) (length cs # i # above i (length cs) p) =
      expand i upper lower (\<lambda>k. node_cache (cs ! k)) (i # p)"
    "j \<noteq> i \<Longrightarrow> chain_of (replace_by_parts cs i upper lower) (j # above i (length cs) p) =
      expand i upper lower (\<lambda>k. node_cache (cs ! k)) (j # p)"
    "j = i \<Longrightarrow> chain_of (replace_by_parts cs i upper lower) (i # above i (length cs) p) =
      lower # expand i upper lower (\<lambda>k. node_cache (cs ! k)) p"
  using is_path_bound [OF path] parts_chain [OF tree i, of p upper lower] i parts_nth [OF tree i, where upper = upper and lower = lower]
  by simp_all

lemma expand_inv:
  assumes inv: "chain_inv c (map f q)" and q: "q \<noteq> []"
    and parts: "blockInfos lower @ blockInfos upper = blockInfos (f i)" "storage lower @ storage upper = storage (f i)"
      "blockInfos lower \<noteq> []" "blockInfos upper \<noteq> []" "length (storage lower) = length (blockInfos lower)"
      "startIndex lower = startIndex (f i)" "unat (startIndex upper) = unat (startIndex (f i)) + length (blockInfos lower)"
  shows "chain_inv c (expand i upper lower f q)"
proof -
  have "linked (expand i upper lower f q)" using inv parts by (intro expand_linked) (simp_all add: chain_inv_def)
  then show ?thesis using inv expand_blocks(1) [where f = f and i = i, OF parts(1,2), of q] parts(4) q by (cases q) (auto simp: chain_inv_def)
qed

lemma split_inv:
  assumes inv: "chains_inv c cs leaves" and i: "i < length cs"
    and s: "s = node_cache (cs ! i)"
    and parts: "blockInfos lower @ blockInfos upper = blockInfos s" "storage lower @ storage upper = storage s"
      "blockInfos lower \<noteq> []" "blockInfos upper \<noteq> []" "length (storage lower) = length (blockInfos lower)"
      "startIndex lower = startIndex s" "unat (startIndex upper) = unat (startIndex s) + length (blockInfos lower)"
  shows "chains_inv c (replace_by_parts cs i upper lower) (map (\<lambda>j. if j = i then length cs else j) leaves)"
    "top_work (replace_by_parts cs i upper lower) (length cs) = top_work cs i"
    "top_work (replace_by_parts cs i upper lower) i \<le> top_work cs i"
    "\<And>j. j < length cs \<Longrightarrow> j \<noteq> i \<Longrightarrow> top_work (replace_by_parts cs i upper lower) j = top_work cs j"
    "\<And>j p. is_path cs (j # p) \<Longrightarrow> \<exists>ch. chain_at (replace_by_parts cs i upper lower) (if j = i then length cs else j) = Some ch \<and>
       chain_blocks ch = chain_blocks (chain_of cs (j # p)) \<and> chain_storage ch = chain_storage (chain_of cs (j # p))"
proof -
  let ?n = "length cs" and ?cs = "replace_by_parts cs i upper lower" and ?f = "\<lambda>k. node_cache (cs ! k)"
  have tree: "tree_ok cs leaves" and chain: "\<And>j q. is_path cs (j # q) \<Longrightarrow> chain_inv c (chain_of cs (j # q))"
    using inv is_path_bound [of cs "_ # _"] by (auto simp: chains_inv_def)
  note nth = parts_nth [OF tree i, where upper = upper and lower = lower] and chains = parts_chains [OF tree i, where upper = upper and lower = lower]
  have whole: "chain_inv c (expand i upper lower ?f (j # p))" if "is_path cs (j # p)" for j p
    using chain [OF that] parts s by (intro expand_inv) (simp_all add: chain_of_def)
  obtain p where p: "is_path cs (i # p)" using tree_path [OF tree i] by blast
  have "chain_inv c (chain_of ?cs (j # q))" if jq: "is_path ?cs (j # q)" for j q
  proof -
    consider "j = ?n" | "j = i" | "j < ?n" "j \<noteq> i" using is_path_bound [OF jq, of j] nth(1) by force
    then show ?thesis
    proof cases
      case 1
      then have "q = i # above i ?n p" using parts_new_path [OF tree i p] path_unique jq by blast
      then show ?thesis using whole [OF p] chains(1) [OF p] 1 by simp
    next
      case 2
      then have "q = above i ?n p" using parts_path [OF tree i p] path_unique jq by blast
      then show ?thesis
        using chains(3) [OF p] whole [OF p] 2 parts(3) worked_prefix [of c "chain_blocks (lower # expand i upper lower ?f p)" "blockInfos upper"]
        by (simp add: chain_inv_def)
    next
      case 3
      then obtain r where r: "is_path cs (j # r)" using tree_path [OF tree] by blast
      then have "q = above i ?n r" using parts_path [OF tree i r] path_unique jq by blast
      then show ?thesis using whole [OF r] chains(2) [OF r 3(2)] by simp
    qed
  qed
  then show "chains_inv c ?cs (map (\<lambda>j. if j = i then ?n else j) leaves)" using parts_tree [OF tree i] by (simp add: chains_inv_def)
  have last: "last (blockInfos upper) = last (blockInfos s)" using parts(1,4) by (metis last_appendR)
  then show "top_work ?cs ?n = top_work cs i" using nth(5) s by (simp add: top_work_def)
  have "worked c ((chain_blocks (chain_of cs p) @ blockInfos lower) @ blockInfos upper)"
    using chain [OF p] parts(1) s by (simp add: chain_inv_def)
  from worked_last [OF this] show "top_work ?cs i \<le> top_work cs i" using parts(3,4) last s i nth by (simp add: top_work_def)
  show "top_work ?cs j = top_work cs j" if "j < ?n" "j \<noteq> i" for j using that nth by (simp add: top_work_def)
  show "\<exists>ch. chain_at ?cs (if j = i then ?n else j) = Some ch \<and>
      chain_blocks ch = chain_blocks (chain_of cs (j # q)) \<and> chain_storage ch = chain_storage (chain_of cs (j # q))" if q: "is_path cs (j # q)" for j q
  proof -
    note blocks = expand_blocks [where f = ?f and i = i and p = "j # q", OF parts(1,2) [unfolded s]]
    show ?thesis
    proof (cases "j = i")
      case True
      then have "chain_at ?cs ?n = Some (expand i upper lower ?f (i # q))"
        using path_chain_at [OF parts_new_path [OF tree i]] q chains(1) [OF q] by metis
      then show ?thesis using blocks True by (simp add: chain_of_def del: expand_simps)
    next
      case False
      then have "chain_at ?cs j = Some (expand i upper lower ?f (j # q))"
        using path_chain_at [OF parts_path [OF tree i q]] chains(2) [OF q] by metis
      then show ?thesis using blocks False by (simp add: chain_of_def del: expand_simps)
    qed
  qed
qed

end
