(* ===== verification/Block_Validation.thy ===== *)
theory Block_Validation
  imports Core_Tree Block_Template
begin

text \<open>
  The checks of a block in \<^verbatim>\<open>src/mevacoin_core/core.cpp\<close>: \<open>validateBlock\<close> and the part of \<open>addBlock\<close> before the block is
  stored.  A check gives the error code, or \<open>Inr\<close> for success; \<open>None\<close> is an exception.
\<close>

section \<open>Error codes\<close>

datatype AddBlockErrorCode =
    ADDED_TO_MAIN | ADDED_TO_ALTERNATIVE | ADDED_TO_ALTERNATIVE_AND_SWITCHED | ALREADY_EXISTS
  | REJECTED_AS_ORPHANED | DESERIALIZATION_FAILED

datatype BlockValidationError =
    VALIDATION_SUCCESS | WRONG_VERSION | PARENT_BLOCK_SIZE_TOO_BIG | PARENT_BLOCK_WRONG_VERSION
  | TIMESTAMP_TOO_FAR_IN_FUTURE | TIMESTAMP_TOO_FAR_IN_PAST | CUMULATIVE_BLOCK_SIZE_TOO_BIG | DIFFICULTY_OVERHEAD
  | BLOCK_REWARD_MISMATCH | CHECKPOINT_BLOCK_HASH_MISMATCH | PROOF_OF_WORK_TOO_WEAK | TRANSACTION_ABSENT_IN_POOL
  | TRANSACTION_DUPLICATES | TRANSACTION_INCONSISTENCY

datatype error_code =
    Add_code AddBlockErrorCode | Block_code BlockValidationError | Transaction_code TransactionValidationError

text \<open>One check after the other: the next one runs if the first gives no error.\<close>

definition and_then :: "(error_code + 'a) option \<Rightarrow> ('a \<Rightarrow> (error_code + 'b) option) \<Rightarrow> (error_code + 'b) option" where
  "and_then r k = (case r of None \<Rightarrow> None | Some (Inl e) \<Rightarrow> Some (Inl e) | Some (Inr x) \<Rightarrow> k x)"

definition reject_if :: "bool \<Rightarrow> error_code \<Rightarrow> (error_code + unit) option" where
  "reject_if b e = Some (if b then Inl e else Inr ())"

section \<open>The environment of a call\<close>

text \<open>
  The cryptographic functions, the clock, the value of members that a constructor leaves without one, and the order in
  which a hashed container is traversed.
\<close>

record environment =
  env_crypto :: crypto_ops
  env_pow :: hashes
  env_time :: u64
  env_uninit :: BlockTemplate
  env_order :: "bytes set \<Rightarrow> bytes list"

definition pow_hashes :: "environment \<Rightarrow> hashes" where
  "pow_hashes E = (env_pow E)\<lparr>fast := cn_fast_hash (env_crypto E)\<rparr>"

text \<open>
  The queries of a transaction check to a chain of segments.  On a well formed chain both queries are defined.
\<close>

definition cache_view :: "Currency \<Rightarrow> u64 \<Rightarrow> chain \<Rightarrow> IBlockchainCache" where
  "cache_view c now ch =
     \<lparr>checkIfSpent = (\<lambda>ki index. case cache_checkIfSpent ch ki index of None \<Rightarrow> True | Some b \<Rightarrow> b),
      extractKeyOutputKeys = (\<lambda>amount index gis.
        case cache_extractKeyOutputKeys c now ch amount index gis of None \<Rightarrow> (INVALID_GLOBAL_INDEX, []) | Some r \<Rightarrow> r)\<rparr>"

section \<open>The block\<close>

definition medianValue :: "u64 list \<Rightarrow> u64" where
  "medianValue v =
     (if v = [] then 0
      else if length v = 1 then v ! 0
      else let n = length v div 2; v = sort v
           in if odd (length v) then v ! n else (v ! (n - 1) + v ! n) div 2)"

definition validate_parent :: "crypto_ops \<Rightarrow> BlockTemplate \<Rightarrow> (error_code + unit) option" where
  "validate_parent C block =
     (if BLOCK_MAJOR_VERSION_2 \<le> majorVersion block
      then and_then (reject_if (majorVersion block = BLOCK_MAJOR_VERSION_2 \<and> BLOCK_MAJOR_VERSION_1 < pb_majorVersion (parentBlock block))
             (Block_code PARENT_BLOCK_WRONG_VERSION)) (\<lambda>_. do {
           ba \<leftarrow> returned (getParentBlockBinaryArray (cn_fast_hash C) False block);
           reject_if (2048 < length ba) (Block_code PARENT_BLOCK_SIZE_TOO_BIG)
         })
      else Some (Inr ()))"

definition validate_timestamp :: "Currency \<Rightarrow> u64 \<Rightarrow> BlockTemplate \<Rightarrow> chain \<Rightarrow> u32 \<Rightarrow> (error_code + unit) option" where
  "validate_timestamp c now block ch previousBlockIndex =
     and_then (reject_if (now + blockFutureTimeLimit c (previousBlockIndex + 1) < timestamp block) (Block_code TIMESTAMP_TOO_FAR_IN_FUTURE)) (\<lambda>_. do {
       let window = timestampCheckWindow c (previousBlockIndex + 1);
       timestamps \<leftarrow> getLastTimestamps ch window previousBlockIndex True;
       reject_if (window \<le> of_nat (length timestamps) \<and> timestamp block < medianValue timestamps) (Block_code TIMESTAMP_TOO_FAR_IN_PAST)
     })"

text \<open>The loop over the outputs is the one of \<open>validateSemantic\<close>; its sum is the reward of the miner.\<close>

definition validate_base :: "crypto_ops \<Rightarrow> Currency \<Rightarrow> BlockTemplate \<Rightarrow> u32 \<Rightarrow> TransactionValidationError + u64" where
  "validate_base C c block previousBlockIndex =
     (let tx = baseTransaction block
      in if length (inputs tx) \<noteq> 1 then Inl INPUT_WRONG_COUNT
         else case inputs tx ! 0 of
           KeyInput _ _ _ \<Rightarrow> Inl INPUT_UNEXPECTED_TYPE
         | BaseInput index \<Rightarrow>
             if index \<noteq> previousBlockIndex + 1 then Inl BASE_INPUT_WRONG_BLOCK_INDEX
             else if unlockTime tx \<noteq> ucast (previousBlockIndex + 1 + m_minedMoneyUnlockWindow c) then Inl WRONG_TRANSACTION_UNLOCK_TIME
             else if TRANSACTION_SIGNATURE_COUNT_VALIDATION_HEIGHT \<le> ucast (getBlockIndex block) \<and> signatures tx \<noteq> []
             then Inl BASE_INVALID_SIGNATURES_COUNT
             else semantic_outputs C 0 (outputs tx))"

definition validateBlock :: "crypto_ops \<Rightarrow> Currency \<Rightarrow> u64 \<Rightarrow> BlockTemplate \<Rightarrow> chain \<Rightarrow> (error_code + u64) option" where
  "validateBlock C c now block ch =
     do {
       previousBlockIndex \<leftarrow> cache_getBlockIndex (hd ch) (previousBlockHash block);
       and_then (reject_if (getBlockMajorVersionForHeight c (getBlockIndex block) \<noteq> majorVersion block) (Block_code WRONG_VERSION)) (\<lambda>_.
       and_then (validate_parent C block) (\<lambda>_.
       and_then (validate_timestamp c now block ch previousBlockIndex) (\<lambda>_.
       Some (map_sum Transaction_code id (validate_base C c block previousBlockIndex)))))
     }"

section \<open>The transactions of a block\<close>

fun extractTransactions :: "Currency \<Rightarrow> bytes list \<Rightarrow> CachedTransaction list \<Rightarrow> u64 \<Rightarrow> (CachedTransaction list \<times> u64) option" where
  "extractTransactions c [] cts cumulativeSize = Some (cts, cumulativeSize)"
| "extractTransactions c (raw # raws) cts cumulativeSize =
     (if m_maxTxSize c < of_nat (length raw) then None
      else case CachedTransaction_read raw of
        Inl _ \<Rightarrow> None
      | Inr ct \<Rightarrow> extractTransactions c raws (cts @ [ct]) (cumulativeSize + of_nat (length raw)))"

definition transaction_hashes :: "(bytes \<Rightarrow> bytes) \<Rightarrow> CachedTransaction list \<Rightarrow> bytes list option" where
  "transaction_hashes cn cts = those (map (\<lambda>ct. map_option fst (returned (getTransactionHash cn ct))) cts)"

definition check_transaction_hashes :: "(bytes \<Rightarrow> bytes) \<Rightarrow> BlockTemplate \<Rightarrow> CachedTransaction list \<Rightarrow> (error_code + unit) option" where
  "check_transaction_hashes cn block cts =
     (if BLOCK_BLOB_SHUFFLE_CHECK_HEIGHT \<le> ucast (getBlockIndex block)
      then and_then (reject_if (\<not> distinct (transactionHashes block)) (Block_code TRANSACTION_DUPLICATES)) (\<lambda>_. do {
        hs \<leftarrow> transaction_hashes cn cts;
        and_then (reject_if (\<not> distinct hs) (Block_code TRANSACTION_DUPLICATES)) (\<lambda>_.
        and_then (reject_if (list_ex (\<lambda>h. h \<notin> set (transactionHashes block)) hs) (Block_code TRANSACTION_INCONSISTENCY)) (\<lambda>_.
        reject_if (transactionHashes block \<noteq> hs) (Block_code TRANSACTION_INCONSISTENCY)))
      })
      else Some (Inr ()))"

text \<open>The rules for ring sizes of the height of the block, or of an earlier height.\<close>

definition check_mixins :: "BlockTemplate \<Rightarrow> CachedTransaction list \<Rightarrow> (error_code + unit) option" where
  "check_mixins block cts =
     (let blockIndex = getBlockIndex block;
          mixinChangeWindow = (if MEVACOIN_MINED_MONEY_UNLOCK_WINDOW < blockIndex
                               then blockIndex - MEVACOIN_MINED_MONEY_UNLOCK_WINDOW else blockIndex)
      in reject_if (validate_transactions (map transaction cts) (ucast blockIndex) \<noteq> Inr () \<and>
                    validate_transactions (map transaction cts) (ucast mixinChangeWindow) \<noteq> Inr ())
           (Transaction_code INVALID_MIXIN))"

fun validate_block_transactions ::
  "crypto_ops \<Rightarrow> checkpoints \<Rightarrow> IBlockchainCache \<Rightarrow> u32 \<Rightarrow> CachedTransaction list \<Rightarrow> u64 \<Rightarrow> TransactionValidatorState \<Rightarrow>
   (error_code + (u64 \<times> TransactionValidatorState)) option" where
  "validate_block_transactions C points cache previousBlockIndex [] cumulativeFee validatorState =
     Some (Inr (cumulativeFee, validatorState))"
| "validate_block_transactions C points cache previousBlockIndex (ct # cts) cumulativeFee validatorState =
     and_then (map_option (map_sum Transaction_code id) (validateTransaction C points ct validatorState cache previousBlockIndex))
       (\<lambda>(fee, validatorState).
         validate_block_transactions C points cache previousBlockIndex cts (cumulativeFee + fee) validatorState)"

section \<open>All checks of \<open>addBlock\<close>\<close>

text \<open>What the checks compute for storing the block.\<close>

record checked_block =
  chk_transactions :: "CachedTransaction list"
  chk_state :: TransactionValidatorState
  chk_size :: u64
  chk_emission :: int
  chk_difficulty :: u64
  chk_previous :: u32

definition check_reward ::
  "Currency \<Rightarrow> BlockTemplate \<Rightarrow> chain \<Rightarrow> u32 \<Rightarrow> u64 \<Rightarrow> u64 \<Rightarrow> u64 \<Rightarrow> (error_code + int) option" where
  "check_reward c block ch previousBlockIndex cumulativeBlockSize cumulativeFee minerReward =
     do {
       alreadyGeneratedCoins \<leftarrow> getAlreadyGeneratedCoins ch previousBlockIndex;
       lastBlocksSizes \<leftarrow> getLastBlocksSizes ch (m_rewardBlocksWindow c) previousBlockIndex True;
       result \<leftarrow> getBlockReward c (majorVersion block) (medianValue lastBlocksSizes) cumulativeBlockSize alreadyGeneratedCoins cumulativeFee;
       case result of
         None \<Rightarrow> Some (Inl (Block_code CUMULATIVE_BLOCK_SIZE_TOO_BIG))
       | Some (reward, emissionChange) \<Rightarrow>
           Some (if minerReward \<noteq> reward then Inl (Block_code BLOCK_REWARD_MISMATCH) else Inr emissionChange)
     }"

definition check_work :: "environment \<Rightarrow> checkpoints \<Rightarrow> bytes \<Rightarrow> BlockTemplate \<Rightarrow> bytes \<Rightarrow> u64 \<Rightarrow> (error_code + unit) option" where
  "check_work E points genesisBlockHash block blockHash currentDifficulty =
     (if isInCheckpointZone points (getBlockIndex block)
      then reject_if (\<not> fst (checkBlock points (getBlockIndex block) blockHash)) (Block_code CHECKPOINT_BLOCK_HASH_MISMATCH)
      else do {
        ok \<leftarrow> returned (checkProofOfWork (pow_hashes E) genesisBlockHash block currentDifficulty);
        reject_if (\<not> ok) (Block_code PROOF_OF_WORK_TOO_WEAK)
      })"

definition check_block ::
  "environment \<Rightarrow> Currency \<Rightarrow> checkpoints \<Rightarrow> bytes \<Rightarrow> chain \<Rightarrow> BlockTemplate \<Rightarrow> bytes \<Rightarrow> RawBlock \<Rightarrow>
   (error_code + checked_block) option" where
  "check_block E c points genesisBlockHash ch block blockHash rawBlock =
     (case extractTransactions c (raw_transactions rawBlock) [] 0 of
        None \<Rightarrow> Some (Inl (Add_code DESERIALIZATION_FAILED))
      | Some (cts, cumulativeSize) \<Rightarrow> do {
          let C = env_crypto E;
          let cumulativeBlockSize = fst (getObjectBinarySize write_Transaction (baseTransaction block)) + cumulativeSize;
          previousBlockIndex \<leftarrow> cache_getBlockIndex (hd ch) (previousBlockHash block);
          maxSize \<leftarrow> maxBlockCumulativeSize c (ucast (previousBlockIndex + 1));
          and_then (reject_if (maxSize < cumulativeBlockSize) (Block_code CUMULATIVE_BLOCK_SIZE_TOO_BIG)) (\<lambda>_.
          and_then (validateBlock C c (env_time E) block ch) (\<lambda>minerReward. do {
            currentDifficulty \<leftarrow> getDifficultyForNextBlock c ch previousBlockIndex;
            and_then (reject_if (currentDifficulty = 0) (Block_code DIFFICULTY_OVERHEAD)) (\<lambda>_.
            and_then (check_transaction_hashes (cn_fast_hash C) block cts) (\<lambda>_.
            and_then (check_mixins block cts) (\<lambda>_.
            and_then (validate_block_transactions C points (cache_view c (env_time E) ch) previousBlockIndex cts 0 {}) (\<lambda>(cumulativeFee, validatorState).
            and_then (check_reward c block ch previousBlockIndex cumulativeBlockSize cumulativeFee minerReward) (\<lambda>emissionChange.
            and_then (check_work E points genesisBlockHash block blockHash currentDifficulty) (\<lambda>_.
            Some (Inr \<lparr>chk_transactions = cts, chk_state = validatorState, chk_size = cumulativeBlockSize,
                        chk_emission = emissionChange, chk_difficulty = currentDifficulty, chk_previous = previousBlockIndex\<rparr>)))))))
          }))
        })"

section \<open>What the checks mean\<close>

lemma and_then_Inr: "and_then r k = Some (Inr y) \<longleftrightarrow> (\<exists>x. r = Some (Inr x) \<and> k x = Some (Inr y))"
  by (auto simp: and_then_def split: option.splits sum.splits)

lemma reject_if_Inr: "reject_if b e = Some (Inr u) \<longleftrightarrow> \<not> b"
  by (simp add: reject_if_def)

lemmas check_Inr = and_then_Inr reject_if_Inr

lemma extractTransactions_read:
  assumes "extractTransactions c raws cts0 s0 = Some (cts, s)"
  shows "\<exists>new. cts = cts0 @ new \<and> list_all2 (\<lambda>raw ct. CachedTransaction_read raw = Inr ct) raws new"
  using assms
proof (induction raws arbitrary: cts0 s0)
  case (Cons raw raws)
  then obtain ct where ct: "CachedTransaction_read raw = Inr ct"
    and rest: "extractTransactions c raws (cts0 @ [ct]) (s0 + of_nat (length raw)) = Some (cts, s)"
    by (auto split: if_splits sum.splits)
  from Cons.IH [OF rest] obtain new where "cts = (cts0 @ [ct]) @ new" "list_all2 (\<lambda>raw ct. CachedTransaction_read raw = Inr ct) raws new" by blast
  then show ?case using ct by (intro exI [of _ "ct # new"]) simp
qed simp

text \<open>The key images and the fees of transactions; the fees are numbers modulo the size of a word.\<close>

definition all_images :: "CachedTransaction list \<Rightarrow> bytes list" where
  "all_images cts = concat (map (\<lambda>ct. key_images (transaction ct)) cts)"

definition consumed :: "CachedTransaction list \<Rightarrow> nat" where
  "consumed cts = (\<Sum>ct\<leftarrow>cts. input_sum (transaction ct))"

definition created :: "CachedTransaction list \<Rightarrow> nat" where
  "created cts = (\<Sum>ct\<leftarrow>cts. output_sum (transaction ct))"

lemma sums_simps [simp]:
  "all_images [] = []" "all_images (ct # cts) = key_images (transaction ct) @ all_images cts"
  "consumed [] = 0" "consumed (ct # cts) = input_sum (transaction ct) + consumed cts"
  "created [] = 0" "created (ct # cts) = output_sum (transaction ct) + created cts"
  by (simp_all add: all_images_def consumed_def created_def)

text \<open>A transaction that passes all checks of a block against a chain, at the index of the block before.\<close>

definition transaction_admitted :: "crypto_ops \<Rightarrow> checkpoints \<Rightarrow> IBlockchainCache \<Rightarrow> u32 \<Rightarrow> Transaction \<Rightarrow> bool" where
  "transaction_admitted C points cache index tx \<longleftrightarrow>
     (\<exists>fee. validateSemantic C tx = Inr fee) \<and>
     (isInCheckpointZone points (index + 1) \<or> (\<forall>k < length (inputs tx). input_verified C cache index tx k (inputs tx ! k)))"

lemma semantic_fee:
  assumes "validateSemantic C tx = Inr fee"
  shows "fee = of_nat (input_sum tx) - of_nat (output_sum tx)"
proof -
  have "output_sum tx + unat fee = input_sum tx" using assms by (simp add: validateSemantic_Inr)
  from arg_cong [OF this, of "of_nat :: nat \<Rightarrow> u64"] have "of_nat (output_sum tx) + fee = of_nat (input_sum tx)" by simp
  then show ?thesis by (simp add: algebra_simps)
qed

lemma block_transactions_iff:
  assumes "\<forall>ct \<in> set cts. cache_ok (cn_fast_hash C) ct \<and> valid_Transaction (transaction ct)"
  shows "validate_block_transactions C points cache index cts fee0 state0 = Some (Inr (fee, state)) \<longleftrightarrow>
    (\<forall>ct \<in> set cts. transaction_admitted C points cache index (transaction ct)) \<and> distinct (all_images cts) \<and>
    set (all_images cts) \<inter> state0 = {} \<and> state = state0 \<union> set (all_images cts) \<and>
    fee = fee0 + of_nat (consumed cts) - of_nat (created cts)"
  using assms
proof (induction cts arbitrary: fee0 state0)
  case (Cons ct cts)
  let ?tx = "transaction ct"
  obtain r where r: "validateTransaction C points ct state0 cache index = Some r"
    "\<And>f s. r = Inr (f, s) \<longleftrightarrow> validateSemantic C ?tx = Inr f \<and> set (key_images ?tx) \<inter> state0 = {} \<and> s = state0 \<union> set (key_images ?tx) \<and>
      (isInCheckpointZone points (index + 1) \<or> (\<forall>k < length (inputs ?tx). input_verified C cache index ?tx k (inputs ?tx ! k)))"
    using validateTransaction_state [of C ct points state0 cache index] Cons.prems by auto
  show ?case
  proof (cases r)
    case (Inl e)
    then have "\<not> (transaction_admitted C points cache index ?tx \<and> set (key_images ?tx) \<inter> state0 = {})"
      using r(2) by (auto simp: transaction_admitted_def)
    then show ?thesis using r(1) Inl by (auto simp: and_then_def)
  next
    case (Inr fs)
    obtain f s where fs: "fs = (f, s)" by (cases fs)
    then have ok: "validateSemantic C ?tx = Inr f" "set (key_images ?tx) \<inter> state0 = {}" "s = state0 \<union> set (key_images ?tx)"
      "transaction_admitted C points cache index ?tx"
      using r(2) [of f s] Inr by (auto simp: transaction_admitted_def)
    have "distinct (key_images ?tx)" using semantic_key_images [OF ok(1)] by simp
    then show ?thesis using Cons.IH [of "fee0 + f" s] Cons.prems r(1) ok semantic_fee [OF ok(1)]
      by (auto simp: and_then_def Inr fs algebra_simps)
  qed
qed auto

lemma validate_base_Inr:
  "validate_base C c block prev = Inr m \<longleftrightarrow>
     inputs (baseTransaction block) = [BaseInput (prev + 1)] \<and>
     unlockTime (baseTransaction block) = ucast (prev + 1 + m_minedMoneyUnlockWindow c) \<and>
     \<not> (TRANSACTION_SIGNATURE_COUNT_VALIDATION_HEIGHT \<le> ucast (prev + 1) \<and> signatures (baseTransaction block) \<noteq> []) \<and>
     semantic_outputs C 0 (outputs (baseTransaction block)) = Inr m"
proof -
  consider i where "inputs (baseTransaction block) = [i]" | "length (inputs (baseTransaction block)) \<noteq> 1"
    by (cases "inputs (baseTransaction block)") (auto simp: length_Suc_conv)
  then show ?thesis
  proof cases
    case (1 i)
    then show ?thesis by (cases i) (auto simp: validate_base_def getBlockIndex_def Let_def)
  next
    case 2
    then show ?thesis by (auto simp: validate_base_def Let_def)
  qed
qed

lemma validateBlock_Inr:
  assumes "validateBlock C c now block ch = Some (Inr m)" "cache_getBlockIndex (hd ch) (previousBlockHash block) = Some prev"
  shows "getBlockIndex block = prev + 1" "m = of_nat (output_sum (baseTransaction block))"
    "majorVersion block = getBlockMajorVersionForHeight c (prev + 1)"
proof -
  have base: "validate_base C c block prev = Inr m" and version: "majorVersion block = getBlockMajorVersionForHeight c (getBlockIndex block)"
    using assms by (auto simp: validateBlock_def check_Inr map_sum_def split: sum.splits)
  show i: "getBlockIndex block = prev + 1" using base by (simp add: validate_base_Inr getBlockIndex_def)
  show "majorVersion block = getBlockMajorVersionForHeight c (prev + 1)" using version i by simp
  have "unat m = output_sum (baseTransaction block)" using base by (simp add: validate_base_Inr semantic_outputs_iff)
  then show "m = of_nat (output_sum (baseTransaction block))" by (metis of_nat_if_unat)
qed

lemma getBlockReward_word:
  assumes "getBlockReward c v median sz coins fee = Some (Some (reward, emission))"
  shows "word_of_int emission = reward - fee" "- (2 ^ 63) \<le> emission \<and> emission < 2 ^ 63"
proof -
  obtain b f where bf: "reward = b + f" "emission = sint (b - (fee - f))"
    using assms by (auto simp: getBlockReward_def Let_def split: if_splits Option.bind_splits)
  then show "word_of_int emission = reward - fee" by simp
  show "- (2 ^ 63) \<le> emission \<and> emission < 2 ^ 63" unfolding bf using sint_ge [of "b - (fee - f)"] sint_lt [of "b - (fee - f)"] by simp
qed

lemma check_block_parts:
  assumes "check_block E c points g ch block h raw = Some (Inr v)"
  obtains cumulativeSize minerReward fee where
    "extractTransactions c (raw_transactions raw) [] 0 = Some (chk_transactions v, cumulativeSize)"
    "chk_size v = fst (getObjectBinarySize write_Transaction (baseTransaction block)) + cumulativeSize"
    "cache_getBlockIndex (hd ch) (previousBlockHash block) = Some (chk_previous v)"
    "validateBlock (env_crypto E) c (env_time E) block ch = Some (Inr minerReward)"
    "getDifficultyForNextBlock c ch (chk_previous v) = Some (chk_difficulty v)"
    "validate_block_transactions (env_crypto E) points (cache_view c (env_time E) ch) (chk_previous v) (chk_transactions v) 0 {} = Some (Inr (fee, chk_state v))"
    "check_reward c block ch (chk_previous v) (chk_size v) fee minerReward = Some (Inr (chk_emission v))"
    "check_work E points g block h (chk_difficulty v) = Some (Inr ())"
  using assms
  by (auto simp: check_block_def Let_def check_Inr split: option.splits Option.bind_splits prod.splits)

lemma check_reward_Inr:
  "check_reward c block ch prev sz fee reward = Some (Inr emission) \<longleftrightarrow>
     (\<exists>coins sizes. getAlreadyGeneratedCoins ch prev = Some coins \<and> getLastBlocksSizes ch (m_rewardBlocksWindow c) prev True = Some sizes \<and>
        getBlockReward c (majorVersion block) (medianValue sizes) sz coins fee = Some (Some (reward, emission)))"
  by (auto simp: check_reward_def split: Option.bind_splits option.splits)

lemma checked_transactions:
  assumes "check_block E c points g ch block h raw = Some (Inr v)"
  shows "list_all2 (\<lambda>raw ct. CachedTransaction_read raw = Inr ct) (raw_transactions raw) (chk_transactions v)"
    "\<forall>ct \<in> set (chk_transactions v). cache_ok cn ct \<and> valid_Transaction (transaction ct)"
proof -
  from check_block_parts [OF assms] obtain s where "extractTransactions c (raw_transactions raw) [] 0 = Some (chk_transactions v, s)" by blast
  then show l: "list_all2 (\<lambda>raw ct. CachedTransaction_read raw = Inr ct) (raw_transactions raw) (chk_transactions v)"
    using extractTransactions_read [of c "raw_transactions raw" "[]" 0 "chk_transactions v" s] by simp
  then show "\<forall>ct \<in> set (chk_transactions v). cache_ok cn ct \<and> valid_Transaction (transaction ct)"
    using cache_ok_read by (fastforce simp: list_all2_conv_all_nth in_set_conv_nth)
qed

text \<open>The coins of a block: the outputs of its base transaction and of its other transactions.\<close>

definition block_created :: "BlockTemplate \<Rightarrow> CachedTransaction list \<Rightarrow> nat" where
  "block_created block cts = output_sum (baseTransaction block) + created cts"

lemma checked_emission:
  assumes "check_block E c points g ch block h raw = Some (Inr v)"
  shows "word_of_int (chk_emission v) = (of_nat (block_created block (chk_transactions v)) - of_nat (consumed (chk_transactions v)) :: u64)"
    "- (2 ^ 63) \<le> chk_emission v \<and> chk_emission v < 2 ^ 63"
proof -
  from check_block_parts [OF assms] obtain m fee where parts: "cache_getBlockIndex (hd ch) (previousBlockHash block) = Some (chk_previous v)"
    "validateBlock (env_crypto E) c (env_time E) block ch = Some (Inr m)"
    "validate_block_transactions (env_crypto E) points (cache_view c (env_time E) ch) (chk_previous v) (chk_transactions v) 0 {} = Some (Inr (fee, chk_state v))"
    "check_reward c block ch (chk_previous v) (chk_size v) fee m = Some (Inr (chk_emission v))" by metis
  have m: "m = of_nat (output_sum (baseTransaction block))" using validateBlock_Inr(2) [OF parts(2,1)] .
  have fee: "fee = of_nat (consumed (chk_transactions v)) - of_nat (created (chk_transactions v))"
    using parts(3) block_transactions_iff [OF checked_transactions(2) [OF assms]] by simp
  obtain sz med coins where "getBlockReward c (majorVersion block) med sz coins fee = Some (Some (m, chk_emission v))"
    using parts(4) by (auto simp: check_reward_Inr)
  note r = getBlockReward_word [OF this]
  show "word_of_int (chk_emission v) = (of_nat (block_created block (chk_transactions v)) - of_nat (consumed (chk_transactions v)) :: u64)"
    unfolding r(1) m fee by (simp add: block_created_def)
  show "- (2 ^ 63) \<le> chk_emission v \<and> chk_emission v < 2 ^ 63" by (rule r(2))
qed

section \<open>Main results\<close>

definition sample_currency :: Currency where
  "sample_currency = mainnet\<lparr>m_upgradeHeightV2 := 100, m_upgradeHeightV3 := 200, m_upgradeHeightV4 := 300, m_upgradeHeightV5 := 400\<rparr>"

definition sample_env :: environment where
  "sample_env =
     \<lparr>env_crypto = sample_crypto,
      env_pow = \<lparr>fast = one_hash, slow_v0 = (\<lambda>_. replicate 32 0), lite_v1 = one_hash, turtle_lite_v2 = one_hash\<rparr>,
      env_time = 100, env_uninit = third_block, env_order = (\<lambda>_. [])\<rparr>"

definition sample_root :: BlockchainCache where
  "sample_root =
     \<lparr>startIndex = 0,
       cache_transactions =
         [\<lparr>cti_blockIndex = 0, cti_transactionIndex = 0, cti_transactionHash = [1], cti_unlockTime = 0,
            cti_outputs = replicate 5 (KeyOutput [7]), cti_globalIndexes = [0, 1, 2, 3, 4]\<rparr>],
       spentKeyImages = {},
       blockInfos =
         [\<lparr>cbi_blockHash = [3], cbi_timestamp = 10, cbi_cumulativeDifficulty = 1, cbi_alreadyGeneratedCoins = 500,
            cbi_alreadyGeneratedTransactions = 1, cbi_blockSize = 100\<rparr>],
       keyOutputsGlobalIndexes =
         [100 \<mapsto> \<lparr>ogi_startIndex = 0, ogi_outputs =
            map (\<lambda>j. \<lparr>poi_blockIndex = 0, poi_transactionIndex = 0, poi_outputIndex = j\<rparr>) [0, 1, 2, 3, 4]\<rparr>],
       paymentIds = [], storage = [\<lparr>raw_block = [1], raw_transactions = []\<rparr>]\<rparr>"

definition sample_base :: Transaction where
  "sample_base = \<lparr>version = 1, unlockTime = 21, inputs = [BaseInput 1],
     outputs = [\<lparr>out_amount = 37252942, target = KeyOutput [11]\<rparr>], extra = [], signatures = []\<rparr>"

definition next_block :: BlockTemplate where
  "next_block = \<lparr>majorVersion = 1, minorVersion = 0, nonce = 0, timestamp = 30, previousBlockHash = [3],
     parentBlock = empty_ParentBlock, baseTransaction = sample_base, transactionHashes = [[42]]\<rparr>"

definition sample_raw :: RawBlock where
  "sample_raw = \<lparr>raw_block = [2], raw_transactions = [ring_tx_bytes]\<rparr>"

lemma sample_root_ok: "chain_ok [sample_root]"
  by (auto simp: chain_ok_def segment_ok_def sample_root_def entry_ok_def in_segment_def seg_outputs_def tx_place_def out_place_def
      split: if_splits)

lemma sample_checked:
  obtains v where "check_block sample_env sample_currency [] [0] [sample_root] next_block [42] sample_raw = Some (Inr v)"
    "map transaction (chk_transactions v) = [ring_tx]" "chk_emission v = 37252902" "chk_difficulty v = 1" "chk_previous v = 0"
proof -
  have "case check_block sample_env sample_currency [] [0] [sample_root] next_block [42] sample_raw of
      Some (Inr v) \<Rightarrow> map transaction (chk_transactions v) = [ring_tx] \<and> chk_emission v = 37252902 \<and> chk_difficulty v = 1 \<and> chk_previous v = 0
    | _ \<Rightarrow> False" by code_simp
  then show ?thesis using that by (auto split: option.splits sum.splits)
qed

text \<open>C3: The coins of a block that passes the checks of \<open>addBlock\<close> balance: the amount by which it increases the generated coins is the sum of all outputs of the block, with those of the miner, minus the sum of all inputs it spends.\<close>

theorem accepted_block_supply:
  assumes "check_block E c points g ch block h raw = Some (Inr v)"
    "\<bar>int (block_created block (chk_transactions v)) - int (consumed (chk_transactions v))\<bar> < 2 ^ 63"
  shows "chk_emission v = int (block_created block (chk_transactions v)) - int (consumed (chk_transactions v))"
proof -
  let ?d = "int (block_created block (chk_transactions v)) - int (consumed (chk_transactions v))"
  have "word_of_int (chk_emission v) = (word_of_int ?d :: u64)" using checked_emission(1) [OF assms(1)] by simp
  moreover have "sint (word_of_int ?d :: u64) = ?d" using assms(2) by (intro sint_word_of_int) linarith+
  moreover have "sint (word_of_int (chk_emission v) :: u64) = chk_emission v"
    using checked_emission(2) [OF assms(1)] by (intro sint_word_of_int) simp_all
  ultimately show ?thesis by simp
qed

theorem accepted_block_supply_witness:
  "\<exists>v. check_block sample_env sample_currency [] [0] [sample_root] next_block [42] sample_raw = Some (Inr v) \<and>
     chk_emission v = int (37252942 + 60) - int 100"
proof -
  obtain v where v: "check_block sample_env sample_currency [] [0] [sample_root] next_block [42] sample_raw = Some (Inr v)"
    "map transaction (chk_transactions v) = [ring_tx]" by (rule sample_checked)
  then obtain ct where "chk_transactions v = [ct]" "transaction ct = ring_tx" by auto
  then have "consumed (chk_transactions v) = 100" "block_created next_block (chk_transactions v) = 37252942 + 60"
    by (simp_all add: block_created_def ring_tx_def next_block_def sample_base_def)
  then show ?thesis using accepted_block_supply [OF v(1)] v(1) by simp
qed

text \<open>C4: A block that passes the checks on top of a well formed chain has the next index; its raw transactions decode to valid transactions that pass the checks against the chain; no key image occurs twice in the block and, outside the zone of the checkpoints, none was spent in the chain before.\<close>

theorem accepted_block_spends:
  assumes "chain_ok ch" "check_block E c points g ch block h raw = Some (Inr v)" "unat (chk_previous v) + 1 = chain_height ch"
  shows "getBlockIndex block = chk_previous v + 1 \<and>
    list_all2 (\<lambda>ba ct. fromBinaryArray read_Transaction ba = Inr (transaction ct)) (raw_transactions raw) (chk_transactions v) \<and>
    (\<forall>ct \<in> set (chk_transactions v).
       transaction_admitted (env_crypto E) points (cache_view c (env_time E) ch) (chk_previous v) (transaction ct)) \<and>
    distinct (all_images (chk_transactions v)) \<and> chk_state v = set (all_images (chk_transactions v)) \<and>
    (isInCheckpointZone points (getBlockIndex block) \<or> chk_state v \<inter> ski_keyImage ` chain_images ch = {})"
proof -
  let ?C = "env_crypto E" and ?cache = "cache_view c (env_time E) ch" and ?i = "chk_previous v" and ?cts = "chk_transactions v"
  from check_block_parts [OF assms(2)] obtain m fee where parts: "cache_getBlockIndex (hd ch) (previousBlockHash block) = Some ?i"
    "validateBlock ?C c (env_time E) block ch = Some (Inr m)"
    "validate_block_transactions ?C points ?cache ?i ?cts 0 {} = Some (Inr (fee, chk_state v))" by metis
  have i: "getBlockIndex block = ?i + 1" using validateBlock_Inr(1) [OF parts(2,1)] .
  have txs: "\<forall>ct \<in> set ?cts. transaction_admitted ?C points ?cache ?i (transaction ct)" "distinct (all_images ?cts)" "chk_state v = set (all_images ?cts)"
    using parts(3) block_transactions_iff [OF checked_transactions(2) [OF assms(2)]] by simp_all
  have "list_all2 (\<lambda>ba ct. fromBinaryArray read_Transaction ba = Inr (transaction ct)) (raw_transactions raw) ?cts"
    using checked_transactions(1) [OF assms(2)]
    by (rule list_all2_mono) (auto simp: CachedTransaction_read_def bind_e_def CachedTransaction_of_def split: sum.splits)
  moreover have "chk_state v \<inter> ski_keyImage ` chain_images ch = {}" if zone: "\<not> isInCheckpointZone points (getBlockIndex block)"
  proof (rule ccontr)
    assume "chk_state v \<inter> ski_keyImage ` chain_images ch \<noteq> {}"
    then obtain ct sp where sp: "ct \<in> set ?cts" "ski_keyImage sp \<in> set (key_images (transaction ct))" "sp \<in> chain_images ch"
      by (auto simp: txs(3) all_images_def)
    then obtain k where k: "k < length (inputs (transaction ct))" "keyImage (inputs (transaction ct) ! k) = ski_keyImage sp"
      by (auto simp: in_set_conv_nth)
    have "ski_blockIndex sp \<le> ?i" using chain_images_bound [of ch sp] sp(3) assms(1,3) by (simp add: chain_ok_def word_le_nat_alt)
    then have "cache_checkIfSpent ch (ski_keyImage sp) ?i = Some True"
      using checkIfSpent_flat [of ch "ski_keyImage sp" ?i] assms(1) sp(3) by (auto simp: chain_ok_def spent_upto_def)
    moreover have "input_verified ?C ?cache ?i (transaction ct) k (inputs (transaction ct) ! k)"
      using txs(1) sp(1) k(1) zone by (auto simp: transaction_admitted_def i)
    ultimately show False using k(2) by (simp add: input_verified_def cache_view_def)
  qed
  ultimately show ?thesis using i txs by blast
qed

theorem accepted_block_spends_witness:
  "\<exists>v. check_block sample_env sample_currency [] [0] [sample_root] next_block [42] sample_raw = Some (Inr v) \<and>
     chk_state v = {replicate 32 5} \<and> chk_state v \<inter> ski_keyImage ` chain_images [sample_root] = {}"
proof -
  obtain v where v: "check_block sample_env sample_currency [] [0] [sample_root] next_block [42] sample_raw = Some (Inr v)"
    "map transaction (chk_transactions v) = [ring_tx]" "chk_previous v = 0" by (rule sample_checked)
  then have "all_images (chk_transactions v) = [replicate 32 5]" by (auto simp: all_images_def ring_tx_def)
  moreover have "unat (chk_previous v) + 1 = chain_height [sample_root]" using v(3) by (simp add: sample_root_def)
  ultimately show ?thesis
    using accepted_block_spends [OF sample_root_ok v(1)] v(1) by (auto simp: isInCheckpointZone_def)
qed

end
