(* ===== verification/Add_Block.thy ===== *)
theory Add_Block
  imports Block_Validation
begin

text \<open>
  \<open>addBlock\<close> of \<^verbatim>\<open>src/mevacoin_core/core.cpp\<close>: a block that passes the checks is stored on the main chain, on an alternative
  chain that may become the main one, or on a new branch.  The messages to the observers are left out.  An exception,
  after which the state is not used, is \<open>None\<close>.
\<close>

section \<open>State\<close>

record Core =
  co_currency :: Currency
  co_checkpoints :: checkpoints
  co_genesisBlockHash :: bytes
  chainsStorage :: "node list"
  chainsLeaves :: "nat list"
  mainChainSet :: "nat set"
  mainChainStorage :: "RawBlock list"
  co_pool :: TransactionPoolCleanWrapper
  co_blockMedianSize :: u64

abbreviation main_leaf :: "Core \<Rightarrow> nat" where
  "main_leaf core \<equiv> hd (chainsLeaves core)"

text \<open>What the checks of transactions for the pool read.\<close>

definition core_view :: "environment \<Rightarrow> Core \<Rightarrow> Core_view option" where
  "core_view E core =
     do {
       ch \<leftarrow> chain_at (chainsStorage core) (main_leaf core);
       Some \<lparr>core_currency = co_currency core, core_checkpoints = co_checkpoints core,
              core_leaf = cache_view (co_currency core) (env_time E) ch, core_top = getTopBlockIndex (hd ch),
              blockMedianSize = co_blockMedianSize core\<rparr>
     }"

section \<open>Sizes and the pool\<close>

definition updateBlockMedianSize :: "Core \<Rightarrow> Core option" where
  "updateBlockMedianSize core =
     do {
       ch \<leftarrow> chain_at (chainsStorage core) (main_leaf core);
       let top = getTopBlockIndex (hd ch);
       let zone = blockGrantedFullRewardZoneByBlockVersion (co_currency core) (getBlockMajorVersionForHeight (co_currency core) (top + 1));
       lastBlockSizes \<leftarrow> getLastBlocksSizes ch (m_rewardBlocksWindow (co_currency core)) top False;
       Some (core\<lparr>co_blockMedianSize := max (medianValue lastBlockSizes) zone\<rparr>)
     }"

definition extractSpentOutputs :: "CachedTransaction \<Rightarrow> TransactionValidatorState" where
  "extractSpentOutputs ct = set (key_images (transaction ct))"

definition remove_transactions :: "(bytes \<Rightarrow> bytes) \<Rightarrow> bytes list \<Rightarrow> TransactionPoolCleanWrapper \<Rightarrow> TransactionPoolCleanWrapper" where
  "remove_transactions cn hs w = foldl (\<lambda>w h. snd (wrapper_remove cn h w)) w hs"

definition actualize_lite ::
  "crypto_ops \<Rightarrow> Core \<Rightarrow> TransactionValidatorState \<Rightarrow> bytes \<Rightarrow> TransactionPoolCleanWrapper \<Rightarrow> TransactionPoolCleanWrapper option" where
  "actualize_lite C core validatorState h w =
     do {
       tx \<leftarrow> getTransaction (cn_fast_hash C) h (transactionPool w);
       (ba, _) \<leftarrow> returned (getTransactionBinaryArray tx);
       Some (if hasIntersections validatorState (extractSpentOutputs tx) \<or>
                getMaximumTransactionAllowedSize (co_blockMedianSize core) (co_currency core) < of_nat (length ba)
             then snd (wrapper_remove (cn_fast_hash C) h w) else w)
     }"

definition actualizePoolTransactionsLite :: "environment \<Rightarrow> TransactionValidatorState \<Rightarrow> Core \<Rightarrow> Core option" where
  "actualizePoolTransactionsLite E validatorState core =
     map_option (\<lambda>w. core\<lparr>co_pool := w\<rparr>)
       (fold_option (actualize_lite (env_crypto E) core validatorState)
          (getTransactionHashes (cn_fast_hash (env_crypto E)) (transactionPool (co_pool core))) (co_pool core))"

definition actualize ::
  "environment \<Rightarrow> Core_view \<Rightarrow> bytes \<Rightarrow> TransactionPoolCleanWrapper \<Rightarrow> TransactionPoolCleanWrapper option" where
  "actualize E view h w =
     do {
       tx \<leftarrow> getTransaction (cn_fast_hash (env_crypto E)) h (transactionPool w);
       let w = snd (wrapper_remove (cn_fast_hash (env_crypto E)) h w);
       (_, w) \<leftarrow> addTransactionToPool (env_crypto E) view (env_time E) tx w;
       Some w
     }"

definition actualizePoolTransactions :: "environment \<Rightarrow> Core \<Rightarrow> Core option" where
  "actualizePoolTransactions E core =
     do {
       view \<leftarrow> core_view E core;
       w \<leftarrow> fold_option (actualize E view) (getTransactionHashes (cn_fast_hash (env_crypto E)) (transactionPool (co_pool core))) (co_pool core);
       Some (core\<lparr>co_pool := w\<rparr>)
     }"

definition add_raw_transaction ::
  "environment \<Rightarrow> Core_view \<Rightarrow> bytes \<Rightarrow> TransactionPoolCleanWrapper \<Rightarrow> TransactionPoolCleanWrapper option" where
  "add_raw_transaction E view ba w = map_option snd (addTransactionToPool_bytes (env_crypto E) view (env_time E) ba w)"

text \<open>The transactions of the segments that left the main chain go back to the pool, from the leaf downwards.\<close>

partial_function (option) copy_segments ::
  "environment \<Rightarrow> Core_view \<Rightarrow> Core \<Rightarrow> nat \<Rightarrow> TransactionPoolCleanWrapper \<Rightarrow> TransactionPoolCleanWrapper option" where
  "copy_segments E view core alt w =
     (if alt \<in> mainChainSet core then Some w
      else if length (chainsStorage core) \<le> alt then None
      else do {
        ch \<leftarrow> chain_at (chainsStorage core) alt;
        (raws, _) \<leftarrow> getRawTransactions (env_uninit E) ch (env_order E (cache_getTransactionHashes (hd ch))) ([], []);
        w \<leftarrow> fold_option (add_raw_transaction E view) raws w;
        case node_parent (chainsStorage core ! alt) of None \<Rightarrow> Some w | Some p \<Rightarrow> copy_segments E view core p w
      })"

declare copy_segments.simps [code]

definition copyTransactionsToPool :: "environment \<Rightarrow> nat \<Rightarrow> Core \<Rightarrow> Core option" where
  "copyTransactionsToPool E alt core =
     do {
       view \<leftarrow> core_view E core;
       w \<leftarrow> copy_segments E view core alt (co_pool core);
       Some (core\<lparr>co_pool := w\<rparr>)
     }"

text \<open>The blocks from an index on are replaced by those of the new chain.\<close>

definition switchMainChainStorage :: "u32 \<Rightarrow> chain \<Rightarrow> RawBlock list \<Rightarrow> RawBlock list option" where
  "switchMainChainStorage splitBlockIndex newChain st =
     (let blocksToPop = unat (of_nat (length st) - splitBlockIndex)
      in if length st < blocksToPop then None
         else do {
           blocks \<leftarrow> those (map (\<lambda>k. getBlockByIndex newChain (of_nat k)) [unat splitBlockIndex ..< unat (getTopBlockIndex (hd newChain)) + 1]);
           Some (take (length st - blocksToPop) st @ blocks)
         })"

section \<open>Storing a block\<close>

definition push_checked :: "environment \<Rightarrow> BlockTemplate \<Rightarrow> RawBlock \<Rightarrow> checked_block \<Rightarrow> node list \<Rightarrow> nat \<Rightarrow> node list option" where
  "push_checked E block rawBlock v =
     push_at (cn_fast_hash (env_crypto E)) block (chk_transactions v) (chk_state v) (chk_size v) (word_of_int (chk_emission v))
       (chk_difficulty v) rawBlock"

text \<open>The transactions of the new block leave the pool.\<close>

definition remove_used :: "environment \<Rightarrow> checked_block \<Rightarrow> Core \<Rightarrow> Core option" where
  "remove_used E v core =
     do {
       hs \<leftarrow> transaction_hashes (cn_fast_hash (env_crypto E)) (chk_transactions v);
       Some (core\<lparr>co_pool := remove_transactions (cn_fast_hash (env_crypto E)) hs (co_pool core)\<rparr>)
     }"

definition store_on_main :: "environment \<Rightarrow> BlockTemplate \<Rightarrow> RawBlock \<Rightarrow> checked_block \<Rightarrow> Core \<Rightarrow> (AddBlockErrorCode \<times> Core) option" where
  "store_on_main E block rawBlock v core =
     do {
       cs \<leftarrow> push_checked E block rawBlock v (chainsStorage core) (main_leaf core);
       core \<leftarrow> updateBlockMedianSize (core\<lparr>mainChainStorage := mainChainStorage core @ [rawBlock], chainsStorage := cs\<rparr>);
       core \<leftarrow> remove_used E v core;
       core \<leftarrow> actualizePoolTransactionsLite E (chk_state v) core;
       Some (ADDED_TO_MAIN, core)
     }"

definition switch_to :: "environment \<Rightarrow> checked_block \<Rightarrow> nat \<Rightarrow> Core \<Rightarrow> (AddBlockErrorCode \<times> Core) option" where
  "switch_to E v i core =
     do {
       let leaves = chainsLeaves core;
       let endpointIndex = length (takeWhile (\<lambda>j. j \<noteq> i) leaves);
       leaves \<leftarrow> (if endpointIndex < length leaves then Some (leaves[0 := leaves ! endpointIndex, endpointIndex := leaves ! 0]) else None);
       let core = core\<lparr>chainsLeaves := leaves\<rparr>;
       chainSet \<leftarrow> updateMainChainSet (chainsStorage core) leaves;
       core \<leftarrow> updateBlockMedianSize (core\<lparr>mainChainSet := chainSet\<rparr>);
       core \<leftarrow> remove_used E v core;
       core \<leftarrow> actualizePoolTransactions E core;
       core \<leftarrow> copyTransactionsToPool E (leaves ! endpointIndex) core;
       ch \<leftarrow> chain_at (chainsStorage core) (leaves ! 0);
       st \<leftarrow> switchMainChainStorage (startIndex (hd ch)) ch (mainChainStorage core);
       Some (ADDED_TO_ALTERNATIVE_AND_SWITCHED, core\<lparr>mainChainStorage := st\<rparr>)
     }"

definition store_on_alternative :: "environment \<Rightarrow> BlockTemplate \<Rightarrow> RawBlock \<Rightarrow> checked_block \<Rightarrow> nat \<Rightarrow> Core \<Rightarrow> (AddBlockErrorCode \<times> Core) option" where
  "store_on_alternative E block rawBlock v i core =
     do {
       cs \<leftarrow> push_checked E block rawBlock v (chainsStorage core) i;
       new \<leftarrow> getCurrentCumulativeDifficulty_top (node_cache (cs ! i));
       old \<leftarrow> getCurrentCumulativeDifficulty_top (node_cache (cs ! main_leaf core));
       let core = core\<lparr>chainsStorage := cs\<rparr>;
       if old < new then switch_to E v i core else Some (ADDED_TO_ALTERNATIVE, core)
     }"

text \<open>A new segment with the block, on top of the segment at \<open>i\<close>.\<close>

definition store_fork :: "environment \<Rightarrow> BlockTemplate \<Rightarrow> RawBlock \<Rightarrow> checked_block \<Rightarrow> nat \<Rightarrow> Core \<Rightarrow> Core option" where
  "store_fork E block rawBlock v i core =
     do {
       let n = length (chainsStorage core);
       cs \<leftarrow> push_checked E block rawBlock v (add_segment (chainsStorage core) i (chk_previous v + 1)) n;
       let leaves = chainsLeaves core @ [n];
       chainSet \<leftarrow> updateMainChainSet cs leaves;
       Some (core\<lparr>chainsStorage := cs, chainsLeaves := leaves, mainChainSet := chainSet\<rparr>)
     }"

definition split_tree :: "u32 \<Rightarrow> nat \<Rightarrow> Core \<Rightarrow> Core option" where
  "split_tree splitBlockIndex i core =
     do {
       let n = length (chainsStorage core);
       cs \<leftarrow> split_at (chainsStorage core) i splitBlockIndex;
       leaves \<leftarrow> (if node_children (cs ! n) = []
                   then let found = length (takeWhile (\<lambda>j. j \<noteq> i) (chainsLeaves core))
                        in if found < length (chainsLeaves core) then Some ((chainsLeaves core)[found := n]) else None
                   else Some (chainsLeaves core));
       Some (core\<lparr>chainsStorage := cs, chainsLeaves := leaves\<rparr>)
     }"

definition store_block :: "environment \<Rightarrow> BlockTemplate \<Rightarrow> RawBlock \<Rightarrow> checked_block \<Rightarrow> nat \<Rightarrow> Core \<Rightarrow> (AddBlockErrorCode \<times> Core) option" where
  "store_block E block rawBlock v i core =
     (if getTopBlockIndex (node_cache (chainsStorage core ! i)) = chk_previous v
      then if node_children (chainsStorage core ! i) = []
           then if i = main_leaf core then store_on_main E block rawBlock v core
                else store_on_alternative E block rawBlock v i core
           else do {
             core \<leftarrow> store_fork E block rawBlock v i core;
             core \<leftarrow> updateBlockMedianSize core;
             Some (ADDED_TO_ALTERNATIVE, core)
           }
      else do {
        core \<leftarrow> split_tree (chk_previous v + 1) i core;
        core \<leftarrow> store_fork E block rawBlock v i core;
        Some (ADDED_TO_ALTERNATIVE, core)
      })"

section \<open>Entry points\<close>

definition core_hasBlock :: "bytes \<Rightarrow> Core \<Rightarrow> bool option" where
  "core_hasBlock blockHash core =
     map_option (\<lambda>found. found \<noteq> None) (findSegmentContainingBlock (chainsStorage core) (chainsLeaves core) blockHash)"

definition addBlock :: "environment \<Rightarrow> BlockTemplate \<Rightarrow> RawBlock \<Rightarrow> Core \<Rightarrow> (error_code \<times> Core) option" where
  "addBlock E block rawBlock core =
     do {
       blockHash \<leftarrow> returned (getBlockHash (cn_fast_hash (env_crypto E)) block);
       exists \<leftarrow> core_hasBlock blockHash core;
       if exists then Some (Add_code ALREADY_EXISTS, core)
       else do {
         cache \<leftarrow> findSegmentContainingBlock (chainsStorage core) (chainsLeaves core) (previousBlockHash block);
         case cache of
           None \<Rightarrow> Some (Add_code REJECTED_AS_ORPHANED, core)
         | Some i \<Rightarrow> do {
             ch \<leftarrow> chain_at (chainsStorage core) i;
             checked \<leftarrow> check_block E (co_currency core) (co_checkpoints core) (co_genesisBlockHash core) ch block blockHash rawBlock;
             case checked of
               Inl e \<Rightarrow> Some (e, core)
             | Inr v \<Rightarrow> map_option (\<lambda>(ret, core). (Add_code ret, core)) (store_block E block rawBlock v i core)
           }
       }
     }"

definition addBlock_raw :: "environment \<Rightarrow> RawBlock \<Rightarrow> Core \<Rightarrow> (error_code \<times> Core) option" where
  "addBlock_raw E rawBlock core =
     (case fromBinaryArray (read_BlockTemplate (env_uninit E)) (raw_block rawBlock) of
        Inl _ \<Rightarrow> Some (Add_code DESERIALIZATION_FAILED, core)
      | Inr block \<Rightarrow> addBlock E block rawBlock core)"

fun collect_from_pool :: "(bytes \<Rightarrow> bytes) \<Rightarrow> TransactionPool \<Rightarrow> bytes list \<Rightarrow> (error_code + bytes list) option" where
  "collect_from_pool cn pool [] = Some (Inr [])"
| "collect_from_pool cn pool (h # hs) =
     (if \<not> checkIfTransactionPresent cn h pool then Some (Inl (Block_code TRANSACTION_ABSENT_IN_POOL))
      else do {
        tx \<leftarrow> getTransaction cn h pool;
        (ba, _) \<leftarrow> returned (getTransactionBinaryArray tx);
        and_then (collect_from_pool cn pool hs) (\<lambda>bas. Some (Inr (ba # bas)))
      })"

definition submitBlock :: "environment \<Rightarrow> bytes \<Rightarrow> Core \<Rightarrow> (error_code \<times> Core) option" where
  "submitBlock E rawBlockTemplate core =
     (case fromBinaryArray (read_BlockTemplate (env_uninit E)) rawBlockTemplate of
        Inl _ \<Rightarrow> Some (Add_code DESERIALIZATION_FAILED, core)
      | Inr block \<Rightarrow> do {
          collected \<leftarrow> collect_from_pool (cn_fast_hash (env_crypto E)) (transactionPool (co_pool core)) (transactionHashes block);
          case collected of
            Inl e \<Rightarrow> Some (e, core)
          | Inr bas \<Rightarrow> addBlock E block \<lparr>raw_block = rawBlockTemplate, raw_transactions = bas\<rparr> core
        })"

section \<open>Runs\<close>

text \<open>The first segment; \<open>rootCache\<close> is the one that the factory of segments returns for the currency.\<close>

definition initRootSegment :: "BlockchainCache \<Rightarrow> Core \<Rightarrow> Core option" where
  "initRootSegment rootCache core =
     (let n = length (chainsStorage core)
      in updateBlockMedianSize (core\<lparr>mainChainSet := insert n (mainChainSet core), chainsLeaves := chainsLeaves core @ [n],
           chainsStorage := chainsStorage core @ [\<lparr>node_cache = rootCache, node_parent = None, node_children = []\<rparr>]\<rparr>))"

text \<open>The totals and the heights leave room for one more block everywhere.\<close>

definition room :: "Core \<Rightarrow> bool" where
  "room core \<longleftrightarrow> (\<forall>i < length (chainsStorage core). \<forall>ch. chain_at (chainsStorage core) i = Some ch \<longrightarrow>
     chain_height ch + 1 < 2 ^ 32 \<and>
     (\<forall>k d. 0 < k \<longrightarrow> k \<le> chain_height ch \<longrightarrow> next_work (co_currency core) (take k (chain_blocks ch)) = Some d \<longrightarrow>
        unat (cbi_cumulativeDifficulty (chain_blocks ch ! (k - 1))) + unat d < 2 ^ 64))"

text \<open>A node gets blocks from the network or from a miner, gets transactions, and cleans its pool, in any order.\<close>

inductive core_step :: "'j json_library \<Rightarrow> Core \<Rightarrow> Core \<Rightarrow> bool" for J :: "'j json_library" where
  add_block: "addBlock E block rawBlock core = Some (r, core') \<Longrightarrow> core_step J core core'"
| add_raw_block: "addBlock_raw E rawBlock core = Some (r, core') \<Longrightarrow> core_step J core core'"
| submit_block: "submitBlock E rawBlockTemplate core = Some (r, core') \<Longrightarrow> core_step J core core'"
| add_transaction:
    "core_view E core = Some view \<Longrightarrow>
     addTransactionToPool_bytes (env_crypto E) view (env_time E) ba (co_pool core) = Some (ok, w) \<Longrightarrow>
     core_step J core (core\<lparr>co_pool := w\<rparr>)"
| clean_pool:
    "clean (cn_fast_hash (env_crypto (E :: environment))) J (env_time E) (getTopBlockIndex (node_cache (chainsStorage core ! main_leaf core))) (co_pool core) =
       Some (deleted, w) \<Longrightarrow>
     core_step J core (core\<lparr>co_pool := w\<rparr>)"

text \<open>The states after any number of steps, as long as the totals and the heights fit into their words.\<close>

inductive core_run :: "'j json_library \<Rightarrow> Core \<Rightarrow> Core \<Rightarrow> bool" for J :: "'j json_library" and core0 :: Core where
  start: "core_run J core0 core0"
| step: "core_run J core0 core \<Longrightarrow> room core \<Longrightarrow> core_step J core core' \<Longrightarrow> core_run J core0 core'"

section \<open>The parts of adding a block\<close>

lemma pushTransaction_keeps:
  assumes "cache_pushTransaction cn ps ct index ti s = Some s'"
  shows "blockInfos s' = blockInfos s \<and> startIndex s' = startIndex s \<and> storage s' = storage s"
  using assms by (auto simp: cache_pushTransaction_def Let_def split: Option.bind_splits prod.splits option.splits)

lemma push_transactions_keeps:
  assumes "push_transactions cn ps index ti cts s = Some s'"
  shows "blockInfos s' = blockInfos s \<and> startIndex s' = startIndex s \<and> storage s' = storage s"
  using assms
proof (induction cts arbitrary: ti s)
  case (Cons ct cts)
  then obtain s1 where "cache_pushTransaction cn ps ct index (of_nat ti) s = Some s1" "push_transactions cn ps index (ti + 1) cts s1 = Some s'"
    by (auto split: Option.bind_splits)
  then show ?case using Cons.IH pushTransaction_keeps by metis
qed simp

lemma doPushBlock_blocks:
  assumes "doPushBlock cn block cts kis sz coins difficulty raw (s # ps) = Some ch'" "getBlockHash cn block = Inr h" "\<not> hasBlock s h"
    and "linked (s # ps)" "chain_height (s # ps) < 2 ^ 32" "unat (getBlockIndex block) = chain_height (s # ps)"
  shows "\<exists>s'. ch' = s' # ps \<and> startIndex s' = startIndex s \<and> storage s' = storage s @ [raw] \<and>
    blockInfos s' = blockInfos s @ [new_info h block cts sz coins difficulty (s # ps)]"
proof -
  let ?s = "s\<lparr>blockInfos := blockInfos s @ [new_info h block cts sz coins difficulty (s # ps)],
    spentKeyImages := addSpentKeyImages kis (getBlockIndex block) (spentKeyImages s)\<rparr>"
  have "previous_totals (s # ps) (getBlockIndex block) = Some (chain_total cbi_cumulativeDifficulty (s # ps),
      chain_total cbi_alreadyGeneratedCoins (s # ps), chain_total cbi_alreadyGeneratedTransactions (s # ps))"
    using previous_totals_linked [OF _ assms(4-6)] by simp
  then obtain s1 where s1: "push_transactions cn ps (getBlockIndex block) 0 (CachedTransaction_of (baseTransaction block) # cts) ?s = Some s1"
    and ch': "ch' = s1\<lparr>storage := storage s1 @ [raw]\<rparr> # ps"
    using assms(1-3) by (auto simp: doPushBlock_def returned_def Let_def new_info_def simp del: push_transactions.simps split: Option.bind_splits)
  show ?thesis using push_transactions_keeps [OF s1] ch' by simp
qed

lemma push_at_leaf:
  assumes "push_at cn block cts kis sz coins difficulty raw cs i = Some cs'" "is_path cs (i # p)"
    and "getBlockHash cn block = Inr h" "\<not> hasBlock (node_cache (cs ! i)) h"
    and "linked (chain_of cs (i # p))" "chain_height (chain_of cs (i # p)) < 2 ^ 32" "unat (getBlockIndex block) = chain_height (chain_of cs (i # p))"
  obtains s' where "cs' = set_cache cs i s'" "startIndex s' = startIndex (node_cache (cs ! i))"
    "storage s' = storage (node_cache (cs ! i)) @ [raw]"
    "blockInfos s' = blockInfos (node_cache (cs ! i)) @ [new_info h block cts sz coins difficulty (chain_of cs (i # p))]"
proof -
  have "chain_at cs i = Some (chain_of cs (i # p))" using path_ancestors [OF assms(2)] by (simp add: chain_at_def)
  then obtain ch' where "doPushBlock cn block cts kis sz coins difficulty raw (chain_of cs (i # p)) = Some ch'" "cs' = set_cache cs i (hd ch')"
    using assms(1) by (auto simp: push_at_def split: Option.bind_splits)
  moreover from this obtain s' where "ch' = s' # chain_of cs p" "startIndex s' = startIndex (node_cache (cs ! i))"
    "storage s' = storage (node_cache (cs ! i)) @ [raw]"
    "blockInfos s' = blockInfos (node_cache (cs ! i)) @ [new_info h block cts sz coins difficulty (chain_of cs (i # p))]"
    using doPushBlock_blocks [of cn block cts kis sz coins difficulty raw "node_cache (cs ! i)" "chain_of cs p" ch' h] assms(3-7) by auto
  ultimately show ?thesis by (intro that [of s']) simp_all
qed

text \<open>The searches.\<close>

lemma find_SomeD: "find P xs = Some x \<Longrightarrow> P x \<and> x \<in> set xs"
  by (induction xs) (auto split: if_splits)

lemma find_from_leaves_Some:
  "find_from_leaves f leaves = Some (Some j) \<Longrightarrow> \<exists>i \<in> set leaves. f i = Some (Some j)"
  by (induction leaves) (auto split: Option.bind_splits option.splits)

lemma find_from_leaves_None:
  "find_from_leaves f leaves = Some None \<Longrightarrow> i \<in> set leaves \<Longrightarrow> f i = Some None"
  by (induction leaves) (auto split: Option.bind_splits option.splits)

lemma findSegment_Some:
  assumes "findSegmentContainingBlock cs leaves h = Some (Some i)" "leaves \<noteq> []"
  shows "\<exists>l \<in> set leaves. findIndexInChain cs h l = Some (Some i)"
proof -
  have "findIndexInChain cs h (hd leaves) = Some (Some i) \<or> find_from_leaves (findIndexInChain cs h) (tl leaves) = Some (Some i)"
    using assms(1) by (auto simp: findSegmentContainingBlock_def findMainChainSegmentContainingBlock_def
        findAlternativeSegmentContainingBlock_def split: Option.bind_splits option.splits)
  then show ?thesis using assms(2) find_from_leaves_Some [of "findIndexInChain cs h" "tl leaves" i] by (cases leaves) auto
qed

lemma findSegment_None:
  assumes "findSegmentContainingBlock cs leaves h = Some None" "l \<in> set leaves"
  shows "findIndexInChain cs h l = Some None"
proof -
  have "findIndexInChain cs h (hd leaves) = Some None" "find_from_leaves (findIndexInChain cs h) (tl leaves) = Some None"
    using assms(1) by (auto simp: findSegmentContainingBlock_def findMainChainSegmentContainingBlock_def
        findAlternativeSegmentContainingBlock_def split: Option.bind_splits option.splits)
  then show ?thesis using assms(2) find_from_leaves_None [of "findIndexInChain cs h" "tl leaves" l] by (cases leaves) auto
qed

text \<open>A segment that was found, while another hash was not: it has the first block and not the second.\<close>

lemma found_segment:
  assumes "tree_ok cs leaves" "findSegmentContainingBlock cs leaves prev = Some (Some i)" "findSegmentContainingBlock cs leaves h = Some None"
  shows "i < length cs" "hasBlock (node_cache (cs ! i)) prev" "\<not> hasBlock (node_cache (cs ! i)) h"
proof -
  obtain l where l: "l \<in> set leaves" "findIndexInChain cs prev l = Some (Some i)"
    using findSegment_Some [OF assms(2)] tree_leaves [OF assms(1)] by blast
  then obtain p where p: "is_path cs (l # p)" using tree_path [OF assms(1)] tree_leaf [OF assms(1)] by blast
  have "find (\<lambda>j. hasBlock (node_cache (cs ! j)) prev) (l # p) = Some i" using l(2) findIndexInChain_path [OF p, of prev] by simp
  from find_SomeD [OF this] have i: "i \<in> set (l # p)" "hasBlock (node_cache (cs ! i)) prev" by simp_all
  then show "i < length cs" "hasBlock (node_cache (cs ! i)) prev" using is_path_bound [OF p] by blast+
  have "find (\<lambda>j. hasBlock (node_cache (cs ! j)) h) (l # p) = None"
    using findSegment_None [OF assms(3) l(1)] findIndexInChain_path [OF p, of h] by simp
  then show "\<not> hasBlock (node_cache (cs ! i)) h" using i(1) unfolding find_None_iff by blast
qed

text \<open>The index of a block in its segment.\<close>

lemma takeWhile_shorter: "x \<in> set xs \<Longrightarrow> \<not> P x \<Longrightarrow> length (takeWhile P xs) < length xs"
  by (induction xs) auto

lemma block_index_bounds:
  assumes "cache_getBlockIndex s h = Some index" "linked (s # ps)" "chain_height (s # ps) < 2 ^ 32"
  shows "chain_height ps \<le> unat index" "unat index < chain_height (s # ps)"
proof -
  let ?k = "length (takeWhile (\<lambda>b. cbi_blockHash b \<noteq> h) (blockInfos s))"
  have k: "?k < length (blockInfos s)" "index = of_nat ?k + startIndex s"
    using assms(1) takeWhile_shorter [of _ "blockInfos s" "\<lambda>b. cbi_blockHash b \<noteq> h"]
    by (auto simp: cache_getBlockIndex_def hasBlock_def list_ex_iff split: if_splits)
  have start: "unat (startIndex s) = chain_height ps" using assms(2) by simp
  have "unat (of_nat ?k :: u32) = ?k" using k(1) assms(3) by (simp add: unat_of_nat take_bit_nat_eq_self)
  then have "unat index = ?k + chain_height ps"
    unfolding k(2) using k(1) assms(3) start by (subst unat_add_no_overflow) simp_all
  then show "chain_height ps \<le> unat index" "unat index < chain_height (s # ps)" using k(1) by simp_all
qed

section \<open>The invariant\<close>

text \<open>
  The tree is well formed, the total difficulties are those of the rules, the main chain has the greatest one, and
  \<open>mainChainSet\<close> holds the segments of the main chain.
\<close>

definition core_inv :: "Core \<Rightarrow> bool" where
  "core_inv core \<longleftrightarrow> chains_inv (co_currency core) (chainsStorage core) (chainsLeaves core) \<and>
     heaviest (chainsStorage core) (chainsLeaves core) \<and>
     updateMainChainSet (chainsStorage core) (chainsLeaves core) = Some (mainChainSet core)"

definition same_chains :: "Core \<Rightarrow> Core \<Rightarrow> bool" where
  "same_chains core core' \<longleftrightarrow> co_currency core' = co_currency core \<and> chainsStorage core' = chainsStorage core \<and>
     chainsLeaves core' = chainsLeaves core \<and> mainChainSet core' = mainChainSet core \<and> mainChainStorage core' = mainChainStorage core"

lemma same_chains_trans: "same_chains a b \<Longrightarrow> same_chains b c \<Longrightarrow> same_chains a c"
  by (simp add: same_chains_def)

lemma pool_parts_keep:
  "updateBlockMedianSize core = Some core' \<Longrightarrow> same_chains core core'"
  "remove_used E v core = Some core' \<Longrightarrow> same_chains core core'"
  "actualizePoolTransactionsLite E st core = Some core' \<Longrightarrow> same_chains core core'"
  "actualizePoolTransactions E core = Some core' \<Longrightarrow> same_chains core core'"
  "copyTransactionsToPool E alt core = Some core' \<Longrightarrow> same_chains core core'"
  by (auto simp: same_chains_def updateBlockMedianSize_def remove_used_def actualizePoolTransactionsLite_def
      actualizePoolTransactions_def copyTransactionsToPool_def Let_def split: Option.bind_splits)

text \<open>The block list of the main chain in the storage on disk.\<close>

definition storage_follows :: "Core \<Rightarrow> bool" where
  "storage_follows core \<longleftrightarrow> map_option chain_storage (chain_at (chainsStorage core) (main_leaf core)) = Some (mainChainStorage core)"

text \<open>The blocks of the main chain and the total difficulty at its top.\<close>

definition main_blocks :: "Core \<Rightarrow> CachedBlockInfo list option" where
  "main_blocks core = map_option chain_blocks (chain_at (chainsStorage core) (main_leaf core))"

definition main_work :: "Core \<Rightarrow> u64" where
  "main_work core = top_work (chainsStorage core) (main_leaf core)"

lemma same_chains_inv:
  assumes "same_chains core core'"
  shows "core_inv core' = core_inv core" "storage_follows core' = storage_follows core" "co_currency core' = co_currency core"
    "main_blocks core' = main_blocks core" "main_work core' = main_work core"
  using assms by (simp_all add: same_chains_def core_inv_def storage_follows_def main_blocks_def main_work_def)

lemma core_inv_parts:
  assumes "core_inv core"
  shows "tree_ok (chainsStorage core) (chainsLeaves core)" "heaviest (chainsStorage core) (chainsLeaves core)"
    "main_leaf core \<in> set (chainsLeaves core)" "main_leaf core < length (chainsStorage core)"
    "is_path (chainsStorage core) (j # q) \<Longrightarrow> chain_inv (co_currency core) (chain_of (chainsStorage core) (j # q))"
proof -
  show tree: "tree_ok (chainsStorage core) (chainsLeaves core)" and "heaviest (chainsStorage core) (chainsLeaves core)"
    using assms by (simp_all add: core_inv_def chains_inv_def)
  show "main_leaf core \<in> set (chainsLeaves core)" using tree_leaves [OF tree] by simp
  then show "main_leaf core < length (chainsStorage core)" using tree_leaf [OF tree] by blast
  show "chain_inv (co_currency core) (chain_of (chainsStorage core) (j # q))" if "is_path (chainsStorage core) (j # q)"
    using assms that is_path_bound [OF that, of j] by (simp add: core_inv_def chains_inv_def)
qed

text \<open>A chain on which the block with the given difficulty is the next one.\<close>

definition ready :: "Currency \<Rightarrow> chain \<Rightarrow> BlockTemplate \<Rightarrow> u64 \<Rightarrow> bool" where
  "ready c ch block d \<longleftrightarrow> unat (getBlockIndex block) = chain_height ch \<and> chain_height ch + 1 < 2 ^ 32 \<and>
     next_work c (chain_blocks ch) = Some d \<and> unat (cbi_cumulativeDifficulty (last (chain_blocks ch))) + unat d < 2 ^ 64"

lemma ready_adds:
  assumes "ready c ch block d" "chain_blocks ch \<noteq> []"
  shows "adds_work c (chain_blocks ch) (new_info h block cts sz coins d ch)"
  using assms by (simp add: ready_def adds_work_def new_info_def chain_total_def unat_add_no_overflow)

lemma push_ready:
  assumes inv: "core_inv core" and cs: "cs = chainsStorage core" and i: "i \<in> set (chainsLeaves core)" "is_path cs (i # p)"
    and ready: "ready (co_currency core) (chain_of cs (i # p)) block (chk_difficulty v)"
    and hash: "getBlockHash (cn_fast_hash (env_crypto E)) block = Inr h" "\<not> hasBlock (node_cache (cs ! i)) h"
    and push: "push_checked E block rawBlock v cs i = Some cs'"
  shows "chains_inv (co_currency core) cs' (chainsLeaves core)" "is_path cs' q = is_path cs q" "length cs' = length cs"
    "top_work cs i \<le> top_work cs' i" "j < length cs \<Longrightarrow> j \<noteq> i \<Longrightarrow> node_cache (cs' ! j) = node_cache (cs ! j)"
    "chain_storage (chain_of cs' (i # p)) = chain_storage (chain_of cs (i # p)) @ [rawBlock]"
    "startIndex (node_cache (cs' ! i)) = startIndex (node_cache (cs ! i))" "chk_difficulty v \<noteq> 0 \<Longrightarrow> top_work cs i < top_work cs' i"
proof -
  have ci: "chain_inv (co_currency core) (chain_of cs (i # p))" using core_inv_parts(5) [OF inv] i(2) cs by simp
  then have linked: "linked (chain_of cs (i # p))" "chain_height (chain_of cs (i # p)) < 2 ^ 32" by (simp_all add: chain_inv_def)
  have idx: "unat (getBlockIndex block) = chain_height (chain_of cs (i # p))" "chain_height (chain_of cs (i # p)) + 1 < 2 ^ 32"
    using ready by (simp_all add: ready_def)
  obtain s' where s': "cs' = set_cache cs i s'" "startIndex s' = startIndex (node_cache (cs ! i))" "storage s' = storage (node_cache (cs ! i)) @ [rawBlock]"
    "blockInfos s' = blockInfos (node_cache (cs ! i)) @ [new_info h block (chk_transactions v) (chk_size v) (word_of_int (chk_emission v)) (chk_difficulty v) (chain_of cs (i # p))]"
    by (rule push_at_leaf [OF push [unfolded push_checked_def] i(2) hash linked idx(1)])
  have "chain_blocks (chain_of cs (i # p)) \<noteq> []" using ci by (simp add: chain_inv_def)
  note add = ready_adds [OF ready this]
  have "chains_inv (co_currency core) cs (chainsLeaves core)" using inv by (simp add: core_inv_def cs)
  note leaf = push_leaf_inv [OF this i s'(2,4,3) add idx(2)]
  show "chains_inv (co_currency core) cs' (chainsLeaves core)" using leaf(1) by (simp add: s'(1))
  show "is_path cs' q = is_path cs q" "length cs' = length cs" by (simp_all add: s'(1))
  show "top_work cs i \<le> top_work cs' i" using leaf(2,3) by (simp add: s'(1))
  have il: "i < length cs" using is_path_bound [OF i(2), of i] by simp
  show "j < length cs \<Longrightarrow> j \<noteq> i \<Longrightarrow> node_cache (cs' ! j) = node_cache (cs ! j)" by (simp add: s'(1) set_cache_nth)
  have "i \<notin> set p" using path_distinct [OF i(2)] by simp
  then have "chain_of cs' p = chain_of cs p" using is_path_bound [OF i(2)] by (intro chain_of_cong) (auto simp: s'(1) set_cache_nth)
  then show "chain_storage (chain_of cs' (i # p)) = chain_storage (chain_of cs (i # p)) @ [rawBlock]"
    using il s'(3) by (simp add: s'(1) set_cache_nth)
  show "startIndex (node_cache (cs' ! i)) = startIndex (node_cache (cs ! i))" using il s'(2) by (simp add: s'(1) set_cache_nth)
  show "top_work cs i < top_work cs' i" if "chk_difficulty v \<noteq> 0"
    using add ready that il s'(4) ci
    by (simp add: adds_work_def ready_def chain_inv_def top_work_def s'(1) set_cache_nth word_less_nat_alt unat_gt_0)
qed

section \<open>Storing a block keeps the invariant\<close>

lemma updateMainChainSet_path: "is_path cs (hd leaves # p) \<Longrightarrow> updateMainChainSet cs leaves = Some (set (hd leaves # p))"
  using path_ancestors [of cs "hd leaves # p"] by (simp add: updateMainChainSet_def)

lemma store_on_main_inv:
  assumes inv: "core_inv core" and p: "is_path (chainsStorage core) (main_leaf core # p)"
    and ready: "ready (co_currency core) (chain_of (chainsStorage core) (main_leaf core # p)) block (chk_difficulty v)"
    and hash: "getBlockHash (cn_fast_hash (env_crypto E)) block = Inr h" "\<not> hasBlock (node_cache (chainsStorage core ! main_leaf core)) h"
    and store: "store_on_main E block rawBlock v core = Some (r, core')"
  shows "core_inv core'" "storage_follows core \<Longrightarrow> storage_follows core'" "chk_difficulty v \<noteq> 0 \<Longrightarrow> main_work core < main_work core'"
proof -
  let ?m = "main_leaf core" and ?cs = "chainsStorage core"
  obtain cs' core1 core2 core3 where push: "push_checked E block rawBlock v ?cs ?m = Some cs'"
    and core1: "core1 = core\<lparr>mainChainStorage := mainChainStorage core @ [rawBlock], chainsStorage := cs'\<rparr>"
    and steps: "updateBlockMedianSize core1 = Some core2" "remove_used E v core2 = Some core3" "actualizePoolTransactionsLite E (chk_state v) core3 = Some core'"
    using store unfolding store_on_main_def by (auto split: Option.bind_splits)
  have same: "same_chains core1 core'"
    using pool_parts_keep(1) [OF steps(1)] pool_parts_keep(2) [OF steps(2)] pool_parts_keep(3) [OF steps(3)] same_chains_trans by blast
  note pr = push_ready [OF inv refl core_inv_parts(3) [OF inv] p ready hash push]
  have w: "top_work cs' j \<le> top_work cs' ?m" if j: "j < length ?cs" for j
  proof (cases "j = ?m")
    case False
    then have "top_work cs' j = top_work ?cs j" using pr(5) [OF j] by (simp add: top_work_def)
    also have "\<dots> \<le> top_work ?cs ?m" using core_inv_parts(2) [OF inv] j by (simp add: heaviest_def)
    finally show ?thesis using pr(4) by simp
  qed simp
  have p': "is_path cs' (?m # p)" using p pr(2) by simp
  have "core_inv core1"
    using inv pr(1,3) w updateMainChainSet_path [OF p] updateMainChainSet_path [OF p'] by (simp add: core_inv_def core1 heaviest_def)
  then show "core_inv core'" using same_chains_inv(1) [OF same] by simp
  show "chk_difficulty v \<noteq> 0 \<Longrightarrow> main_work core < main_work core'" using pr(8) same_chains_inv(5) [OF same] by (simp add: main_work_def core1)
  show "storage_follows core'" if "storage_follows core"
  proof -
    have "storage_follows core1"
      using that path_chain_at [OF p] path_chain_at [OF p'] pr(6) by (simp add: storage_follows_def core1)
    then show ?thesis using same_chains_inv(2) [OF same] by simp
  qed
qed

lemma swap_leaves:
  assumes "distinct leaves" "i \<in> set leaves" "e = length (takeWhile (\<lambda>j. j \<noteq> i) leaves)"
  shows "e < length leaves" "leaves ! e = i" "set (leaves[0 := leaves ! e, e := leaves ! 0]) = set leaves"
    "distinct (leaves[0 := leaves ! e, e := leaves ! 0])" "hd (leaves[0 := leaves ! e, e := leaves ! 0]) = i"
proof -
  show e: "e < length leaves" using assms(2,3) takeWhile_shorter [of i leaves "\<lambda>j. j \<noteq> i"] by simp
  then show i: "leaves ! e = i" using nth_length_takeWhile [of "\<lambda>j. j \<noteq> i" leaves] assms(3) by simp
  have "mset (leaves[0 := leaves ! e, e := leaves ! 0]) = mset leaves" by (rule mset_swap) (use e in auto)
  from mset_eq_setD [OF this] mset_eq_imp_distinct_iff [OF this]
  show "set (leaves[0 := leaves ! e, e := leaves ! 0]) = set leaves" "distinct (leaves[0 := leaves ! e, e := leaves ! 0])"
    using assms(1) by simp_all
  show "hd (leaves[0 := leaves ! e, e := leaves ! 0]) = i" using e i by (cases leaves; cases e) simp_all
qed

lemma tree_ok_leaves:
  assumes "tree_ok cs leaves" "set leaves' = set leaves" "distinct leaves'"
  shows "tree_ok cs leaves'"
proof -
  have "set leaves \<noteq> {}" using tree_leaves [OF assms(1)] by simp
  then have "leaves' \<noteq> []" using assms(2) by auto
  then show ?thesis using assms unfolding tree_ok_def leaves_ok_def by simp
qed

lemma switch_to_parts:
  assumes "switch_to E v i core = Some (r, core')"
  obtains e leaves st core1 ch where "e = length (takeWhile (\<lambda>j. j \<noteq> i) (chainsLeaves core))" "e < length (chainsLeaves core)"
    "leaves = (chainsLeaves core)[0 := chainsLeaves core ! e, e := chainsLeaves core ! 0]"
    "updateMainChainSet (chainsStorage core) leaves = Some (mainChainSet core1)" "chainsStorage core1 = chainsStorage core"
    "chainsLeaves core1 = leaves" "co_currency core1 = co_currency core" "mainChainStorage core1 = mainChainStorage core"
    "chain_at (chainsStorage core) (leaves ! 0) = Some ch" "switchMainChainStorage (startIndex (hd ch)) ch (mainChainStorage core) = Some st"
    "core' = core1\<lparr>mainChainStorage := st\<rparr>" "r = ADDED_TO_ALTERNATIVE_AND_SWITCHED"
proof -
  define e where "e = length (takeWhile (\<lambda>j. j \<noteq> i) (chainsLeaves core))"
  define leaves where "leaves = (chainsLeaves core)[0 := chainsLeaves core ! e, e := chainsLeaves core ! 0]"
  obtain s a1 a2 a3 a4 ch st where steps: "e < length (chainsLeaves core)" "updateMainChainSet (chainsStorage core) leaves = Some s"
    "updateBlockMedianSize (core\<lparr>chainsLeaves := leaves, mainChainSet := s\<rparr>) = Some a1" "remove_used E v a1 = Some a2"
    "actualizePoolTransactions E a2 = Some a3" "copyTransactionsToPool E (leaves ! e) a3 = Some a4"
    "chain_at (chainsStorage a4) (leaves ! 0) = Some ch" "switchMainChainStorage (startIndex (hd ch)) ch (mainChainStorage a4) = Some st"
    "core' = a4\<lparr>mainChainStorage := st\<rparr>" "r = ADDED_TO_ALTERNATIVE_AND_SWITCHED"
    using assms unfolding switch_to_def Let_def e_def [symmetric] leaves_def [symmetric] bind_eq_Some_conv
    by (elim exE conjE) (simp split: if_split_asm)
  have "same_chains (core\<lparr>chainsLeaves := leaves, mainChainSet := s\<rparr>) a4"
    using pool_parts_keep(1) [OF steps(3)] pool_parts_keep(2) [OF steps(4)] pool_parts_keep(4) [OF steps(5)] pool_parts_keep(5) [OF steps(6)]
      same_chains_trans by blast
  then show ?thesis using steps by (intro that [OF e_def _ leaves_def, of a4 ch st]) (simp_all add: same_chains_def)
qed

text \<open>What the switch leaves in the storage.\<close>

lemma those_map_Some: "(\<And>x. x \<in> set xs \<Longrightarrow> f x = Some (g x)) \<Longrightarrow> those (map f xs) = Some (map g xs)"
  by (induction xs) simp_all

lemma switch_storage:
  assumes "linked ch" "ch \<noteq> []" "blockInfos (hd ch) \<noteq> []" "chain_height ch < 2 ^ 32" "unat start \<le> length st" "length st < 2 ^ 32"
  shows "switchMainChainStorage start ch st = Some (take (unat start) st @ drop (unat start) (chain_storage ch))"
proof -
  have st: "unat (of_nat (length st) :: u32) = length st" using assms(6) by (simp add: unat_of_nat take_bit_nat_eq_self)
  then have pop: "unat (of_nat (length st) - start) = length st - unat start" using assms(5) by (simp add: unat_sub word_le_nat_alt)
  have "chain_blocks ch \<noteq> []" using assms(2,3) by (cases ch) auto
  then have top: "unat (getTopBlockIndex (hd ch)) + 1 = chain_height ch"
    using top_of_linked [OF assms(2,1,4,3)] by (cases "chain_blocks ch") simp_all
  have "getBlockByIndex ch (of_nat k) = Some (chain_storage ch ! k)" if "k \<in> set [unat start ..< chain_height ch]" for k
    using that assms(4) linked_storage_length [OF assms(1)]
    by (simp add: getBlockByIndex_linked [OF assms(1)] vector_at_def unat_of_nat take_bit_nat_eq_self)
  then have "those (map (\<lambda>k. getBlockByIndex ch (of_nat k)) [unat start ..< chain_height ch]) =
      Some (map (\<lambda>k. chain_storage ch ! k) [unat start ..< chain_height ch])" by (rule those_map_Some)
  also have "map (\<lambda>k. chain_storage ch ! k) [unat start ..< chain_height ch] = drop (unat start) (chain_storage ch)"
    using linked_storage_length [OF assms(1)] by (intro nth_equalityI) simp_all
  finally show ?thesis using assms(5) by (simp add: switchMainChainStorage_def Let_def pop top [simplified] del: upt_Suc)
qed

lemma store_on_alternative_parts:
  assumes "store_on_alternative E block rawBlock v i core = Some (r, core')"
  obtains cs' new old where "push_checked E block rawBlock v (chainsStorage core) i = Some cs'"
    "getCurrentCumulativeDifficulty_top (node_cache (cs' ! i)) = Some new"
    "getCurrentCumulativeDifficulty_top (node_cache (cs' ! main_leaf core)) = Some old"
    "(if old < new then switch_to E v i (core\<lparr>chainsStorage := cs'\<rparr>) else Some (ADDED_TO_ALTERNATIVE, core\<lparr>chainsStorage := cs'\<rparr>)) = Some (r, core')"
  using assms unfolding store_on_alternative_def Let_def bind_eq_Some_conv by (elim exE conjE) (rule that)

lemma store_on_alternative_inv:
  assumes inv: "core_inv core" and i: "i \<in> set (chainsLeaves core)" "i \<noteq> main_leaf core" and p: "is_path (chainsStorage core) (i # p)"
    and ready: "ready (co_currency core) (chain_of (chainsStorage core) (i # p)) block (chk_difficulty v)"
    and hash: "getBlockHash (cn_fast_hash (env_crypto E)) block = Inr h" "\<not> hasBlock (node_cache (chainsStorage core ! i)) h"
    and store: "store_on_alternative E block rawBlock v i core = Some (r, core')"
  shows "core_inv core'"
proof -
  let ?m = "main_leaf core" and ?cs = "chainsStorage core"
  obtain cs' new old where push: "push_checked E block rawBlock v ?cs i = Some cs'"
    and work: "getCurrentCumulativeDifficulty_top (node_cache (cs' ! i)) = Some new" "getCurrentCumulativeDifficulty_top (node_cache (cs' ! ?m)) = Some old"
    and rest: "(if old < new then switch_to E v i (core\<lparr>chainsStorage := cs'\<rparr>) else Some (ADDED_TO_ALTERNATIVE, core\<lparr>chainsStorage := cs'\<rparr>)) = Some (r, core')"
    by (rule store_on_alternative_parts [OF store])
  note pr = push_ready [OF inv refl i(1) p ready hash push]
  have w: "new = top_work cs' i" "old = top_work cs' ?m"
    using work by (simp_all add: getCurrentCumulativeDifficulty_top_def top_work_def split: if_splits)
  have other: "top_work cs' j = top_work ?cs j" if "j < length ?cs" "j \<noteq> i" for j using pr(5) [OF that] by (simp add: top_work_def)
  have most: "top_work cs' j \<le> old" if "j < length ?cs" "j \<noteq> i" for j
    using core_inv_parts(2,4) [OF inv] that other [OF that] other [of ?m] i(2) by (simp add: w heaviest_def)
  obtain q where q: "is_path ?cs (?m # q)" using tree_path [OF core_inv_parts(1,4) [OF inv]] by blast
  then have q': "is_path cs' (?m # q)" and p': "is_path cs' (i # p)" using p pr(2) by simp_all
  show ?thesis
  proof (cases "old < new")
    case False
    then have "heaviest cs' (chainsLeaves core)" unfolding heaviest_def using most w pr(3) by (metis linorder_not_less)
    then show ?thesis using rest False inv pr(1) updateMainChainSet_path [OF q] updateMainChainSet_path [OF q'] by (auto simp: core_inv_def)
  next
    case True
    let ?core = "core\<lparr>chainsStorage := cs'\<rparr>"
    have "switch_to E v i ?core = Some (r, core')" using rest True by simp
    then obtain e leaves st core1 where sw: "e = length (takeWhile (\<lambda>j. j \<noteq> i) (chainsLeaves core))"
      "leaves = (chainsLeaves core)[0 := chainsLeaves core ! e, e := chainsLeaves core ! 0]"
      "updateMainChainSet cs' leaves = Some (mainChainSet core1)" "chainsStorage core1 = cs'" "chainsLeaves core1 = leaves"
      "co_currency core1 = co_currency core" "core' = core1\<lparr>mainChainStorage := st\<rparr>"
      by (rule switch_to_parts) simp
    have tree: "tree_ok cs' (chainsLeaves core)" using pr(1) by (simp add: chains_inv_def)
    note swap = swap_leaves [OF conjunct2 [OF tree_leaves [OF tree]] i(1) sw(1)]
    have "chains_inv (co_currency core) cs' leaves"
      using pr(1) tree_ok_leaves [OF tree swap(3,4)] unfolding chains_inv_def sw(2) by blast
    moreover have "top_work cs' j \<le> top_work cs' i" if "j < length cs'" for j
      using most [of j] that pr(3) True w by (cases "j = i") auto
    then have "heaviest cs' leaves" using swap(5) by (simp add: heaviest_def sw(2))
    ultimately show ?thesis using sw by (simp add: core_inv_def)
  qed
qed

lemma path_through:
  assumes "is_path cs p" "j \<in> set p" "is_path cs (j # r)"
  shows "\<exists>a. p = a @ j # r"
proof -
  obtain a b where ab: "p = a @ j # b" using split_list [OF assms(2)] by blast
  then show ?thesis using path_unique [of cs j b r] path_suffix [of cs a j b] assms by auto
qed

lemma chain_storage_append: "chain_storage (a @ b) = chain_storage b @ chain_storage a"
  by (induction a) simp_all

lemma switched_storage:
  assumes inv: "core_inv core" and i: "i \<in> set (chainsLeaves core)" "i \<noteq> main_leaf core" and p: "is_path (chainsStorage core) (i # p)"
    and ready: "ready (co_currency core) (chain_of (chainsStorage core) (i # p)) block (chk_difficulty v)"
    and hash: "getBlockHash (cn_fast_hash (env_crypto E)) block = Inr h" "\<not> hasBlock (node_cache (chainsStorage core ! i)) h"
    and store: "store_on_alternative E block rawBlock v i core = Some (r, core')"
    and follows: "storage_follows core"
    and on_main: "r = ADDED_TO_ALTERNATIVE_AND_SWITCHED \<longrightarrow> (\<exists>q \<in> mainChainSet core. node_parent (chainsStorage core' ! main_leaf core') = Some q)"
  shows "storage_follows core'"
proof -
  let ?m = "main_leaf core" and ?cs = "chainsStorage core"
  obtain cs' and new old :: u64 where push: "push_checked E block rawBlock v ?cs i = Some cs'"
    and rest: "(if old < new then switch_to E v i (core\<lparr>chainsStorage := cs'\<rparr>) else Some (ADDED_TO_ALTERNATIVE, core\<lparr>chainsStorage := cs'\<rparr>)) = Some (r, core')"
    by (rule store_on_alternative_parts [OF store])
  note pr = push_ready [OF inv refl i(1) p ready hash push]
  obtain q where q: "is_path ?cs (?m # q)" using tree_path [OF core_inv_parts(1,4) [OF inv]] by blast
  then have q': "is_path cs' (?m # q)" and p': "is_path cs' (i # p)" using p pr(2) by simp_all
  have ni: "i \<notin> set (?m # q)" using leaf_path_end [OF core_inv_parts(1) [OF inv] i(1) q] i(2) by simp
  then have old: "chain_of cs' (?m # q) = chain_of ?cs (?m # q)" using is_path_bound [OF q] pr(5) by (intro chain_of_cong) metis
  have st: "mainChainStorage core = chain_storage (chain_of ?cs (?m # q))"
    using follows path_chain_at [OF q] by (simp add: storage_follows_def)
  show ?thesis
  proof (cases "old < new")
    case False
    then show ?thesis using rest path_chain_at [OF q'] old st by (auto simp: storage_follows_def)
  next
    case True
    let ?core = "core\<lparr>chainsStorage := cs'\<rparr>" and ?new = "chain_of cs' (i # p)"
    have "switch_to E v i ?core = Some (r, core')" using rest True by simp
    then obtain e leaves st' core1 ch where sw: "e = length (takeWhile (\<lambda>j. j \<noteq> i) (chainsLeaves core))"
      "leaves = (chainsLeaves core)[0 := chainsLeaves core ! e, e := chainsLeaves core ! 0]" "chainsStorage core1 = cs'" "chainsLeaves core1 = leaves"
      "chain_at cs' (leaves ! 0) = Some ch" "switchMainChainStorage (startIndex (hd ch)) ch (mainChainStorage core) = Some st'"
      "core' = core1\<lparr>mainChainStorage := st'\<rparr>" "r = ADDED_TO_ALTERNATIVE_AND_SWITCHED"
      by (rule switch_to_parts) simp
    have tree: "tree_ok cs' (chainsLeaves core)" using pr(1) by (simp add: chains_inv_def)
    note swap = swap_leaves [OF conjunct2 [OF tree_leaves [OF tree]] i(1) sw(1)]
    have main: "hd leaves = i" "leaves \<noteq> []" using swap by (auto simp: sw(2))
    then have ch: "ch = ?new" using sw(5) path_chain_at [OF p'] by (simp add: hd_conv_nth)
    have "chain_inv (co_currency core) ?new" using pr(1) p' is_path_bound [OF p', of i] by (simp add: chains_inv_def)
    then have new: "linked ?new" "?new \<noteq> []" "blockInfos (hd ?new) \<noteq> []" "chain_height ?new < 2 ^ 32" by (simp_all add: chain_inv_def)
    have oldc: "chain_inv (co_currency core) (chain_of ?cs (?m # q))" using core_inv_parts(5) [OF inv q] .
    then have len: "length (mainChainStorage core) < 2 ^ 32" using linked_storage_length [of "chain_of ?cs (?m # q)"] st by (simp add: chain_inv_def)
    have parent: "p \<noteq> []" "hd p \<in> mainChainSet core"
      using on_main sw(3,4,7,8) main p' by (auto simp: is_path_Cons split: if_splits)
    then have "hd p \<in> set (?m # q)" using inv updateMainChainSet_path [OF q] by (simp add: core_inv_def)
    moreover have "is_path ?cs (hd p # tl p)" "p = hd p # tl p" using p parent(1) by (cases p; auto)+
    ultimately obtain a where pre: "?m # q = a @ p" using path_through [OF q] by metis
    have below: "chain_of cs' p = chain_of ?cs p"
      using is_path_bound [OF p] path_distinct [OF p] pr(5) by (intro chain_of_cong) auto
    define base where "base = chain_storage (chain_of ?cs p)"
    have st_eq: "mainChainStorage core = base @ chain_storage (chain_of ?cs a)" by (simp add: st pre base_def chain_storage_append)
    have new_eq: "chain_storage ?new = base @ storage (hd ?new)" using below by (simp add: base_def)
    have start: "unat (startIndex (hd ?new)) = length base" using new(1) linked_storage_length [of "chain_of cs' p"] below by (simp add: base_def)
    have "st' = take (length base) (mainChainStorage core) @ drop (length base) (chain_storage ?new)"
      using switch_storage [OF new, of "startIndex (hd ?new)" "mainChainStorage core"] sw(6) len start by (simp add: ch st_eq)
    then have "st' = chain_storage ?new" unfolding st_eq new_eq by simp
    then show ?thesis using sw(3,4,7) main path_chain_at [OF p'] by (simp add: storage_follows_def)
  qed
qed

text \<open>The main chain stays, or the new one is strictly heavier.\<close>

lemma store_on_alternative_main:
  assumes inv: "core_inv core" and i: "i \<in> set (chainsLeaves core)" "i \<noteq> main_leaf core" and p: "is_path (chainsStorage core) (i # p)"
    and ready: "ready (co_currency core) (chain_of (chainsStorage core) (i # p)) block (chk_difficulty v)"
    and hash: "getBlockHash (cn_fast_hash (env_crypto E)) block = Inr h" "\<not> hasBlock (node_cache (chainsStorage core ! i)) h"
    and store: "store_on_alternative E block rawBlock v i core = Some (r, core')"
  shows "if r = ADDED_TO_ALTERNATIVE then main_blocks core' = main_blocks core else main_work core < main_work core'"
proof -
  let ?m = "main_leaf core" and ?cs = "chainsStorage core"
  obtain cs' new old where push: "push_checked E block rawBlock v ?cs i = Some cs'"
    and work: "getCurrentCumulativeDifficulty_top (node_cache (cs' ! i)) = Some new" "getCurrentCumulativeDifficulty_top (node_cache (cs' ! ?m)) = Some old"
    and rest: "(if old < new then switch_to E v i (core\<lparr>chainsStorage := cs'\<rparr>) else Some (ADDED_TO_ALTERNATIVE, core\<lparr>chainsStorage := cs'\<rparr>)) = Some (r, core')"
    by (rule store_on_alternative_parts [OF store])
  note pr = push_ready [OF inv refl i(1) p ready hash push]
  obtain q where q: "is_path ?cs (?m # q)" using tree_path [OF core_inv_parts(1,4) [OF inv]] by blast
  then have q': "is_path cs' (?m # q)" using pr(2) by simp
  have ni: "i \<notin> set (?m # q)" using leaf_path_end [OF core_inv_parts(1) [OF inv] i(1) q] i(2) by simp
  then have same: "chain_of cs' (?m # q) = chain_of ?cs (?m # q)" using is_path_bound [OF q] pr(5) by (intro chain_of_cong) metis
  have w: "new = top_work cs' i" "old = main_work core"
    using work pr(5) [OF core_inv_parts(4) [OF inv]] i(2)
    by (simp_all add: getCurrentCumulativeDifficulty_top_def top_work_def main_work_def split: if_splits)
  show ?thesis
  proof (cases "old < new")
    case False
    then show ?thesis using rest path_chain_at [OF q] path_chain_at [OF q'] same by (auto simp: main_blocks_def)
  next
    case True
    have "switch_to E v i (core\<lparr>chainsStorage := cs'\<rparr>) = Some (r, core')" using rest True by simp
    then obtain e leaves st' core1 where sw: "e = length (takeWhile (\<lambda>j. j \<noteq> i) (chainsLeaves core))"
      "leaves = (chainsLeaves core)[0 := chainsLeaves core ! e, e := chainsLeaves core ! 0]" "chainsStorage core1 = cs'" "chainsLeaves core1 = leaves"
      "core' = core1\<lparr>mainChainStorage := st'\<rparr>" "r = ADDED_TO_ALTERNATIVE_AND_SWITCHED"
      by (rule switch_to_parts) simp
    have "hd leaves = i" using swap_leaves(5) [OF conjunct2 [OF tree_leaves [OF core_inv_parts(1) [OF inv]]] i(1) sw(1)] by (simp add: sw(2))
    then show ?thesis using True w sw by (simp add: main_work_def)
  qed
qed

definition tree_inv :: "Core \<Rightarrow> bool" where
  "tree_inv core \<longleftrightarrow> chains_inv (co_currency core) (chainsStorage core) (chainsLeaves core) \<and> heaviest (chainsStorage core) (chainsLeaves core)"

text \<open>The push of the block into the new segment.\<close>

lemma fork_push:
  assumes ci: "chain_inv c (chain_of cs (i # p))" and i: "i < length cs" "is_path cs (i # p)"
    and ready: "ready c (chain_of cs (i # p)) block (chk_difficulty v)" and index: "getBlockIndex block = chk_previous v + 1"
    and hash: "getBlockHash (cn_fast_hash (env_crypto E)) block = Inr h"
    and push: "push_checked E block rawBlock v (add_segment cs i (chk_previous v + 1)) (length cs) = Some cs'"
  obtains s' b where "cs' = set_cache (add_segment cs i (chk_previous v + 1)) (length cs) s'" "unat (startIndex s') = chain_height (chain_of cs (i # p))"
    "blockInfos s' = [b]" "storage s' = [rawBlock]" "adds_work c (chain_blocks (chain_of cs (i # p))) b"
proof -
  let ?n = "length cs" and ?start = "chk_previous v + 1" and ?new = "new_segment (chk_previous v + 1)" and ?ch = "chain_of cs (i # p)"
  have at_n: "node_cache (add_segment cs i ?start ! ?n) = ?new" using i(1) by (simp add: add_segment_nth)
  have path: "is_path (add_segment cs i ?start) (?n # i # p)" using add_segment_new_path [OF i] .
  have chain_n: "chain_of (add_segment cs i ?start) (?n # i # p) = ?new # ?ch" using at_n add_segment_chain [OF i] by simp
  have start: "unat ?start = chain_height ?ch" using ready index by (simp add: ready_def)
  then have linked: "linked (?new # ?ch)" "chain_height (?new # ?ch) < 2 ^ 32" "unat (getBlockIndex block) = chain_height (?new # ?ch)"
    using ci index by (simp_all add: chain_inv_def new_segment_def)
  have "\<not> hasBlock (node_cache (add_segment cs i ?start ! ?n)) h" by (simp add: at_n hasBlock_def new_segment_def)
  from push_at_leaf [OF push [unfolded push_checked_def] path hash this linked [folded chain_n], unfolded chain_n at_n]
  obtain s' where s': "cs' = set_cache (add_segment cs i ?start) ?n s'" "startIndex s' = startIndex ?new" "storage s' = storage ?new @ [rawBlock]"
    "blockInfos s' = blockInfos ?new @ [new_info h block (chk_transactions v) (chk_size v) (word_of_int (chk_emission v)) (chk_difficulty v) (?new # ?ch)]"
    by blast
  have "adds_work c (chain_blocks (?new # ?ch))
      (new_info h block (chk_transactions v) (chk_size v) (word_of_int (chk_emission v)) (chk_difficulty v) (?new # ?ch))"
    using ready ci by (intro ready_adds) (simp_all add: ready_def chain_inv_def new_segment_def)
  then show ?thesis using s' start by (intro that [OF s'(1)]) (simp_all add: new_segment_def)
qed

lemma store_fork_inv:
  assumes inv: "tree_inv core" and i: "i < length (chainsStorage core)" "i \<notin> set (chainsLeaves core)" "is_path (chainsStorage core) (i # p)"
    and ready: "ready (co_currency core) (chain_of (chainsStorage core) (i # p)) block (chk_difficulty v)"
    and index: "getBlockIndex block = chk_previous v + 1" and hash: "getBlockHash (cn_fast_hash (env_crypto E)) block = Inr h"
    and store: "store_fork E block rawBlock v i core = Some core'"
  shows "core_inv core'" "storage_follows core \<Longrightarrow> storage_follows core'" "main_blocks core' = main_blocks core"
proof -
  let ?cs = "chainsStorage core" and ?n = "length (chainsStorage core)" and ?start = "chk_previous v + 1" and ?leaves = "chainsLeaves core"
  let ?ch = "chain_of (chainsStorage core) (i # p)"
  have chains: "chains_inv (co_currency core) ?cs ?leaves" and tree: "tree_ok ?cs ?leaves" and heavy: "heaviest ?cs ?leaves"
    using inv by (simp_all add: tree_inv_def chains_inv_def)
  obtain cs' where push: "push_checked E block rawBlock v (add_segment ?cs i ?start) ?n = Some cs'"
    and core': "updateMainChainSet cs' (?leaves @ [?n]) = Some (mainChainSet core')" "chainsStorage core' = cs'"
      "chainsLeaves core' = ?leaves @ [?n]" "co_currency core' = co_currency core" "mainChainStorage core' = mainChainStorage core"
    using store by (auto simp: store_fork_def Let_def bind_eq_Some_conv)
  have ci: "chain_inv (co_currency core) ?ch" using chains i by (simp add: chains_inv_def)
  obtain s' b where s': "cs' = set_cache (add_segment ?cs i ?start) ?n s'" and s'': "unat (startIndex s') = chain_height ?ch" "blockInfos s' = [b]" "storage s' = [rawBlock]"
    and add: "adds_work (co_currency core) (chain_blocks ?ch) b"
    by (rule fork_push [OF ci i(1,3) ready index hash push])
  have "chain_height ?ch + 1 < 2 ^ 32" using ready by (simp add: ready_def)
  note fork = fork_inv(1-3) [where start = ?start, OF chains i s'' add this, folded s'] fork_inv(4) [OF chains i s'' add this]
  have hd: "hd (?leaves @ [?n]) = hd ?leaves" "hd ?leaves < ?n" using tree_leaves [OF tree] tree_leaf [OF tree, of "hd ?leaves"] by auto
  have "top_work cs' j \<le> top_work cs' (hd ?leaves)" if j: "j < ?n + 1" for j
  proof (cases "j = ?n")
    case True
    then show ?thesis using fork(2,4) fork(3) [OF hd(2)] heavy by (auto simp: heaviest_def intro: order_trans)
  next
    case False
    then show ?thesis using j fork(3) [of j] fork(3) [OF hd(2)] heavy by (simp add: heaviest_def)
  qed
  then have "heaviest cs' (?leaves @ [?n])" using i(1) by (simp add: heaviest_def hd(1) s' add_segment_nth)
  then show "core_inv core'" using fork(1) core' by (simp add: core_inv_def)
  obtain q where q: "is_path ?cs (hd ?leaves # q)" using tree_path [OF tree hd(2)] by blast
  then have q': "is_path cs' (hd ?leaves # q)" using add_segment_path [OF i(1)] by (simp add: s')
  have "node_cache (cs' ! j) = node_cache (?cs ! j)" if "j < ?n" for j
    using that i(1) by (simp add: s' set_cache_nth add_segment_nth)
  then have "chain_of cs' (hd ?leaves # q) = chain_of ?cs (hd ?leaves # q)" using is_path_bound [OF q] by (intro chain_of_cong) blast
  then have "chain_at cs' (hd ?leaves) = chain_at ?cs (hd ?leaves)" using path_chain_at [OF q] path_chain_at [OF q'] by simp
  then show "storage_follows core \<Longrightarrow> storage_follows core'" "main_blocks core' = main_blocks core"
    using core' by (simp_all add: storage_follows_def main_blocks_def hd(1))
qed

lemma replace_leaf:
  assumes "distinct leaves"
  shows "leaves[length (takeWhile (\<lambda>j. j \<noteq> i) leaves) := n] = map (\<lambda>j. if j = i then n else j) leaves"
  using assms by (induction leaves) (auto intro: map_idI [symmetric])

lemma above_fresh: "i \<notin> set p \<Longrightarrow> above i n p = p"
  by (induction p) auto

text \<open>The two parts of a segment, and the tree and the leaves after the split.\<close>

lemma part_facts:
  assumes "unat (startIndex s) = b" "length (storage s) = length (blockInfos s)" "unat index = b + k" "0 < k" "k < length (blockInfos s)"
  shows "blockInfos (lower_part index s) @ blockInfos (upper_part index s) = blockInfos s"
    "storage (lower_part index s) @ storage (upper_part index s) = storage s" "blockInfos (lower_part index s) \<noteq> []" "blockInfos (upper_part index s) \<noteq> []"
    "length (storage (lower_part index s)) = length (blockInfos (lower_part index s))" "startIndex (lower_part index s) = startIndex s"
    "unat (startIndex (upper_part index s)) = unat (startIndex s) + length (blockInfos (lower_part index s))"
    "blockInfos (lower_part index s) = take k (blockInfos s)" "unat (index - startIndex s) = k"
proof -
  show k: "unat (index - startIndex s) = k" using assms(1,3) by (simp add: unat_sub word_le_nat_alt)
  have "blockInfos s \<noteq> []" using assms(5) by auto
  then show "blockInfos (lower_part index s) @ blockInfos (upper_part index s) = blockInfos s"
    "storage (lower_part index s) @ storage (upper_part index s) = storage s" "blockInfos (lower_part index s) \<noteq> []" "blockInfos (upper_part index s) \<noteq> []"
    "length (storage (lower_part index s)) = length (blockInfos (lower_part index s))" "startIndex (lower_part index s) = startIndex s"
    "unat (startIndex (upper_part index s)) = unat (startIndex s) + length (blockInfos (lower_part index s))"
    "blockInfos (lower_part index s) = take k (blockInfos s)"
    using assms k by (simp_all add: lower_part_def upper_part_def Let_def)
qed

lemma split_tree_eq:
  assumes tree: "tree_ok (chainsStorage core) (chainsLeaves core)" and i: "is_path (chainsStorage core) (i # p)"
    and s: "s = node_cache (chainsStorage core ! i)" "unat (index - startIndex s) = k" "k < length (blockInfos s)" "length (storage s) = length (blockInfos s)"
    and split: "split_tree index i core = Some core'"
  shows "core' = core\<lparr>chainsStorage := replace_by_parts (chainsStorage core) i (upper_part index s) (lower_part index s),
    chainsLeaves := map (\<lambda>j. if j = i then length (chainsStorage core) else j) (chainsLeaves core)\<rparr>"
proof -
  let ?cs = "chainsStorage core" and ?n = "length (chainsStorage core)" and ?leaves = "chainsLeaves core"
  have il: "i < ?n" using is_path_bound [OF i, of i] by simp
  obtain cs' leaves where step: "split_at ?cs i index = Some cs'" "core' = core\<lparr>chainsStorage := cs', chainsLeaves := leaves\<rparr>"
    and leaves: "(if node_children (cs' ! ?n) = []
      then let found = length (takeWhile (\<lambda>j. j \<noteq> i) ?leaves) in if found < length ?leaves then Some (?leaves[found := ?n]) else None
      else Some ?leaves) = Some leaves"
    using split unfolding split_tree_def Let_def [where s = ?n] bind_eq_Some_conv by auto
  have cs': "cs' = replace_by_parts ?cs i (upper_part index s) (lower_part index s)"
    using step(1) path_chain_at [OF i] s by (simp add: split_at_def split_cache_def Let_def)
  have ch: "node_children (cs' ! ?n) = node_children (?cs ! i)" by (simp add: cs' parts_nth [OF tree il])
  have "leaves = map (\<lambda>j. if j = i then ?n else j) ?leaves"
  proof (cases "node_children (?cs ! i) = []")
    case True
    then show ?thesis using leaves replace_leaf [of ?leaves i ?n] tree_leaves [OF tree] by (simp add: ch Let_def split: if_splits)
  next
    case False
    then have "i \<notin> set ?leaves" using tree_leaf [OF tree] by blast
    then show ?thesis using leaves False by (auto simp: ch intro: map_idI [symmetric])
  qed
  then show ?thesis by (simp add: step(2) cs')
qed

lemma split_tree_inv:
  assumes inv: "tree_inv core" and i: "is_path (chainsStorage core) (i # p)"
    and k: "unat index = chain_height (chain_of (chainsStorage core) p) + k" "0 < k" "k < length (blockInfos (node_cache (chainsStorage core ! i)))"
    and split: "split_tree index i core = Some core'"
  shows "tree_inv core'" "i < length (chainsStorage core')" "i \<notin> set (chainsLeaves core')" "is_path (chainsStorage core') (i # p)"
    "chain_blocks (chain_of (chainsStorage core') (i # p)) = take (unat index) (chain_blocks (chain_of (chainsStorage core) (i # p)))"
    "co_currency core' = co_currency core" "storage_follows core \<Longrightarrow> storage_follows core'" "main_blocks core' = main_blocks core"
proof -
  let ?cs = "chainsStorage core" and ?n = "length (chainsStorage core)" and ?leaves = "chainsLeaves core" and ?s = "node_cache (chainsStorage core ! i)"
  let ?f = "\<lambda>j. if j = i then ?n else j" and ?cs' = "replace_by_parts ?cs i (upper_part index ?s) (lower_part index ?s)"
  have chains: "chains_inv (co_currency core) ?cs ?leaves" and tree: "tree_ok ?cs ?leaves" and heavy: "heaviest ?cs ?leaves"
    using inv by (simp_all add: tree_inv_def chains_inv_def)
  have il: "i < ?n" using is_path_bound [OF i, of i] by simp
  have "chain_inv (co_currency core) (chain_of ?cs (i # p))" using chains i il by (simp add: chains_inv_def)
  then have linked: "unat (startIndex ?s) = chain_height (chain_of ?cs p)" "length (storage ?s) = length (blockInfos ?s)"
    by (simp_all add: chain_inv_def)
  note parts = part_facts [OF linked k]
  note sp = split_inv [OF chains il refl parts(1-7)]
  have core': "core' = core\<lparr>chainsStorage := ?cs', chainsLeaves := map ?f ?leaves\<rparr>"
    by (rule split_tree_eq [OF tree i refl parts(9) k(3) linked(2) split])
  have hd: "hd (map ?f ?leaves) = ?f (hd ?leaves)" "hd ?leaves < ?n"
    using tree_leaves [OF tree] tree_leaf [OF tree, of "hd ?leaves"] by (auto simp: hd_map)
  have main: "top_work ?cs' (?f (hd ?leaves)) = top_work ?cs (hd ?leaves)" using sp(2,4) hd(2) by simp
  have "top_work ?cs' j \<le> top_work ?cs (hd ?leaves)" if j: "j < ?n + 1" for j
  proof -
    consider "j = ?n" | "j = i" | "j < ?n" "j \<noteq> i" using j by linarith
    then show ?thesis using sp(2,3) sp(4) [of j] heavy il by cases (auto simp: heaviest_def intro: order_trans)
  qed
  then show "tree_inv core'" using sp(1) main hd(1) by (simp add: tree_inv_def core' heaviest_def parts_nth(1) [OF tree il])
  show "i < length (chainsStorage core')" "i \<notin> set (chainsLeaves core')" "co_currency core' = co_currency core"
    using il by (auto simp: core' parts_nth(1) [OF tree il])
  have ip: "i \<notin> set p" using path_distinct [OF i] by simp
  then show "is_path (chainsStorage core') (i # p)" using parts_path [OF tree il i] above_fresh [OF ip] by (simp add: core')
  have "chain_of ?cs' p = chain_of ?cs p" using is_path_bound [OF i] ip parts_nth(3) [OF tree il] by (intro chain_of_cong) auto
  then show "chain_blocks (chain_of (chainsStorage core') (i # p)) = take (unat index) (chain_blocks (chain_of ?cs (i # p)))"
    using il parts(8) by (simp add: core' parts_nth(3) [OF tree il] k(1))
  obtain q where q: "is_path ?cs (hd ?leaves # q)" using tree_path [OF tree hd(2)] by blast
  from sp(5) [OF q] path_chain_at [OF q]
  show "storage_follows core \<Longrightarrow> storage_follows core'" "main_blocks core' = main_blocks core"
    by (auto simp: storage_follows_def main_blocks_def core' hd(1))
qed

lemma room_chain:
  assumes "room core" "chain_at (chainsStorage core) i = Some ch" "i < length (chainsStorage core)"
  shows "chain_height ch + 1 < 2 ^ 32"
    "k < chain_height ch \<Longrightarrow> next_work (co_currency core) (take (k + 1) (chain_blocks ch)) = Some d \<Longrightarrow>
       unat (cbi_cumulativeDifficulty (chain_blocks ch ! k)) + unat d < 2 ^ 64"
  using assms unfolding room_def by (metis, metis Suc_eq_plus1 Suc_leI diff_Suc_1 zero_less_Suc)

text \<open>All ways of storing a block that passed the checks against the chain of the segment at \<open>i\<close>.\<close>

lemma checked_next:
  assumes inv: "core_inv core" and room: "room core" and i: "is_path (chainsStorage core) (i # p)"
    and check: "check_block E (co_currency core) points g (chain_of (chainsStorage core) (i # p)) block h raw = Some (Inr v)"
  shows "getBlockIndex block = chk_previous v + 1" "unat (chk_previous v + 1) = unat (chk_previous v) + 1"
    "chain_height (chain_of (chainsStorage core) p) \<le> unat (chk_previous v)"
    "unat (chk_previous v) < chain_height (chain_of (chainsStorage core) (i # p))"
    "chain_blocks ch = take (unat (chk_previous v) + 1) (chain_blocks (chain_of (chainsStorage core) (i # p))) \<Longrightarrow>
       ready (co_currency core) ch block (chk_difficulty v)"
proof -
  let ?ch = "chain_of (chainsStorage core) (i # p)" and ?c = "co_currency core" and ?i = "chk_previous v"
  have ci: "?ch \<noteq> []" "linked ?ch" "chain_height ?ch < 2 ^ 32" using core_inv_parts(5) [OF inv i] by (simp_all add: chain_inv_def)
  from check_block_parts [OF check] obtain m where parts: "cache_getBlockIndex (node_cache (chainsStorage core ! i)) (previousBlockHash block) = Some ?i"
    "validateBlock (env_crypto E) ?c (env_time E) block ?ch = Some (Inr m)" "getDifficultyForNextBlock ?c ?ch ?i = Some (chk_difficulty v)"
    by (metis chain_of_simps(2) list.sel(1))
  show index: "getBlockIndex block = ?i + 1" using validateBlock_Inr(1) [OF parts(2)] parts(1) by simp
  show b: "chain_height (chain_of (chainsStorage core) p) \<le> unat ?i" "unat ?i < chain_height ?ch"
    using block_index_bounds [OF parts(1), of "chain_of (chainsStorage core) p"] ci by simp_all
  show s: "unat (?i + 1) = unat ?i + 1" using b(2) ci(3) by (subst unat_add_no_overflow) simp_all
  have next_w: "next_work ?c (take (unat ?i + 1) (chain_blocks ?ch)) = Some (chk_difficulty v)"
    using parts(3) next_work_eq [OF ci b(2)] by simp
  have "chain_at (chainsStorage core) i = Some ?ch" "i < length (chainsStorage core)" using path_chain_at [OF i] is_path_bound [OF i, of i] by simp_all
  then have r: "chain_height ?ch + 1 < 2 ^ 32" "unat (cbi_cumulativeDifficulty (chain_blocks ?ch ! unat ?i)) + unat (chk_difficulty v) < 2 ^ 64"
    using room_chain(1) [OF room] room_chain(2) [OF room _ _ b(2) next_w] by blast+
  show "ready ?c ch block (chk_difficulty v)" if "chain_blocks ch = take (unat ?i + 1) (chain_blocks ?ch)"
    unfolding ready_def that using index s next_w r b(2) by (simp add: take_Suc_conv_app_nth del: chain_of_simps)
qed

text \<open>What storing a block keeps, by the result that \<open>addBlock\<close> reports.\<close>

definition stored_well :: "AddBlockErrorCode \<Rightarrow> Core \<Rightarrow> Core \<Rightarrow> bool" where
  "stored_well r core core' \<longleftrightarrow> core_inv core' \<and>
     (storage_follows core \<longrightarrow>
      (r = ADDED_TO_ALTERNATIVE_AND_SWITCHED \<longrightarrow> (\<exists>q \<in> mainChainSet core. node_parent (chainsStorage core' ! main_leaf core') = Some q)) \<longrightarrow>
      storage_follows core') \<and>
     (if r = ADDED_TO_ALTERNATIVE then main_blocks core' = main_blocks core else main_work core < main_work core')"

lemma checked_difficulty: "check_block E c points g ch block h raw = Some (Inr v) \<Longrightarrow> chk_difficulty v \<noteq> 0"
  by (auto simp: check_block_def Let_def check_Inr split: option.splits Option.bind_splits prod.splits)

lemma store_block_inv:
  assumes inv: "core_inv core" and room: "room core" and i: "is_path (chainsStorage core) (i # p)"
    and check: "check_block E (co_currency core) points g (chain_of (chainsStorage core) (i # p)) block h raw = Some (Inr v)"
    and hash: "getBlockHash (cn_fast_hash (env_crypto E)) block = Inr h" "\<not> hasBlock (node_cache (chainsStorage core ! i)) h"
    and store: "store_block E block raw v i core = Some (r, core')"
  shows "stored_well r core core'"
proof -
  let ?cs = "chainsStorage core" and ?ch = "chain_of (chainsStorage core) (i # p)" and ?i = "chk_previous v"
  note next_b = checked_next [OF inv room i check]
  have il: "i < length ?cs" using is_path_bound [OF i, of i] by simp
  have tree: "tree_inv core" using inv by (simp add: core_inv_def tree_inv_def)
  have "chain_inv (co_currency core) ?ch" by (rule core_inv_parts(5) [OF inv i])
  then have "unat (getTopBlockIndex (hd ?ch)) = chain_height ?ch - 1" using top_of_linked [of ?ch] by (simp add: chain_inv_def)
  then have top: "unat (getTopBlockIndex (node_cache (?cs ! i))) + 1 = chain_height ?ch" using next_b(4) by simp
  show ?thesis
  proof (cases "getTopBlockIndex (node_cache (?cs ! i)) = ?i")
    case True
    then have ready: "ready (co_currency core) ?ch block (chk_difficulty v)" using next_b(5) [of ?ch] top by simp
    show ?thesis
    proof (cases "node_children (?cs ! i) = []")
      case leaf: True
      then have il: "i \<in> set (chainsLeaves core)" using tree_leaf [OF core_inv_parts(1) [OF inv]] il by simp
      show ?thesis
      proof (cases "i = main_leaf core")
        case main: True
        then have "store_on_main E block raw v core = Some (r, core')" "r \<noteq> ADDED_TO_ALTERNATIVE"
          using store True leaf by (auto simp: store_block_def store_on_main_def split: Option.bind_splits)
        then show ?thesis using store_on_main_inv [OF inv _ _ hash(1), of p v raw r core'] checked_difficulty [OF check] i ready hash(2) main
          by (simp add: stored_well_def)
      next
        case False
        then have alt: "store_on_alternative E block raw v i core = Some (r, core')" using store True leaf by (simp add: store_block_def)
        show ?thesis unfolding stored_well_def
          using store_on_alternative_inv [OF inv il False i ready hash alt] switched_storage [OF inv il False i ready hash alt]
            store_on_alternative_main [OF inv il False i ready hash alt] by blast
      qed
    next
      case False
      then have ni: "i \<notin> set (chainsLeaves core)" using tree_leaf [OF core_inv_parts(1) [OF inv]] by blast
      obtain core1 where core1: "store_fork E block raw v i core = Some core1" "updateBlockMedianSize core1 = Some core'" "r = ADDED_TO_ALTERNATIVE"
        using store True False by (auto simp: store_block_def bind_eq_Some_conv)
      then show ?thesis using store_fork_inv [OF tree il ni i ready next_b(1) hash(1) core1(1)] same_chains_inv [OF pool_parts_keep(1) [OF core1(2)]]
        by (simp add: stored_well_def)
    qed
  next
    case False
    then obtain core1 where core1: "split_tree (?i + 1) i core = Some core1" "store_fork E block raw v i core1 = Some core'" "r = ADDED_TO_ALTERNATIVE"
      using store by (auto simp: store_block_def bind_eq_Some_conv)
    define k where "k = unat ?i + 1 - chain_height (chain_of ?cs p)"
    have "unat ?i \<noteq> unat (getTopBlockIndex (node_cache (?cs ! i)))" using False by (simp add: word_unat_eq_iff)
    then have k: "unat (?i + 1) = chain_height (chain_of ?cs p) + k" "0 < k" "k < length (blockInfos (node_cache (?cs ! i)))"
      using next_b(2-4) top by (simp_all add: k_def)
    note sp = split_tree_inv [OF tree i k core1(1)]
    have "ready (co_currency core1) (chain_of (chainsStorage core1) (i # p)) block (chk_difficulty v)"
      using next_b(5) sp(5) by (simp add: sp(6) next_b(2))
    then show ?thesis using store_fork_inv [OF sp(1-4) _ next_b(1) hash(1) core1(2)] sp(7,8) core1(3) by (simp add: stored_well_def)
  qed
qed

section \<open>What \<open>addBlock\<close> does\<close>

text \<open>The codes of success; no check gives one of them as its error.\<close>

definition added_codes :: "error_code set" where
  "added_codes = Add_code ` {ADDED_TO_MAIN, ADDED_TO_ALTERNATIVE, ADDED_TO_ALTERNATIVE_AND_SWITCHED}"

definition refuses :: "(error_code + 'a) option \<Rightarrow> bool" where
  "refuses r \<longleftrightarrow> (\<forall>e. r = Some (Inl e) \<longrightarrow> e \<notin> added_codes)"

lemma refuses_simps [simp]:
  "refuses None" "refuses (Some (Inr x))" "refuses (Some (Inl e)) = (e \<notin> added_codes)"
  "refuses (reject_if b e) = (b \<longrightarrow> e \<notin> added_codes)"
  "Block_code e1 \<notin> added_codes" "Transaction_code e2 \<notin> added_codes" "Add_code DESERIALIZATION_FAILED \<notin> added_codes"
  "Add_code ALREADY_EXISTS \<notin> added_codes" "Add_code REJECTED_AS_ORPHANED \<notin> added_codes"
  by (auto simp: refuses_def reject_if_def added_codes_def)

lemma refuses_transaction_code [simp]: "refuses (Some (map_sum Transaction_code f s))"
  by (cases s) simp_all

lemma refuses_transaction_codes [simp]: "refuses (map_option (map_sum Transaction_code f) opt)"
  by (cases opt) simp_all

lemma refuses_and_then: "refuses r \<Longrightarrow> (\<And>x. refuses (k x)) \<Longrightarrow> refuses (and_then r k)"
  by (auto simp: refuses_def and_then_def split: option.splits sum.splits)

lemma refuses_bind: "(\<And>x. refuses (k x)) \<Longrightarrow> refuses (Option.bind opt k)"
  by (cases opt) simp_all

lemma refuses_transactions: "refuses (validate_block_transactions C points cache index cts fee st)"
  by (induction C points cache index cts fee st rule: validate_block_transactions.induct)
    (auto intro!: refuses_and_then split: prod.splits)

lemma check_block_refuses: "refuses (check_block E c points g ch block h raw)"
proof -
  have "refuses (validateBlock C c now block ch)" for C now
    by (auto simp: validateBlock_def validate_parent_def validate_timestamp_def Let_def intro!: refuses_and_then refuses_bind)
  moreover have "refuses (check_transaction_hashes cn block cts)" "refuses (check_mixins block cts)" for cn cts
    by (auto simp: check_transaction_hashes_def check_mixins_def Let_def intro!: refuses_and_then refuses_bind)
  moreover have "refuses (check_reward c block ch index sz fee reward)" "refuses (check_work E points g block h d)" for index sz fee reward d
    by (auto simp: check_reward_def check_work_def intro!: refuses_bind split: option.splits prod.splits)
  ultimately show ?thesis
    unfolding check_block_def Let_def
    by (auto intro!: refuses_and_then refuses_bind simp: refuses_transactions split: option.splits prod.splits)
qed

lemma store_block_added: "store_block E block raw v i core = Some (ret, core') \<Longrightarrow> Add_code ret \<in> added_codes"
  by (auto simp: store_block_def store_on_main_def store_on_alternative_def switch_to_def Let_def added_codes_def
      split: if_splits Option.bind_splits)

text \<open>Either the core stays as it is, or the block is new, passes the checks and is stored.\<close>

lemma addBlock_cases:
  assumes "addBlock E block raw core = Some (r, core')"
  obtains (refused) "core' = core" "r \<notin> added_codes"
  | (stored) h i ch v ret where "getBlockHash (cn_fast_hash (env_crypto E)) block = Inr h"
      "findSegmentContainingBlock (chainsStorage core) (chainsLeaves core) h = Some None"
      "findSegmentContainingBlock (chainsStorage core) (chainsLeaves core) (previousBlockHash block) = Some (Some i)"
      "chain_at (chainsStorage core) i = Some ch"
      "check_block E (co_currency core) (co_checkpoints core) (co_genesisBlockHash core) ch block h raw = Some (Inr v)"
      "store_block E block raw v i core = Some (ret, core')" "r = Add_code ret" "r \<in> added_codes"
proof -
  obtain h found where h: "getBlockHash (cn_fast_hash (env_crypto E)) block = Inr h"
    "findSegmentContainingBlock (chainsStorage core) (chainsLeaves core) h = Some found"
    using assms by (auto simp: addBlock_def core_hasBlock_def returned_def split: Option.bind_splits sum.splits)
  show ?thesis
  proof (cases found)
    case (Some j)
    then show ?thesis using assms h refused by (auto simp: addBlock_def core_hasBlock_def returned_def)
  next
    case None
    then obtain prev where prev: "findSegmentContainingBlock (chainsStorage core) (chainsLeaves core) (previousBlockHash block) = Some prev"
      using assms h by (auto simp: addBlock_def core_hasBlock_def returned_def split: Option.bind_splits)
    show ?thesis
    proof (cases prev)
      case None
      then show ?thesis using assms h \<open>found = None\<close> prev refused by (auto simp: addBlock_def core_hasBlock_def returned_def)
    next
      case (Some i)
      then obtain ch checked where ch: "chain_at (chainsStorage core) i = Some ch"
        "check_block E (co_currency core) (co_checkpoints core) (co_genesisBlockHash core) ch block h raw = Some checked"
        "(case checked of Inl e \<Rightarrow> Some (e, core)
          | Inr v \<Rightarrow> map_option (\<lambda>(ret, core). (Add_code ret, core)) (store_block E block raw v i core)) = Some (r, core')"
        using assms h \<open>found = None\<close> prev by (auto simp: addBlock_def core_hasBlock_def returned_def split: Option.bind_splits)
      show ?thesis
      proof (cases checked)
        case (Inl e)
        then show ?thesis using ch check_block_refuses [of E "co_currency core" "co_checkpoints core" "co_genesisBlockHash core" ch block h raw] refused
          by (simp add: refuses_def)
      next
        case (Inr v)
        then obtain ret where "store_block E block raw v i core = Some (ret, core')" "r = Add_code ret" using ch(3) by auto
        then show ?thesis using stored [OF h(1)] h(2) \<open>found = None\<close> prev Some ch(1,2) Inr store_block_added by auto
      qed
    qed
  qed
qed

lemma addBlock_inv:
  assumes inv: "core_inv core" and room: "room core" and add: "addBlock E block raw core = Some (r, core')"
  shows "r \<notin> added_codes \<and> core' = core \<or> (\<exists>ret. r = Add_code ret \<and> r \<in> added_codes \<and> stored_well ret core core')"
  using add
proof (cases rule: addBlock_cases)
  case (stored h i ch v ret)
  note found = found_segment [OF core_inv_parts(1) [OF inv] stored(3,2)]
  obtain p where p: "is_path (chainsStorage core) (i # p)" using tree_path [OF core_inv_parts(1) [OF inv] found(1)] by blast
  then have ch: "ch = chain_of (chainsStorage core) (i # p)" using path_chain_at [OF p] stored(4) by simp
  show ?thesis using store_block_inv [OF inv room p stored(5) [unfolded ch] stored(1) found(3) stored(6)] stored(7,8) by blast
qed simp

text \<open>A stored block is in the segment of a leaf, where a search finds it.\<close>

lemma doPushBlock_has:
  assumes "doPushBlock cn block cts kis sz coins difficulty raw ch = Some ch'" "getBlockHash cn block = Inr h"
  shows "hasBlock (hd ch') h"
proof -
  obtain s0 s1 ps where "push_transactions cn ps (getBlockIndex block) 0 (CachedTransaction_of (baseTransaction block) # cts) s0 = Some s1"
    "ch' = s1\<lparr>storage := storage s1 @ [raw]\<rparr> # ps" "hasBlock s0 h"
    using assms by (auto simp: doPushBlock_def returned_def Let_def hasBlock_def simp del: push_transactions.simps
        split: Option.bind_splits list.splits prod.splits)
  then show ?thesis using push_transactions_keeps by (fastforce simp: hasBlock_def simp del: push_transactions.simps)
qed

lemma push_checked_has:
  assumes "push_checked E block raw v cs i = Some cs'" "getBlockHash (cn_fast_hash (env_crypto E)) block = Inr h" "i < length cs"
  shows "hasBlock (node_cache (cs' ! i)) h"
  using assms doPushBlock_has [OF _ assms(2)] by (auto simp: push_checked_def push_at_def set_cache_def split: Option.bind_splits)

lemma find_from_leaves_total:
  "\<forall>l \<in> set leaves. \<exists>r. search l = Some r \<Longrightarrow> \<exists>r. find_from_leaves search leaves = Some r"
proof (induction leaves)
  case (Cons l leaves)
  then obtain r where "search l = Some r" by auto
  then show ?case using Cons by (auto split: option.splits)
qed simp

lemma findSegment_total:
  assumes "tree_ok cs leaves"
  shows "\<exists>found. findSegmentContainingBlock cs leaves h = Some found"
proof -
  have walk: "\<exists>r. findIndexInChain cs h l = Some r" if "l \<in> set leaves" for l
    using tree_path [OF assms] tree_leaf [OF assms] that findIndexInChain_path by (metis list.sel(1))
  have "hd leaves \<in> set leaves" and tl: "set (tl leaves) \<subseteq> set leaves"
    using tree_leaves [OF assms] by (auto dest: list.set_sel(2))
  then obtain r where r: "findIndexInChain cs h (hd leaves) = Some r" using walk by blast
  obtain r' where "find_from_leaves (findIndexInChain cs h) (tl leaves) = Some r'"
    using find_from_leaves_total [of "tl leaves" "findIndexInChain cs h"] walk tl by blast
  then show ?thesis using r
    by (cases r) (simp_all add: findSegmentContainingBlock_def findMainChainSegmentContainingBlock_def findAlternativeSegmentContainingBlock_def)
qed

text \<open>The search by height gives a segment of the main chain or nothing.\<close>

lemma findIndexInChain_at_path:
  "is_path cs p \<Longrightarrow> findIndexInChain_at cs index (hd p) = Some (find (\<lambda>i. startIndex (node_cache (cs ! i)) \<le> index \<and>
     index < startIndex (node_cache (cs ! i)) + getBlockCount (node_cache (cs ! i))) p)"
proof (induction cs p rule: is_path.induct)
  case (2 cs i)
  then show ?case by (subst findIndexInChain_at.simps) (simp add: Let_def)
next
  case (3 cs i j p)
  then show ?case by (subst findIndexInChain_at.simps) (simp add: Let_def)
qed simp

lemma findSegment_at_main:
  assumes "tree_ok cs leaves" "is_path cs (hd leaves # p)"
  shows "\<exists>found. findSegmentContainingBlock_at cs leaves index = Some found \<and> set_option found \<subseteq> set (hd leaves # p)"
proof -
  have "\<exists>r. findIndexInChain_at cs index l = Some r" if l: "l \<in> set (tl leaves)" for l
  proof -
    have "l \<in> set leaves" using l by (cases leaves) simp_all
    then have "l < length cs" using tree_leaf [OF assms(1)] by blast
    then obtain q where "is_path cs (l # q)" using tree_path [OF assms(1)] by blast
    from findIndexInChain_at_path [OF this, of index] show ?thesis unfolding list.sel by blast
  qed
  then obtain r where r: "find_from_leaves (findIndexInChain_at cs index) (tl leaves) = Some r"
    using find_from_leaves_total [of "tl leaves" "findIndexInChain_at cs index"] by blast
  obtain P where "findIndexInChain_at cs index (hd leaves) = Some (find P (hd leaves # p))"
    using findIndexInChain_at_path [OF assms(2), of index] unfolding list.sel by blast
  then obtain found where found: "findIndexInChain_at cs index (hd leaves) = Some found" "\<And>j. found = Some j \<Longrightarrow> j \<in> set (hd leaves # p)"
    using find_SomeD by metis
  then show ?thesis using r by (cases found) (auto simp: findSegmentContainingBlock_at_def)
qed

lemma leaf_block_found:
  assumes "tree_ok cs leaves" "l \<in> set leaves" "hasBlock (node_cache (cs ! l)) h"
  shows "\<exists>j. findSegmentContainingBlock cs leaves h = Some (Some j)"
proof -
  obtain p where p: "is_path cs (l # p)" using tree_path [OF assms(1)] tree_leaf [OF assms(1)] assms(2) by blast
  have "findIndexInChain cs h l = Some (Some l)" using findIndexInChain_path [OF p, of h] assms(3) by simp
  then have "findSegmentContainingBlock cs leaves h \<noteq> Some None" using findSegment_None [OF _ assms(2)] by fastforce
  then show ?thesis using findSegment_total [OF assms(1), of h] by auto
qed

lemma store_fork_leaf:
  assumes "store_fork E block raw v i core = Some core'" "getBlockHash (cn_fast_hash (env_crypto E)) block = Inr h"
  shows "\<exists>l \<in> set (chainsLeaves core'). hasBlock (node_cache (chainsStorage core' ! l)) h"
proof -
  obtain cs' where "push_checked E block raw v (add_segment (chainsStorage core) i (chk_previous v + 1)) (length (chainsStorage core)) = Some cs'"
    "chainsStorage core' = cs'" "chainsLeaves core' = chainsLeaves core @ [length (chainsStorage core)]"
    using assms(1) by (auto simp: store_fork_def Let_def bind_eq_Some_conv)
  then show ?thesis using push_checked_has [OF _ assms(2)] by (simp add: add_segment_def)
qed

lemma store_block_leaf:
  assumes inv: "core_inv core" and i: "i < length (chainsStorage core)"
    and store: "store_block E block raw v i core = Some (r, core')" and hash: "getBlockHash (cn_fast_hash (env_crypto E)) block = Inr h"
  shows "\<exists>l \<in> set (chainsLeaves core'). hasBlock (node_cache (chainsStorage core' ! l)) h"
proof -
  consider (main) "store_on_main E block raw v core = Some (r, core')"
    | (alt) "i \<in> set (chainsLeaves core)" "store_on_alternative E block raw v i core = Some (r, core')"
    | (fork) core1 where "store_fork E block raw v i core = Some core1" "updateBlockMedianSize core1 = Some core'"
    | (split) core1 where "store_fork E block raw v i core1 = Some core'"
    using store i tree_leaf [OF core_inv_parts(1) [OF inv], of i] by (auto simp: store_block_def bind_eq_Some_conv split: if_splits)
  then show ?thesis
  proof cases
    case main
    then obtain cs' core1 core2 core3 where push: "push_checked E block raw v (chainsStorage core) (main_leaf core) = Some cs'"
      and core1: "core1 = core\<lparr>mainChainStorage := mainChainStorage core @ [raw], chainsStorage := cs'\<rparr>"
      and steps: "updateBlockMedianSize core1 = Some core2" "remove_used E v core2 = Some core3" "actualizePoolTransactionsLite E (chk_state v) core3 = Some core'"
      unfolding store_on_main_def by (auto split: Option.bind_splits)
    have "same_chains core1 core'"
      using pool_parts_keep(1) [OF steps(1)] pool_parts_keep(2) [OF steps(2)] pool_parts_keep(3) [OF steps(3)] same_chains_trans by blast
    then show ?thesis using push_checked_has [OF push hash core_inv_parts(4) [OF inv]] core_inv_parts(3) [OF inv] by (auto simp: same_chains_def core1)
  next
    case alt
    obtain cs' and new old :: u64 where push: "push_checked E block raw v (chainsStorage core) i = Some cs'"
      and rest: "(if old < new then switch_to E v i (core\<lparr>chainsStorage := cs'\<rparr>) else Some (ADDED_TO_ALTERNATIVE, core\<lparr>chainsStorage := cs'\<rparr>)) = Some (r, core')"
      by (rule store_on_alternative_parts [OF alt(2)])
    have has: "hasBlock (node_cache (cs' ! i)) h" by (rule push_checked_has [OF push hash i])
    show ?thesis
    proof (cases "old < new")
      case True
      then have "switch_to E v i (core\<lparr>chainsStorage := cs'\<rparr>) = Some (r, core')" using rest by simp
      then obtain e leaves st' core1 where sw: "e = length (takeWhile (\<lambda>j. j \<noteq> i) (chainsLeaves core))"
        "leaves = (chainsLeaves core)[0 := chainsLeaves core ! e, e := chainsLeaves core ! 0]" "chainsStorage core1 = cs'" "chainsLeaves core1 = leaves"
        "core' = core1\<lparr>mainChainStorage := st'\<rparr>"
        by (rule switch_to_parts) simp
      then show ?thesis using swap_leaves(3) [OF conjunct2 [OF tree_leaves [OF core_inv_parts(1) [OF inv]]] alt(1) sw(1)] has alt(1) by auto
    qed (use rest has alt(1) in auto)
  next
    case fork
    then show ?thesis using store_fork_leaf [OF _ hash, of raw v i core core1] pool_parts_keep(1) by (fastforce simp: same_chains_def)
  next
    case split
    then show ?thesis using store_fork_leaf [OF _ hash] by blast
  qed
qed

section \<open>Runs keep the invariant\<close>

lemma initRootSegment_inv:
  assumes empty: "chainsStorage core0 = []" "chainsLeaves core0 = []" "mainChainSet core0 = {}"
    and root: "chain_inv (co_currency core0) [rootCache]" and init: "initRootSegment rootCache core0 = Some core"
  shows "core_inv core" "mainChainStorage core0 = storage rootCache \<Longrightarrow> storage_follows core"
proof -
  let ?n = "\<lparr>node_cache = rootCache, node_parent = None, node_children = []\<rparr>"
  let ?core = "core0\<lparr>mainChainSet := {0}, chainsLeaves := [0], chainsStorage := [?n]\<rparr>"
  have same: "same_chains ?core core" using init pool_parts_keep(1) [of ?core core] by (simp add: initRootSegment_def Let_def empty)
  have path: "is_path [?n] (i # p) \<longleftrightarrow> i = 0 \<and> p = []" for i p by (auto simp: is_path_Cons)
  have tree: "tree_ok [?n] [0]" using path by (auto simp: tree_ok_def links_ok_def leaves_ok_def)
  have "updateMainChainSet [?n] [0] = Some {0}" using updateMainChainSet_path [of "[?n]" "[0]" "[]"] path by simp
  then have "core_inv ?core" using tree root by (simp add: core_inv_def chains_inv_def heaviest_def path)
  then show "core_inv core" using same_chains_inv(1) [OF same] by simp
  show "storage_follows core" if "mainChainStorage core0 = storage rootCache"
    using that same_chains_inv(2) [OF same] path_chain_at [of "[?n]" 0 "[]"] path by (simp add: storage_follows_def)
qed

lemma core_step_inv:
  assumes "core_inv core" "room core" "core_step J core core'"
  shows "core_inv core'"
proof -
  have block: "core_inv core'" if "addBlock E block raw core = Some (r, core')" for E block raw r
    using addBlock_inv [OF assms(1,2) that] assms(1) by (auto simp: stored_well_def)
  have pool: "core_inv (core\<lparr>co_pool := w\<rparr>)" for w using assms(1) by (simp add: core_inv_def)
  from assms(3) show ?thesis
  proof (cases rule: core_step.cases)
    case (add_raw_block E rawBlock r)
    then show ?thesis using block assms(1) by (auto simp: addBlock_raw_def split: sum.splits)
  next
    case (submit_block E rawBlockTemplate r)
    then show ?thesis using block assms(1) by (auto simp: submitBlock_def split: sum.splits Option.bind_splits)
  qed (use block pool in auto)
qed

lemma core_run_inv: "core_run J core0 core \<Longrightarrow> core_inv core0 \<Longrightarrow> core_inv core"
  by (induction rule: core_run.induct) (auto intro: core_step_inv)

section \<open>A node with a few blocks\<close>

definition start_core :: Core where
  "start_core = \<lparr>co_currency = sample_currency, co_checkpoints = [], co_genesisBlockHash = [0], chainsStorage = [], chainsLeaves = [],
     mainChainSet = {}, mainChainStorage = storage sample_root,
     co_pool = \<lparr>transactionPool = empty_pool, recentlyDeletedTransactions = Map.empty, timeout = 86400\<rparr>, co_blockMedianSize = 0\<rparr>"

definition first_core :: Core where
  "first_core = the (initRootSegment sample_root start_core)"

definition mined :: "u8 \<Rightarrow> nat \<Rightarrow> bytes \<Rightarrow> BlockTemplate" where
  "mined tag index prev =
     \<lparr>majorVersion = 1, minorVersion = 0, nonce = 0, timestamp = of_nat (10 + 20 * index), previousBlockHash = prev, parentBlock = empty_ParentBlock,
       baseTransaction = \<lparr>version = 1, unlockTime = of_nat (index + 20), inputs = [BaseInput (of_nat index)],
         outputs = [\<lparr>out_amount = 37252902, target = KeyOutput [tag]\<rparr>], extra = [], signatures = []\<rparr>,
       transactionHashes = []\<rparr>"

definition raw_of :: "u8 \<Rightarrow> RawBlock" where
  "raw_of tag = \<lparr>raw_block = [tag], raw_transactions = []\<rparr>"

text \<open>The hash of a block is the key of its miner.\<close>

definition tag_hash :: "bytes \<Rightarrow> bytes" where
  "tag_hash bs = take 1 (drop (length bs - 2) bs)"

definition fork_env :: environment where
  "fork_env = sample_env\<lparr>env_crypto := sample_crypto\<lparr>cn_fast_hash := tag_hash\<rparr>\<rparr>"

fun add_all :: "environment \<Rightarrow> (BlockTemplate \<times> RawBlock) list \<Rightarrow> Core \<Rightarrow> (error_code list \<times> Core) option" where
  "add_all E [] core = Some ([], core)"
| "add_all E ((block, raw) # bs) core =
     do {
       (r, core) \<leftarrow> addBlock E block raw core;
       (rs, core) \<leftarrow> add_all E bs core;
       Some (r # rs, core)
     }"

text \<open>Two blocks on the main chain, one beside the first of them, two on top of that one and one more on the first of these two.\<close>

definition fork_blocks :: "(BlockTemplate \<times> RawBlock) list" where
  "fork_blocks =
     [(mined 11 1 [3], raw_of 11), (mined 12 2 [11], raw_of 12), (mined 13 1 [3], raw_of 13), (mined 14 2 [13], raw_of 14),
      (mined 15 2 [13], raw_of 15), (mined 16 3 [14], raw_of 16)]"

lemma first_core_init: "initRootSegment sample_root start_core = Some first_core"
proof -
  have "\<not> Option.is_none (initRootSegment sample_root start_core)" by code_simp
  then show ?thesis by (simp add: first_core_def Option.is_none_def)
qed

lemma first_core_chains:
  "chainsStorage first_core = [\<lparr>node_cache = sample_root, node_parent = None, node_children = []\<rparr>]" "chainsLeaves first_core = [0]"
  "mainChainSet first_core = {0}" "co_currency first_core = sample_currency" "mainChainStorage first_core = storage sample_root"
  using first_core_init pool_parts_keep(1) [OF first_core_init [unfolded initRootSegment_def Let_def]]
  by (simp_all add: same_chains_def start_core_def)

lemma start_core_inv: "chain_inv (co_currency start_core) [sample_root]"
  by (simp add: chain_inv_def sample_root_def worked_def start_core_def)

lemma first_core_inv: "core_inv first_core" "storage_follows first_core"
  using initRootSegment_inv [OF _ _ _ start_core_inv first_core_init] by (simp_all add: start_core_def)

lemma first_core_chain: "chain_at (chainsStorage first_core) 0 = Some [sample_root]"
  using path_chain_at [of "chainsStorage first_core" 0 "[]"] by (simp add: first_core_chains)

lemma first_core_room: "room first_core"
proof -
  have work: "next_work sample_currency (blockInfos sample_root) = Some 1" by code_simp
  have root: "length (blockInfos sample_root) = 1" "cbi_cumulativeDifficulty (blockInfos sample_root ! 0) = 1" by (simp_all add: sample_root_def)
  have "unat (cbi_cumulativeDifficulty (blockInfos sample_root ! (k - 1))) + unat d < 2 ^ 64"
    if "0 < k" "k \<le> 1" "next_work sample_currency (take k (blockInfos sample_root)) = Some d" for k d
  proof -
    have "k = 1" using that by simp
    then show ?thesis using that(3) work root by simp
  qed
  moreover have "chain_at (chainsStorage first_core) i = Some ch \<Longrightarrow> i < length (chainsStorage first_core) \<Longrightarrow> ch = [sample_root]" for i ch
    using first_core_chain by (simp add: first_core_chains)
  ultimately show ?thesis unfolding room_def using root by (fastforce simp: first_core_chains(4))
qed

lemma first_core_step:
  obtains core' where "addBlock sample_env next_block sample_raw first_core = Some (Add_code ADDED_TO_MAIN, core')"
proof -
  have "map_option fst (addBlock sample_env next_block sample_raw first_core) = Some (Add_code ADDED_TO_MAIN)" by code_simp
  then show ?thesis using that by auto
qed

lemma next_block_hash: "\<exists>h. getBlockHash (cn_fast_hash (env_crypto sample_env)) next_block = Inr h"
proof -
  have "case getBlockHash (cn_fast_hash (env_crypto sample_env)) next_block of Inl _ \<Rightarrow> False | Inr _ \<Rightarrow> True" by code_simp
  then show ?thesis by (auto split: sum.splits)
qed

section \<open>Correctness of \<open>addBlock\<close>\<close>

text \<open>C1: In every state that a node reaches from its first segment by blocks from the network or from a miner, by transactions and by cleaning its pool, the segments form a tree with a chain of blocks for each of them; the totals of every chain are the sums of the difficulties that the rules demand; no chain has a greater total than the main chain; and the set of segments of the main chain is up to date.\<close>

theorem main_chain_heaviest:
  assumes "chainsStorage core0 = []" "chainsLeaves core0 = []" "mainChainSet core0 = {}"
    and "chain_inv (co_currency core0) [rootCache]" "initRootSegment rootCache core0 = Some core1" "core_run J core1 core"
  shows "\<exists>main. chain_at (chainsStorage core) (main_leaf core) = Some main \<and>
    ancestors (chainsStorage core) (main_leaf core) \<in> {Some p | p. set p = mainChainSet core} \<and>
    (\<forall>i < length (chainsStorage core). \<exists>ch. chain_at (chainsStorage core) i = Some ch \<and> linked ch \<and> worked (co_currency core) (chain_blocks ch) \<and>
       cbi_cumulativeDifficulty (last (chain_blocks ch)) \<le> cbi_cumulativeDifficulty (last (chain_blocks main)))"
proof -
  let ?cs = "chainsStorage core"
  have inv: "core_inv core" using core_run_inv [OF assms(6) initRootSegment_inv(1) [OF assms(1-5)]] .
  note tree = core_inv_parts(1) [OF inv]
  have top: "\<exists>ch. chain_at ?cs i = Some ch \<and> chain_inv (co_currency core) ch \<and> cbi_cumulativeDifficulty (last (chain_blocks ch)) = top_work ?cs i"
    if i: "i < length ?cs" for i
  proof -
    obtain p where p: "is_path ?cs (i # p)" "chain_at ?cs i = Some (chain_of ?cs (i # p))" using tree_path [OF tree i] by blast
    then show ?thesis using core_inv_parts(5) [OF inv p(1)] top_work_chain [of "co_currency core" ?cs i p] by auto
  qed
  obtain main where main: "chain_at ?cs (main_leaf core) = Some main" "cbi_cumulativeDifficulty (last (chain_blocks main)) = top_work ?cs (main_leaf core)"
    using top [OF core_inv_parts(4) [OF inv]] by blast
  moreover have "updateMainChainSet ?cs (chainsLeaves core) = Some (mainChainSet core)" using inv by (simp add: core_inv_def)
  then have "ancestors ?cs (main_leaf core) \<in> {Some p | p. set p = mainChainSet core}" by (auto simp: updateMainChainSet_def)
  moreover have "top_work ?cs i \<le> top_work ?cs (main_leaf core)" if "i < length ?cs" for i
    using core_inv_parts(2) [OF inv] that by (simp add: heaviest_def)
  ultimately show ?thesis using top main(2) by (fastforce simp: chain_inv_def)
qed

theorem main_chain_heaviest_witness:
  "\<exists>core main. core_run no_json first_core core \<and> addBlock sample_env next_block sample_raw first_core = Some (Add_code ADDED_TO_MAIN, core) \<and>
     chain_at (chainsStorage core) (main_leaf core) = Some main \<and> linked main \<and> worked (co_currency core) (chain_blocks main)"
proof -
  obtain core where core: "addBlock sample_env next_block sample_raw first_core = Some (Add_code ADDED_TO_MAIN, core)" by (rule first_core_step)
  then have run: "core_run no_json first_core core" using first_core_room by (blast intro: core_run.intros core_step.intros)
  have "core_inv core" using core_run_inv [OF run first_core_inv(1)] .
  then have "main_leaf core < length (chainsStorage core)" by (rule core_inv_parts(4))
  then show ?thesis using main_chain_heaviest [OF _ _ _ start_core_inv first_core_init run] run core by (fastforce simp: start_core_def)
qed

text \<open>C7: In every state of a run all walks over the parents of the segments end: the one from a segment to the root meets no segment twice, the search of a block by its hash returns, and the search by height returns, with a segment of the main chain or with none.\<close>

theorem segment_walks_end:
  assumes "chainsStorage core0 = []" "chainsLeaves core0 = []" "mainChainSet core0 = {}"
    and "chain_inv (co_currency core0) [rootCache]" "initRootSegment rootCache core0 = Some core1" "core_run J core1 core"
  shows "(\<forall>i < length (chainsStorage core). \<exists>p. ancestors (chainsStorage core) i = Some p \<and> hd p = i \<and> distinct p) \<and>
    (\<exists>found. findSegmentContainingBlock (chainsStorage core) (chainsLeaves core) blockHash = Some found) \<and>
    (\<exists>found. findSegmentContainingBlock_at (chainsStorage core) (chainsLeaves core) index = Some found \<and> set_option found \<subseteq> mainChainSet core)"
proof -
  let ?cs = "chainsStorage core"
  have inv: "core_inv core" using core_run_inv [OF assms(6) initRootSegment_inv(1) [OF assms(1-5)]] .
  note tree = core_inv_parts(1) [OF inv]
  have "\<exists>p. ancestors ?cs i = Some p \<and> hd p = i \<and> distinct p" if "i < length ?cs" for i
    by (rule tree_path [OF tree that]) (use path_distinct in fastforce)
  moreover obtain q where q: "is_path ?cs (main_leaf core # q)" using tree_path [OF tree core_inv_parts(4) [OF inv]] by blast
  moreover have "mainChainSet core = set (main_leaf core # q)" using inv updateMainChainSet_path [OF q] by (simp add: core_inv_def)
  ultimately show ?thesis using findSegment_total [OF tree] findSegment_at_main [OF tree q, of index] by simp
qed

theorem segment_walks_end_witness:
  "\<exists>core. core_run no_json first_core core \<and> addBlock sample_env next_block sample_raw first_core = Some (Add_code ADDED_TO_MAIN, core) \<and>
     (\<exists>found. findSegmentContainingBlock (chainsStorage core) (chainsLeaves core) [3] = Some found)"
proof -
  obtain core where core: "addBlock sample_env next_block sample_raw first_core = Some (Add_code ADDED_TO_MAIN, core)" by (rule first_core_step)
  then have run: "core_run no_json first_core core" using first_core_room by (blast intro: core_run.intros core_step.intros)
  have "\<exists>found. findSegmentContainingBlock (chainsStorage core) (chainsLeaves core) [3] = Some found"
    using segment_walks_end [OF _ _ _ start_core_inv first_core_init run, of "[3]" 0] by (simp add: start_core_def)
  then show ?thesis using run core by blast
qed

text \<open>C6: The result of \<open>addBlock\<close> is true to what happened: with one of the three codes of success the block was unknown before and is found afterwards, with every other code the state is as before.\<close>

theorem addBlock_found:
  assumes "core_inv core" "room core" "addBlock E block rawBlock core = Some (r, core')" "getBlockHash (cn_fast_hash (env_crypto E)) block = Inr h"
  shows "if r \<in> Add_code ` {ADDED_TO_MAIN, ADDED_TO_ALTERNATIVE, ADDED_TO_ALTERNATIVE_AND_SWITCHED}
    then core_hasBlock h core = Some False \<and> core_hasBlock h core' = Some True
    else core' = core"
  using assms(3)
proof (cases rule: addBlock_cases)
  case refused
  then show ?thesis by (simp add: added_codes_def)
next
  case (stored h' i ch v ret)
  have h: "h' = h" using stored(1) assms(4) by simp
  have "core_inv core'" using addBlock_inv [OF assms(1-3)] stored(8) by (auto simp: stored_well_def)
  then have tree: "tree_ok (chainsStorage core') (chainsLeaves core')" by (rule core_inv_parts(1))
  have "i < length (chainsStorage core)" by (rule found_segment(1) [OF core_inv_parts(1) [OF assms(1)] stored(3,2)])
  from store_block_leaf [OF assms(1) this stored(6) assms(4)] leaf_block_found [OF tree]
  have "core_hasBlock h core' = Some True" by (fastforce simp: core_hasBlock_def)
  then show ?thesis using stored(2,8) by (simp add: added_codes_def core_hasBlock_def h)
qed

theorem addBlock_found_witness:
  "\<exists>core h. addBlock sample_env next_block sample_raw first_core = Some (Add_code ADDED_TO_MAIN, core) \<and>
     core_hasBlock h first_core = Some False \<and> core_hasBlock h core = Some True"
proof -
  obtain core where core: "addBlock sample_env next_block sample_raw first_core = Some (Add_code ADDED_TO_MAIN, core)" by (rule first_core_step)
  obtain h where "getBlockHash (cn_fast_hash (env_crypto sample_env)) next_block = Inr h" using next_block_hash by blast
  from addBlock_found [OF first_core_inv(1) first_core_room core this] core show ?thesis by auto
qed

text \<open>C5: The main chain changes for the better only: a block that is added to an alternative chain leaves the blocks of the main chain as they are, and after a block that extends the main chain or makes another chain the main one the total difficulty of the main chain is strictly greater.\<close>

theorem main_work_increases:
  assumes "core_inv core" "room core" "addBlock E block rawBlock core = Some (Add_code ret, core')"
  shows "if ret \<in> {ADDED_TO_MAIN, ADDED_TO_ALTERNATIVE_AND_SWITCHED} then main_work core < main_work core' else main_blocks core' = main_blocks core"
  using addBlock_inv [OF assms] by (auto simp: stored_well_def added_codes_def)

theorem main_work_increases_witness:
  "\<exists>core. addBlock sample_env next_block sample_raw first_core = Some (Add_code ADDED_TO_MAIN, core) \<and> 1 < main_work core"
proof -
  obtain core where core: "addBlock sample_env next_block sample_raw first_core = Some (Add_code ADDED_TO_MAIN, core)" by (rule first_core_step)
  have "main_work first_core = 1" by (simp add: main_work_def top_work_def first_core_chains sample_root_def)
  then show ?thesis using main_work_increases [OF first_core_inv(1) first_core_room core] core by auto
qed

text \<open>C2: The block list on disk stays the list of the blocks of the main chain, from the first block to the top, whatever block arrives: if no other chain becomes the main one, or if the segment on top of the new main chain starts on the old main chain.\<close>

theorem main_storage_follows:
  assumes "core_inv core" "room core" "addBlock E block rawBlock core = Some (r, core')"
    and "map_option chain_storage (chain_at (chainsStorage core) (main_leaf core)) = Some (mainChainStorage core)"
    and "r = Add_code ADDED_TO_ALTERNATIVE_AND_SWITCHED \<longrightarrow> (\<exists>q \<in> mainChainSet core. node_parent (chainsStorage core' ! main_leaf core') = Some q)"
  shows "map_option chain_storage (chain_at (chainsStorage core') (main_leaf core')) = Some (mainChainStorage core')"
  using addBlock_inv [OF assms(1-3)] assms(4,5) by (auto simp: stored_well_def storage_follows_def)

theorem main_storage_follows_witness:
  "\<exists>core. addBlock sample_env next_block sample_raw first_core = Some (Add_code ADDED_TO_MAIN, core) \<and>
     map_option chain_storage (chain_at (chainsStorage core) (main_leaf core)) = Some (mainChainStorage core)"
proof -
  obtain core where core: "addBlock sample_env next_block sample_raw first_core = Some (Add_code ADDED_TO_MAIN, core)" by (rule first_core_step)
  from main_storage_follows [OF first_core_inv(1) first_core_room core first_core_inv(2) [unfolded storage_follows_def]] core
  show ?thesis by auto
qed

text \<open>C37: Otherwise the block list on disk gets mixed up: the node accepts six blocks of which the last one makes another chain the main one; the list then has the first block of the old main chain and the later blocks of the new one, and differs from the blocks of the main chain.\<close>

theorem switched_storage_diverges:
  "\<exists>rs core. add_all fork_env fork_blocks first_core = Some (rs, core) \<and>
     rs = map Add_code [ADDED_TO_MAIN, ADDED_TO_MAIN, ADDED_TO_ALTERNATIVE, ADDED_TO_ALTERNATIVE, ADDED_TO_ALTERNATIVE, ADDED_TO_ALTERNATIVE_AND_SWITCHED] \<and>
     map raw_block (mainChainStorage core) = [[1], [11], [14], [16]] \<and>
     map_option (\<lambda>ch. map raw_block (chain_storage ch)) (chain_at (chainsStorage core) (main_leaf core)) = Some [[1], [13], [14], [16]]"
proof -
  have "map_option (\<lambda>(rs, core). (rs, map raw_block (mainChainStorage core),
        map_option (\<lambda>ch. map raw_block (chain_storage ch)) (chain_at (chainsStorage core) (main_leaf core)))) (add_all fork_env fork_blocks first_core) =
      Some (map Add_code [ADDED_TO_MAIN, ADDED_TO_MAIN, ADDED_TO_ALTERNATIVE, ADDED_TO_ALTERNATIVE, ADDED_TO_ALTERNATIVE, ADDED_TO_ALTERNATIVE_AND_SWITCHED],
        [[1], [11], [14], [16]], Some [[1], [13], [14], [16]])"
    by code_simp
  then show ?thesis by auto
qed

end
