(* ===== verification/Spec2Isabelle.thy ===== *)
theory Spec2Isabelle
  imports Int_Util Streams Base58 Text_Utils Transactions Tx_Extra Tree_Hash Blocks
    Amounts Config Difficulty Currency Currency_Text Consensus Mixins Upgrades Checkpoints Cached_Tx Tx_Pool Pool_Cleaner
    Tx_Validation Block_Template Chain_Push Core_Tree Block_Validation Add_Block
begin

text \<open>
  A verification development of the Mevacoin node: the data formats, the rules of the currency, the transaction pool
  and the block chain of \<^verbatim>\<open>src/\<close>.  File names below are relative to that directory.

  \<^bold>\<open>Parts of the program.\<close>  A node receives transactions and blocks as bytes.  The binary serializers turn them into
  structures; the checks of \<^verbatim>\<open>mevacoin_core/core.cpp\<close> decide about them with the rules of the currency (amounts, rewards,
  difficulty, versions, checkpoints) and with queries to the block chain; accepted transactions wait in the pool,
  from which the template of a new block is filled; accepted blocks are added to a segment of the block chain.  The
  segments form a tree with a main chain, and a heavier chain becomes the main one.

  \<^bold>\<open>Theories, from the bottom.\<close>

  \<^item> \<open>Prelude\<close>: words, bytes, and the facts about them that several theories use.
  \<^item> \<open>Int_Util\<close>: \<^verbatim>\<open>common/int_util.h\<close>, the long multiplication and division, rotations and byte swaps; they are
    exact.
  \<^item> \<open>Streams\<close>: \<^verbatim>\<open>common/stream_tools.cpp\<close>, \<^verbatim>\<open>common/memory_input_stream.cpp\<close> and the binary serializers of
    \<^verbatim>\<open>serialization/\<close>.  A reader takes bytes and gives an error or a value and the rest.  The locales \<open>codec\<close> and
    \<open>canonical_codec\<close> state that reading inverts writing and that nothing else is accepted; they are interpreted on
    the formats of the program, here and in \<open>Transactions\<close>.
  \<^item> \<open>Base58\<close>, \<open>Text_Utils\<close>, \<open>Currency_Text\<close>: \<^verbatim>\<open>common/varint.h\<close>, \<^verbatim>\<open>common/base58.cpp\<close>, \<^verbatim>\<open>common/string_tools.cpp\<close>,
    \<^verbatim>\<open>syst/ipv4_address.cpp\<close> and the addresses and amounts as text of \<^verbatim>\<open>mevacoin_core/currency.cpp\<close>; the round trips
    between values and texts.
  \<^item> \<open>Transactions\<close>, \<open>Tx_Extra\<close>, \<open>Blocks\<close>: the structures of \<^verbatim>\<open>include/mevacoin.h\<close> with their serialization in
    \<^verbatim>\<open>mevacoin_core/mevacoin_serialization.cpp\<close>, the extra field of \<^verbatim>\<open>mevacoin_core/transaction_extra.cpp\<close> and the hashes of
    \<^verbatim>\<open>mevacoin_core/cached_block.cpp\<close>; round trips, and where a block has several encodings.
  \<^item> \<open>Tree_Hash\<close>: \<^verbatim>\<open>crypto/tree-hash.c\<close>, against a recursive definition of the Merkle root; a branch proves the root.
  \<^item> \<open>Amounts\<close>: fees, decomposition, relative offsets and penalties of \<^verbatim>\<open>mevacoin_core/mevacoin_format_utils.cpp\<close>,
    \<^verbatim>\<open>mevacoin_core/mevacoin_tools.cpp\<close> and \<^verbatim>\<open>mevacoin_core/mevacoin_basic_impl.cpp\<close>.
  \<^item> \<open>Config\<close>, \<open>Currency\<close>: the constants of \<^verbatim>\<open>config/mevacoin_config.h\<close> and the class of \<^verbatim>\<open>mevacoin_core/currency.h\<close> with the
    block reward, the miner transaction, fusion transactions and the genesis block.
  \<^item> \<open>Difficulty\<close>, \<open>Consensus\<close>, \<open>Mixins\<close>, \<open>Upgrades\<close>, \<open>Checkpoints\<close>: \<^verbatim>\<open>mevacoin_core/difficulty.cpp\<close>, the difficulty and proof of
    work rules of \<^verbatim>\<open>mevacoin_core/currency.cpp\<close>, \<^verbatim>\<open>mevacoin_core/mixins.h\<close>, the upgrade manager and detector, and
    \<^verbatim>\<open>mevacoin_core/checkpoints.cpp\<close>.
  \<^item> \<open>Cached_Tx\<close>, \<open>Tx_Pool\<close>, \<open>Pool_Cleaner\<close>: \<^verbatim>\<open>mevacoin_core/cached_transaction.cpp\<close>, \<^verbatim>\<open>mevacoin_core/transaction_pool.cpp\<close> and
    \<^verbatim>\<open>mevacoin_core/transaction_pool_cleaner.cpp\<close>.  The pool is a state with an invariant that every operation keeps, for
    every sequence of operations.
  \<^item> \<open>Tx_Validation\<close>, \<open>Block_Template\<close>: the checks of a transaction and its way into the pool, and the choice of the
    transactions of a block, in \<^verbatim>\<open>mevacoin_core/core.cpp\<close>.
  \<^item> \<open>Blockchain_Cache\<close>, \<open>Chain_Views\<close>, \<open>Chain_Push\<close>: \<^verbatim>\<open>mevacoin_core/blockchain_cache.cpp\<close>.  A chain is a list of
    segments.  Joining the segments gives an abstract chain; queries, splitting a segment and adding a block are
    related to it.  The locale \<open>chain_query\<close> is the contract of a query that sees only the joined chain.
  \<^item> \<open>Core_Tree\<close>: the tree of segments of \<^verbatim>\<open>mevacoin_core/core.cpp\<close>.  A pointer to a segment is its position in
    \<open>chainsStorage\<close>.  A tree is well formed if parents, children and leaves agree and every segment has a path to a root;
    a block on a leaf, a new branch and a split keep this and the totals of all chains.
  \<^item> \<open>Block_Validation\<close>: \<open>validateBlock\<close> and all checks of \<open>addBlock\<close>, in their order.  The coins of an accepted block
    balance, and it spends every key image once.
  \<^item> \<open>Add_Block\<close>: the state of \<open>Core\<close> and \<open>addBlock\<close> with its ways of storing a block, the pool, the switch to another
    chain and the block list on disk.  \<open>core_step\<close> is a step of a node and \<open>core_run\<close> a run.  In a run the main chain
    is the heaviest one, its total only grows, and all searches end; the list on disk follows the main chain, but for a
    switch to a chain whose top segment starts on another alternative segment, for which a run shows the difference.

  \<^bold>\<open>Conventions.\<close>  Machine integers are words of their width.  An exception of a computation is \<open>Inl\<close> of an error type or
  \<open>None\<close>; undefined behaviour (a read out of bounds, a division by zero, a shift by too much) is always \<open>None\<close>; where a
  function also returns a flag, the inner option is the flag.  Assertions are absent, as in a release build.  Loops are
  structural recursions, or recursive functions with a proof of termination; no definition has fuel.  The walks over the
  parents of a segment are partial functions, of which a theorem shows that they return in every run.  The premise
  \<open>room\<close> says that heights fit into 32 and total difficulties into 64 bits after one more block.  The cryptographic
  functions, the clock and the JSON library are arguments; what a theorem needs of them is a premise.  Hashed containers
  have no order: their traversals give sets or multisets, or the order does not matter for the result.

  \<^bold>\<open>Not modelled.\<close>  The cryptographic primitives of \<^verbatim>\<open>crypto/\<close> other than the tree hash are arguments of the model.  The
  network code (\<^verbatim>\<open>p2p/\<close>, \<^verbatim>\<open>mevacoin_protocol/\<close>, \<^verbatim>\<open>syst/\<close>, \<^verbatim>\<open>platform/\<close>, \<^verbatim>\<open>http/\<close>), the remote procedure calls
  (\<^verbatim>\<open>rpc/\<close>, \<^verbatim>\<open>json_rpc_server/\<close>, \<^verbatim>\<open>nigel/\<close>, \<^verbatim>\<open>node_rpc_proxy/\<close>), the wallets (\<^verbatim>\<open>wallet*/\<close>, \<^verbatim>\<open>sub_wallets/\<close>, \<^verbatim>\<open>transfers/\<close>,
  \<^verbatim>\<open>zedwallet*/\<close>), the miner and the daemon are concurrent programs around input and output and third party libraries.  The
  database caches of \<^verbatim>\<open>mevacoin_core/\<close> keep the same chain in RocksDB; the root segment of \<open>Core\<close> is such a cache, and is
  an argument here.  Of \<open>Core\<close>, the queries for the network and for user interfaces, the import of blocks from disk at
  the start and the messages to observers are left out.  The text serializers, logging and console tools
  carry no rule of the currency.
\<close>

end
